(* ===== verification/Prelude.thy ===== *)
theory Prelude
  imports Main "HOL-Library.Word"
begin

text \<open>
  What the components share: outcomes of C functions, C strings, the character classes of
  \<^verbatim>\<open><ctype.h>\<close> in the "C" locale, \<^verbatim>\<open>size_t\<close> arithmetic, memory blocks, and the
  generic list lemmas and fact collections the component theories use.
\<close>

section \<open>Fact collections\<close>

named_theorems outcome_simps \<open>unfolding of the outcome combinators\<close>
named_theorems block_simps \<open>reading and writing memory blocks\<close>
named_theorems cchar_simps \<open>evaluation of character classes\<close>

section \<open>Outcomes of C functions\<close>

text \<open>
  A call returns a value, fails an \<^verbatim>\<open>assert\<close> (the build leaves \<^verbatim>\<open>NDEBUG\<close> undefined, so the
  process aborts), or runs into undefined behaviour (an access outside a block, a
  dereferenced null pointer, an out-of-range conversion).
\<close>

datatype 'a outcome = Ret 'a | AssertFail | UB

fun obind :: "'a outcome \<Rightarrow> ('a \<Rightarrow> 'b outcome) \<Rightarrow> 'b outcome" where
  "obind (Ret x) f = f x"
| "obind AssertFail f = AssertFail"
| "obind UB f = UB"

definition c_assert :: "bool \<Rightarrow> 'a outcome \<Rightarrow> 'a outcome" where
  "c_assert b k = (if b then k else AssertFail)"

definition ub_unless :: "'a option \<Rightarrow> 'a outcome" where
  "ub_unless x = (case x of None \<Rightarrow> UB | Some y \<Rightarrow> Ret y)"

fun omap :: "('a \<Rightarrow> 'b outcome) \<Rightarrow> 'a list \<Rightarrow> 'b list outcome" where
  "omap f [] = Ret []"
| "omap f (x # xs) = obind (f x) (\<lambda>y. obind (omap f xs) (\<lambda>ys. Ret (y # ys)))"

lemma obind_cong [fundef_cong]:
  "m = m' \<Longrightarrow> (\<And>x. m' = Ret x \<Longrightarrow> f x = f' x) \<Longrightarrow> obind m f = obind m' f'"
  by (cases m') auto

lemma obind_Ret_iff: "obind m f = Ret y \<longleftrightarrow> (\<exists>x. m = Ret x \<and> f x = Ret y)"
  by (cases m) auto

lemma obind_assoc: "obind (obind m f) g = obind m (\<lambda>x. obind (f x) g)"
  by (cases m) auto

lemma obind_Ret_E [elim]:
  assumes "obind m f = Ret y"
  obtains x where "m = Ret x" and "f x = Ret y"
  using assms by (cases m) auto

lemma c_assert_True [simp, outcome_simps]: "c_assert True k = k"
  by (simp add: c_assert_def)

lemma c_assert_Ret_iff: "c_assert b k = Ret y \<longleftrightarrow> b \<and> k = Ret y"
  by (simp add: c_assert_def)

lemma ub_unless_simps [simp, outcome_simps]:
  "ub_unless (Some x) = Ret x"
  "ub_unless None = UB"
  by (simp_all add: ub_unless_def)

lemma omap_all_Ret: "(\<And>x. x \<in> set xs \<Longrightarrow> f x = Ret (g x)) \<Longrightarrow> omap f xs = Ret (map g xs)"
  by (induction xs) auto

lemma omap_length: "omap f xs = Ret ys \<Longrightarrow> length ys = length xs"
  by (induction xs arbitrary: ys) (auto elim!: obind_Ret_E)

text \<open>
  A function that may also end the process: \<open>Inl c\<close> is \<^verbatim>\<open>exit(c)\<close>, with
  \<^verbatim>\<open>EXIT_SUCCESS\<close> 0 and \<^verbatim>\<open>EXIT_FAILURE\<close> 1.
\<close>

type_synonym 'a proc = "(int + 'a) outcome"

definition pbind :: "'a proc \<Rightarrow> ('a \<Rightarrow> 'b proc) \<Rightarrow> 'b proc" where
  "pbind m f = obind m (\<lambda>r. case r of Inl c \<Rightarrow> Ret (Inl c) | Inr x \<Rightarrow> f x)"

definition pret :: "'a \<Rightarrow> 'a proc" where
  "pret x = Ret (Inr x)"

definition exit_with :: "int \<Rightarrow> 'a proc" where
  "exit_with c = Ret (Inl c)"

definition EXIT_SUCCESS :: int where "EXIT_SUCCESS = 0"
definition EXIT_FAILURE :: int where "EXIT_FAILURE = 1"

lemma pbind_simps [simp, outcome_simps]:
  "pbind (pret x) f = f x"
  "pbind (exit_with c) f = exit_with c"
  "pbind AssertFail f = AssertFail"
  "pbind UB f = UB"
  by (simp_all add: pbind_def pret_def exit_with_def)

lemma proc_distinct [simp, outcome_simps]:
  "pret x = pret y \<longleftrightarrow> x = y"
  "exit_with c = exit_with d \<longleftrightarrow> c = d"
  "pret x \<noteq> exit_with c"
  "exit_with c \<noteq> pret x"
  by (simp_all add: pret_def exit_with_def)

lemma pbind_cong [fundef_cong]:
  "m = m' \<Longrightarrow> (\<And>x. m' = pret x \<Longrightarrow> f x = f' x) \<Longrightarrow> pbind m f = pbind m' f'"
  by (cases m') (auto simp: pbind_def pret_def split: sum.splits)

section \<open>\<^verbatim>\<open>size_t\<close> arithmetic (LP64)\<close>

definition size_mod :: nat where
  "size_mod = 2 ^ 64"

definition size_mul :: "nat \<Rightarrow> nat \<Rightarrow> nat" where
  "size_mul a b = (a * b) mod size_mod"

definition size_add :: "nat \<Rightarrow> nat \<Rightarrow> nat" where
  "size_add a b = (a + b) mod size_mod"

definition size_sub :: "nat \<Rightarrow> nat \<Rightarrow> nat" where
  "size_sub a b = (a + size_mod - b) mod size_mod"

lemma size_mul_exact [simp]: "a * b < size_mod \<Longrightarrow> size_mul a b = a * b"
  by (simp add: size_mul_def)

lemma size_add_exact [simp]: "a + b < size_mod \<Longrightarrow> size_add a b = a + b"
  by (simp add: size_add_def)

lemma size_sub_exact [simp]:
  assumes "b \<le> a" and "a < size_mod"
  shows "size_sub a b = a - b"
proof -
  obtain d where "a = b + d" using assms(1) le_Suc_ex by blast
  then show ?thesis using assms(2) by (simp add: size_sub_def)
qed

lemma size_sub_1 [simp]: "0 < n \<Longrightarrow> n < size_mod \<Longrightarrow> size_sub n (Suc 0) = n - 1"
  using size_sub_exact [of 1 n] by simp

lemma size_mul_double:
  assumes "2 * n * k < size_mod" and "0 < k"
  shows "size_mul n 2 = 2 * n"
proof -
  have "2 * n * 1 \<le> 2 * n * k" using assms(2) by (intro mult_le_mono2) simp
  then have "n * 2 < size_mod" using assms(1) by linarith
  then show ?thesis by simp
qed

lemma size_mod_pos [simp]: "0 < size_mod"
  by (simp add: size_mod_def)

section \<open>Memory blocks\<close>

text \<open>
  A heap block is the list of its bytes, \<open>None\<close> for a byte that was never written (fresh
  \<^verbatim>\<open>malloc\<close> memory). \<open>malloc\<close> is modelled by the sizes it can serve: \<open>mok n\<close> says
  whether a request of \<open>n\<close> bytes succeeds, so every out-of-memory branch of the code is a
  branch of the model.
\<close>

type_synonym 'b block = "'b option list"

definition c_malloc :: "(nat \<Rightarrow> bool) \<Rightarrow> nat \<Rightarrow> 'b block option" where
  "c_malloc mok n = (if mok n then Some (replicate n None) else None)"

definition block_read :: "'b block \<Rightarrow> nat \<Rightarrow> nat \<Rightarrow> 'b block option" where
  "block_read b off n = (if off + n \<le> length b then Some (take n (drop off b)) else None)"

definition block_write :: "'b block \<Rightarrow> nat \<Rightarrow> 'b block \<Rightarrow> 'b block option" where
  "block_write b off d =
     (if off + length d \<le> length b
      then Some (take off b @ d @ drop (off + length d) b) else None)"

definition block_move :: "'b block \<Rightarrow> nat \<Rightarrow> nat \<Rightarrow> nat \<Rightarrow> 'b block option" where
  "block_move b dst src n = Option.bind (block_read b src n) (block_write b dst)"

lemma block_read_append [block_simps]:
  "off = length p \<Longrightarrow> n = length m \<Longrightarrow> block_read (p @ m @ s) off n = Some m"
  by (simp add: block_read_def)

lemma block_write_append [block_simps]:
  "off = length p \<Longrightarrow> length d = length m \<Longrightarrow>
   block_write (p @ m @ s) off d = Some (p @ d @ s)"
  by (simp add: block_write_def)

lemma length_block_write: "block_write b off d = Some b' \<Longrightarrow> length b' = length b"
  by (auto simp: block_write_def split: if_splits)

lemma c_malloc_Some_iff: "c_malloc mok n = Some b \<longleftrightarrow> mok n \<and> b = replicate n None"
  by (auto simp: c_malloc_def)

section \<open>C strings and character classes\<close>

text \<open>
  A string value is a list of bytes. A \<^verbatim>\<open>char *\<close> read as a C string ends at the first NUL:
  \<open>cstr\<close> is what \<^verbatim>\<open>strlen\<close>, \<^verbatim>\<open>strdup\<close> and \<^verbatim>\<open>strcmp\<close> see of a buffer.
\<close>

definition cstr :: "string \<Rightarrow> string" where
  "cstr s = takeWhile (\<lambda>c. c \<noteq> CHR 0x00) s"

definition no_nul :: "string \<Rightarrow> bool" where
  "no_nul s = list_all (\<lambda>c. c \<noteq> CHR 0x00) s"

definition isspace :: "char \<Rightarrow> bool" where
  "isspace c = (c = CHR '' '' \<or> c = CHR 0x09 \<or> c = CHR 0x0A \<or> c = CHR 0x0B
                \<or> c = CHR 0x0C \<or> c = CHR 0x0D)"

definition isdigit :: "char \<Rightarrow> bool" where
  "isdigit c = (48 \<le> (of_char c :: nat) \<and> (of_char c :: nat) \<le> 57)"

text \<open>The C idiom \<^verbatim>\<open>while (isspace(*p)) p++\<close>.\<close>

definition skip_ws :: "string \<Rightarrow> string" where
  "skip_ws s = dropWhile isspace s"

lemma cstr_no_nul [simp]: "no_nul (cstr s)"
  by (auto simp: no_nul_def cstr_def list_all_iff dest: set_takeWhileD)

lemma cstr_id [simp]: "no_nul s \<Longrightarrow> cstr s = s"
  by (auto simp: no_nul_def cstr_def list_all_iff)

lemma no_nul_simps [simp]:
  "no_nul []"
  "no_nul (c # s) \<longleftrightarrow> c \<noteq> CHR 0x00 \<and> no_nul s"
  "no_nul (s @ t) \<longleftrightarrow> no_nul s \<and> no_nul t"
  by (auto simp: no_nul_def)

lemma length_skip_ws [simp]: "length (skip_ws s) \<le> length s"
  by (simp add: skip_ws_def length_dropWhile_le)

lemma skip_ws_simps [simp]:
  "skip_ws [] = []"
  "isspace c \<Longrightarrow> skip_ws (c # s) = skip_ws s"
  "\<not> isspace c \<Longrightarrow> skip_ws (c # s) = c # s"
  by (simp_all add: skip_ws_def)

lemma skip_ws_hd: "skip_ws s = c # t \<Longrightarrow> \<not> isspace c"
  by (auto simp: skip_ws_def dropWhile_eq_Cons_conv)

lemma skip_ws_append_spaces [simp]:
  "list_all isspace w \<Longrightarrow> skip_ws (w @ s) = skip_ws s"
  by (induction w) auto

lemma skip_ws_idem [simp]: "skip_ws (skip_ws s) = skip_ws s"
  by (simp add: skip_ws_def)

lemma isspace_nul [simp]: "\<not> isspace CHR 0x00"
  by (simp add: isspace_def)

text \<open>\<^verbatim>\<open>fgets\<close> with a buffer of \<open>n\<close> bytes: up to \<open>n - 1\<close> bytes, ending after a newline.\<close>

definition fgets_line :: "nat \<Rightarrow> string \<Rightarrow> string" where
  "fgets_line n s =
     (let l = takeWhile (\<lambda>c. c \<noteq> CHR 0x0A) s
      in take (n - 1) (if length l < length s then l @ [CHR 0x0A] else l))"

lemma fgets_progress: "s \<noteq> [] \<Longrightarrow> 1 < n \<Longrightarrow> fgets_line n s \<noteq> []"
  by (cases s) (auto simp: fgets_line_def Let_def)

section \<open>Lists\<close>

lemma length_concat_const:
  "list_all (\<lambda>x. length x = n) xs \<Longrightarrow> length (concat xs) = length xs * n"
  by (induction xs) auto

lemma concat_take_const:
  "list_all (\<lambda>x. length x = n) xs \<Longrightarrow> concat (take k xs) = take (k * n) (concat xs)"
proof (induction xs arbitrary: k)
  case (Cons x xs)
  then show ?case by (cases k) auto
qed simp

lemma list_split3:
  "i < length xs \<Longrightarrow> xs = take i xs @ [xs ! i] @ drop (Suc i) xs"
  by (simp add: id_take_nth_drop)

end
