(* ===== verification/Vector.thy ===== *)
theory Vector
  imports Prelude
begin

text \<open>
  The dynamic array of \<^verbatim>\<open>include/vector.c\<close> at the level of its bytes: the record
  \<open>vector\<close> is \<^verbatim>\<open>struct Vector\<close> with the block behind \<^verbatim>\<open>data\<close> inside it (a vector
  owns its block), every operation is the C function of the same name, \<^verbatim>\<open>memcpy\<close> and
  \<^verbatim>\<open>memmove\<close> are reads and writes of that block, and the functions the source prefixes
  with an underscore are called \<open>priv_vector_...\<close>. A pointer into the block is its offset.
  Arguments are non-null objects, so the null assertions hold; the other assertions, the
  \<^verbatim>\<open>malloc\<close> failures and the out-of-block accesses are branches. The build has no
  \<^verbatim>\<open>__STDC_LIB_EXT1__\<close> and no \<^verbatim>\<open>VECTOR_NO_SHRINK\<close>. The second half shows that a vector
  whose representation is well formed (\<open>vec_ok\<close>) behaves as the list of its elements.
\<close>

section \<open>The structure and its constants\<close>

record 'b vector =
  v_size :: nat
  v_capacity :: nat
  v_element_size :: nat
  v_data :: "'b block option"

definition VECTOR_MINIMUM_CAPACITY :: nat where "VECTOR_MINIMUM_CAPACITY = 2"
definition VECTOR_GROWTH_FACTOR :: nat where "VECTOR_GROWTH_FACTOR = 2"
definition VECTOR_SHRINK_THRESHOLD :: nat where "VECTOR_SHRINK_THRESHOLD = 1 div 4"
definition VECTOR_ERROR :: int where "VECTOR_ERROR = -1"
definition VECTOR_SUCCESS :: int where "VECTOR_SUCCESS = 0"

lemmas vector_consts =
  VECTOR_MINIMUM_CAPACITY_def VECTOR_GROWTH_FACTOR_def VECTOR_SHRINK_THRESHOLD_def
  VECTOR_ERROR_def VECTOR_SUCCESS_def

section \<open>Information\<close>

definition vector_is_initialized :: "'b vector \<Rightarrow> bool" where
  "vector_is_initialized v = (\<not> Option.is_none (v_data v))"

definition vector_byte_size :: "'b vector \<Rightarrow> nat" where
  "vector_byte_size v = size_mul (v_size v) (v_element_size v)"

definition vector_free_space :: "'b vector \<Rightarrow> nat" where
  "vector_free_space v = size_sub (v_capacity v) (v_size v)"

definition vector_is_empty :: "'b vector \<Rightarrow> bool" where
  "vector_is_empty v = (v_size v = 0)"

section \<open>Private helpers\<close>

definition priv_vector_should_grow :: "'b vector \<Rightarrow> bool outcome" where
  "priv_vector_should_grow v =
     c_assert (v_size v \<le> v_capacity v) (Ret (v_size v = v_capacity v))"

definition priv_vector_should_shrink :: "'b vector \<Rightarrow> bool outcome" where
  "priv_vector_should_shrink v =
     c_assert (v_size v \<le> v_capacity v)
       (Ret (v_size v = size_mul (v_capacity v) VECTOR_SHRINK_THRESHOLD))"

definition priv_vector_free_bytes :: "'b vector \<Rightarrow> nat" where
  "priv_vector_free_bytes v = size_mul (vector_free_space v) (v_element_size v)"

definition priv_vector_offset :: "'b vector \<Rightarrow> nat \<Rightarrow> nat" where
  "priv_vector_offset v index = size_mul index (v_element_size v)"

text \<open>\<^verbatim>\<open>memcpy\<close> of \<open>n\<close> bytes from the block \<open>src\<close> to the start of \<open>dst\<close>.\<close>

definition memcpy_blocks :: "'b block \<Rightarrow> 'b block option \<Rightarrow> nat \<Rightarrow> 'b block outcome" where
  "memcpy_blocks dst src n =
     obind (ub_unless src) (\<lambda>s.
     obind (ub_unless (block_read s 0 n)) (\<lambda>d.
     ub_unless (block_write dst 0 d)))"

definition priv_vector_assign :: "'b vector \<Rightarrow> nat \<Rightarrow> 'b block \<Rightarrow> 'b vector outcome" where
  "priv_vector_assign v index element =
     obind (ub_unless (v_data v)) (\<lambda>b.
     obind (ub_unless (block_read element 0 (v_element_size v))) (\<lambda>e.
     obind (ub_unless (block_write b (priv_vector_offset v index) e)) (\<lambda>b'.
     Ret (v\<lparr>v_data := Some b'\<rparr>))))"

definition priv_vector_move_right :: "'b vector \<Rightarrow> nat \<Rightarrow> (int \<times> 'b vector) outcome" where
  "priv_vector_move_right v index =
     c_assert (v_size v < v_capacity v)
       (let offset = priv_vector_offset v index;
            elements_in_bytes = size_mul (size_sub (v_size v) index) (v_element_size v)
        in obind (ub_unless (v_data v)) (\<lambda>b.
           obind (ub_unless (block_move b (offset + v_element_size v) offset elements_in_bytes))
             (\<lambda>b'. Ret (VECTOR_SUCCESS, v\<lparr>v_data := Some b'\<rparr>))))"

definition priv_vector_move_left :: "'b vector \<Rightarrow> nat \<Rightarrow> 'b vector outcome" where
  "priv_vector_move_left v index =
     (let offset = priv_vector_offset v index;
          right_elements_in_bytes =
            size_mul (size_sub (size_sub (v_size v) index) 1) (v_element_size v)
      in obind (ub_unless (v_data v)) (\<lambda>b.
         obind (ub_unless (block_move b offset (offset + v_element_size v) right_elements_in_bytes))
           (\<lambda>b'. Ret (v\<lparr>v_data := Some b'\<rparr>))))"

definition priv_vector_reallocate ::
    "(nat \<Rightarrow> bool) \<Rightarrow> 'b vector \<Rightarrow> nat \<Rightarrow> (int \<times> 'b vector) outcome" where
  "priv_vector_reallocate mok v requested =
     (if requested < VECTOR_MINIMUM_CAPACITY \<and> \<not> v_capacity v > VECTOR_MINIMUM_CAPACITY
      then Ret (VECTOR_SUCCESS, v)
      else
        let new_capacity = (if requested < VECTOR_MINIMUM_CAPACITY
                            then VECTOR_MINIMUM_CAPACITY else requested);
            new_capacity_in_bytes = size_mul new_capacity (v_element_size v);
            old = v_data v
        in case c_malloc mok new_capacity_in_bytes of
             None \<Rightarrow> Ret (VECTOR_ERROR, v\<lparr>v_data := None\<rparr>)
           | Some fresh \<Rightarrow>
               obind (memcpy_blocks fresh old (vector_byte_size v)) (\<lambda>b.
               Ret (VECTOR_SUCCESS, v\<lparr>v_data := Some b, v_capacity := new_capacity\<rparr>)))"

definition priv_vector_adjust_capacity ::
    "(nat \<Rightarrow> bool) \<Rightarrow> 'b vector \<Rightarrow> (int \<times> 'b vector) outcome" where
  "priv_vector_adjust_capacity mok v =
     priv_vector_reallocate mok v (max 1 (size_mul (v_size v) VECTOR_GROWTH_FACTOR))"

definition priv_vector_swap :: "nat \<Rightarrow> nat \<Rightarrow> nat \<times> nat" where
  "priv_vector_swap first second = (second, first)"

section \<open>Construction and destruction\<close>

definition vector_setup ::
    "(nat \<Rightarrow> bool) \<Rightarrow> nat \<Rightarrow> nat \<Rightarrow> int \<times> 'b vector" where
  "vector_setup mok capacity element_size =
     (let cap = max VECTOR_MINIMUM_CAPACITY capacity;
          d = c_malloc mok (size_mul cap element_size)
      in (if Option.is_none d then VECTOR_ERROR else VECTOR_SUCCESS,
          \<lparr>v_size = 0, v_capacity = cap, v_element_size = element_size, v_data = d\<rparr>))"

definition vector_destroy :: "'b vector \<Rightarrow> int \<times> 'b vector" where
  "vector_destroy v = (VECTOR_SUCCESS, v\<lparr>v_data := None\<rparr>)"

definition vector_copy ::
    "(nat \<Rightarrow> bool) \<Rightarrow> 'b vector \<Rightarrow> 'b vector \<Rightarrow> (int \<times> 'b vector) outcome" where
  "vector_copy mok destination source =
     c_assert (vector_is_initialized source)
     (c_assert (\<not> vector_is_initialized destination)
       (let cap = size_mul (v_size source) 2;
            d = destination\<lparr>v_size := v_size source, v_capacity := cap,
                            v_element_size := v_element_size source\<rparr>
        in case c_malloc mok (size_mul cap (v_element_size source)) of
             None \<Rightarrow> Ret (VECTOR_ERROR, d\<lparr>v_data := None\<rparr>)
           | Some fresh \<Rightarrow>
               obind (memcpy_blocks fresh (v_data source) (vector_byte_size source)) (\<lambda>b.
               Ret (VECTOR_SUCCESS, d\<lparr>v_data := Some b\<rparr>))))"

definition vector_copy_assign ::
    "(nat \<Rightarrow> bool) \<Rightarrow> 'b vector \<Rightarrow> 'b vector \<Rightarrow> (int \<times> 'b vector) outcome" where
  "vector_copy_assign mok destination source =
     c_assert (vector_is_initialized source)
     (c_assert (vector_is_initialized destination)
       (vector_copy mok (snd (vector_destroy destination)) source))"

definition vector_move :: "'b vector \<Rightarrow> 'b vector \<Rightarrow> int \<times> 'b vector \<times> 'b vector" where
  "vector_move destination source = (VECTOR_SUCCESS, source, source\<lparr>v_data := None\<rparr>)"

definition vector_swap ::
    "'b vector \<Rightarrow> 'b vector \<Rightarrow> (int \<times> 'b vector \<times> 'b vector) outcome" where
  "vector_swap destination source =
     c_assert (vector_is_initialized source)
     (c_assert (vector_is_initialized destination)
       (let (ds, ss) = priv_vector_swap (v_size destination) (v_size source);
            (dc, sc) = priv_vector_swap (v_capacity destination) (v_capacity source);
            (de, se) = priv_vector_swap (v_element_size destination) (v_element_size source);
            temp = v_data destination
        in Ret (VECTOR_SUCCESS,
             destination\<lparr>v_size := ds, v_capacity := dc, v_element_size := de,
                          v_data := v_data source\<rparr>,
             source\<lparr>v_size := ss, v_capacity := sc, v_element_size := se, v_data := temp\<rparr>)))"

definition vector_move_assign ::
    "'b vector \<Rightarrow> 'b vector \<Rightarrow> (int \<times> 'b vector \<times> 'b vector) outcome" where
  "vector_move_assign destination source =
     obind (vector_swap destination source) (\<lambda>(_, d, s).
     Ret (let (st, s') = vector_destroy s in (st, d, s')))"

section \<open>Insertion and assignment\<close>

definition vector_push_back ::
    "(nat \<Rightarrow> bool) \<Rightarrow> 'b vector \<Rightarrow> 'b block \<Rightarrow> (int \<times> 'b vector) outcome" where
  "vector_push_back mok v element =
     obind (priv_vector_should_grow v) (\<lambda>grow.
     obind (if grow then priv_vector_adjust_capacity mok v else Ret (VECTOR_SUCCESS, v))
       (\<lambda>(st, v1).
     if st = VECTOR_ERROR then Ret (VECTOR_ERROR, v1)
     else obind (priv_vector_assign v1 (v_size v1) element) (\<lambda>v2.
          Ret (VECTOR_SUCCESS, v2\<lparr>v_size := size_add (v_size v2) 1\<rparr>))))"

definition vector_insert ::
    "(nat \<Rightarrow> bool) \<Rightarrow> 'b vector \<Rightarrow> nat \<Rightarrow> 'b block \<Rightarrow> (int \<times> 'b vector) outcome" where
  "vector_insert mok v index element =
     c_assert (index \<le> v_size v)
     (if v_element_size v = 0 then Ret (VECTOR_ERROR, v)
      else if index > v_size v then Ret (VECTOR_ERROR, v)
      else
        obind (priv_vector_should_grow v) (\<lambda>grow.
        obind (if grow then priv_vector_adjust_capacity mok v else Ret (VECTOR_SUCCESS, v))
          (\<lambda>(st, v1).
        if st = VECTOR_ERROR then Ret (VECTOR_ERROR, v1)
        else obind (priv_vector_move_right v1 index) (\<lambda>(st2, v2).
          if st2 = VECTOR_ERROR then Ret (VECTOR_ERROR, v2)
          else obind (priv_vector_assign v2 index element) (\<lambda>v3.
               Ret (VECTOR_SUCCESS, v3\<lparr>v_size := size_add (v_size v3) 1\<rparr>))))))"

definition vector_push_front ::
    "(nat \<Rightarrow> bool) \<Rightarrow> 'b vector \<Rightarrow> 'b block \<Rightarrow> (int \<times> 'b vector) outcome" where
  "vector_push_front mok v element = vector_insert mok v 0 element"

definition vector_assign ::
    "'b vector \<Rightarrow> nat \<Rightarrow> 'b block \<Rightarrow> (int \<times> 'b vector) outcome" where
  "vector_assign v index element =
     c_assert (index < v_size v)
     (if v_element_size v = 0 then Ret (VECTOR_ERROR, v)
      else if index \<ge> v_size v then Ret (VECTOR_ERROR, v)
      else obind (priv_vector_assign v index element) (\<lambda>v'. Ret (VECTOR_SUCCESS, v')))"

section \<open>Deletion\<close>

definition vector_pop_back :: "(nat \<Rightarrow> bool) \<Rightarrow> 'b vector \<Rightarrow> (int \<times> 'b vector) outcome" where
  "vector_pop_back mok v =
     c_assert (v_size v > 0)
     (if v_element_size v = 0 then Ret (VECTOR_ERROR, v)
      else
        let v1 = v\<lparr>v_size := size_sub (v_size v) 1\<rparr>
        in obind (priv_vector_should_shrink v1) (\<lambda>shrink.
           if shrink
           then obind (priv_vector_adjust_capacity mok v1) (\<lambda>(_, v2). Ret (VECTOR_SUCCESS, v2))
           else Ret (VECTOR_SUCCESS, v1)))"

definition vector_erase ::
    "(nat \<Rightarrow> bool) \<Rightarrow> 'b vector \<Rightarrow> nat \<Rightarrow> (int \<times> 'b vector) outcome" where
  "vector_erase mok v index =
     c_assert (index < v_size v)
     (if v_element_size v = 0 then Ret (VECTOR_ERROR, v)
      else if index \<ge> v_size v then Ret (VECTOR_ERROR, v)
      else
        obind (priv_vector_move_left v index) (\<lambda>v1.
        let v2 = v1\<lparr>v_size := size_sub (v_size v1) 1\<rparr>
        in if v_size v2 = v_capacity v2 div 4
           then obind (priv_vector_adjust_capacity mok v2) (\<lambda>(_, v3). Ret (VECTOR_SUCCESS, v3))
           else Ret (VECTOR_SUCCESS, v2)))"

definition vector_pop_front :: "(nat \<Rightarrow> bool) \<Rightarrow> 'b vector \<Rightarrow> (int \<times> 'b vector) outcome" where
  "vector_pop_front mok v = vector_erase mok v 0"

section \<open>Lookup\<close>

definition vector_get :: "'b vector \<Rightarrow> nat \<Rightarrow> nat option outcome" where
  "vector_get v index =
     c_assert (index < v_size v)
     (if v_element_size v = 0 then Ret None
      else if index \<ge> v_size v then Ret None
      else Ret (Some (priv_vector_offset v index)))"

definition vector_const_get :: "'b vector \<Rightarrow> nat \<Rightarrow> nat option outcome" where
  "vector_const_get v index =
     c_assert (index < v_size v)
     (if v_element_size v = 0 then Ret None
      else if index \<ge> v_size v then Ret None
      else Ret (Some (size_mul index (v_element_size v))))"

definition vector_front :: "'b vector \<Rightarrow> nat option outcome" where
  "vector_front v = vector_get v 0"

definition vector_back :: "'b vector \<Rightarrow> nat option outcome" where
  "vector_back v = vector_get v (size_sub (v_size v) 1)"

text \<open>\<^verbatim>\<open>VECTOR_GET_AS\<close>: the bytes behind the pointer \<^verbatim>\<open>vector_get\<close> returns.\<close>

definition VECTOR_GET_AS :: "'b vector \<Rightarrow> nat \<Rightarrow> 'b block outcome" where
  "VECTOR_GET_AS v index =
     obind (vector_get v index) (\<lambda>p.
     obind (ub_unless p) (\<lambda>off.
     obind (ub_unless (v_data v)) (\<lambda>b.
     ub_unless (block_read b off (v_element_size v)))))"

section \<open>Memory management\<close>

definition vector_resize ::
    "(nat \<Rightarrow> bool) \<Rightarrow> 'b vector \<Rightarrow> nat \<Rightarrow> (int \<times> 'b vector) outcome" where
  "vector_resize mok v new_size =
     (if new_size \<le> size_mul (v_capacity v) VECTOR_SHRINK_THRESHOLD
      then obind (priv_vector_reallocate mok (v\<lparr>v_size := new_size\<rparr>)
                    (size_mul new_size VECTOR_GROWTH_FACTOR)) (\<lambda>(st, v1).
           if st = -1 then Ret (VECTOR_ERROR, v1)
           else Ret (VECTOR_SUCCESS, v1\<lparr>v_size := new_size\<rparr>))
      else if new_size > v_capacity v
      then obind (priv_vector_reallocate mok v (size_mul new_size VECTOR_GROWTH_FACTOR))
             (\<lambda>(st, v1).
           if st = -1 then Ret (VECTOR_ERROR, v1)
           else Ret (VECTOR_SUCCESS, v1\<lparr>v_size := new_size\<rparr>))
      else Ret (VECTOR_SUCCESS, v\<lparr>v_size := new_size\<rparr>))"

definition vector_clear :: "(nat \<Rightarrow> bool) \<Rightarrow> 'b vector \<Rightarrow> (int \<times> 'b vector) outcome" where
  "vector_clear mok v = vector_resize mok v 0"

definition vector_reserve ::
    "(nat \<Rightarrow> bool) \<Rightarrow> 'b vector \<Rightarrow> nat \<Rightarrow> (int \<times> 'b vector) outcome" where
  "vector_reserve mok v minimum_capacity =
     (if minimum_capacity > v_capacity v
      then obind (priv_vector_reallocate mok v minimum_capacity) (\<lambda>(st, v1).
           if st = VECTOR_ERROR then Ret (VECTOR_ERROR, v1) else Ret (VECTOR_SUCCESS, v1))
      else Ret (VECTOR_SUCCESS, v))"

definition vector_shrink_to_fit ::
    "(nat \<Rightarrow> bool) \<Rightarrow> 'b vector \<Rightarrow> (int \<times> 'b vector) outcome" where
  "vector_shrink_to_fit mok v = priv_vector_reallocate mok v (v_size v)"

section \<open>Iterators\<close>

record iterator =
  it_pointer :: "int option"
  it_element_size :: nat

definition vector_iterator :: "'b vector \<Rightarrow> nat \<Rightarrow> iterator outcome" where
  "vector_iterator v index =
     c_assert (index \<le> v_size v)
     (if index > v_size v then Ret \<lparr>it_pointer = None, it_element_size = 0\<rparr>
      else if v_element_size v = 0 then Ret \<lparr>it_pointer = None, it_element_size = 0\<rparr>
      else Ret \<lparr>it_pointer = Some (int (priv_vector_offset v index)),
                it_element_size = v_element_size v\<rparr>)"

definition vector_begin :: "'b vector \<Rightarrow> iterator outcome" where
  "vector_begin v = vector_iterator v 0"

definition vector_end :: "'b vector \<Rightarrow> iterator outcome" where
  "vector_end v = vector_iterator v (v_size v)"

definition iterator_get :: "iterator \<Rightarrow> int option" where
  "iterator_get it = it_pointer it"

definition iterator_increment :: "iterator \<Rightarrow> iterator" where
  "iterator_increment it =
     it\<lparr>it_pointer := map_option (\<lambda>p. p + int (it_element_size it)) (it_pointer it)\<rparr>"

definition iterator_decrement :: "iterator \<Rightarrow> iterator" where
  "iterator_decrement it =
     it\<lparr>it_pointer := map_option (\<lambda>p. p - int (it_element_size it)) (it_pointer it)\<rparr>"

definition iterator_next :: "iterator \<Rightarrow> int option \<times> iterator" where
  "iterator_next it = (it_pointer it, iterator_increment it)"

definition iterator_previous :: "iterator \<Rightarrow> int option \<times> iterator" where
  "iterator_previous it = (it_pointer it, iterator_decrement it)"

definition iterator_equals :: "iterator \<Rightarrow> iterator \<Rightarrow> bool outcome" where
  "iterator_equals first second =
     c_assert (it_element_size first = it_element_size second)
       (Ret (it_pointer first = it_pointer second))"

definition iterator_is_before :: "iterator \<Rightarrow> iterator \<Rightarrow> bool outcome" where
  "iterator_is_before first second =
     c_assert (it_element_size first = it_element_size second)
       (obind (ub_unless (it_pointer first)) (\<lambda>p.
        obind (ub_unless (it_pointer second)) (\<lambda>q. Ret (p < q))))"

definition iterator_is_after :: "iterator \<Rightarrow> iterator \<Rightarrow> bool outcome" where
  "iterator_is_after first second =
     c_assert (it_element_size first = it_element_size second)
       (obind (ub_unless (it_pointer first)) (\<lambda>p.
        obind (ub_unless (it_pointer second)) (\<lambda>q. Ret (p > q))))"

text \<open>
  The pointer difference is a signed value that the division by a \<^verbatim>\<open>size_t\<close> makes unsigned;
  a zero element size divides by zero.
\<close>

definition iterator_index :: "'b vector \<Rightarrow> iterator \<Rightarrow> nat outcome" where
  "iterator_index v it =
     obind (ub_unless (it_pointer it)) (\<lambda>p.
     if v_element_size v = 0 then UB
     else Ret (nat (p mod int size_mod) div v_element_size v))"

definition iterator_erase ::
    "(nat \<Rightarrow> bool) \<Rightarrow> 'b vector \<Rightarrow> iterator \<Rightarrow> (int \<times> 'b vector \<times> iterator) outcome" where
  "iterator_erase mok v it =
     obind (iterator_index v it) (\<lambda>index.
     obind (vector_erase mok v index) (\<lambda>(st, v1).
     if st = VECTOR_ERROR then Ret (VECTOR_ERROR, v1, it)
     else obind (vector_iterator v1 index) (\<lambda>it'. Ret (VECTOR_SUCCESS, v1, it'))))"

section \<open>The list behind a vector\<close>

definition chunks :: "nat \<Rightarrow> nat \<Rightarrow> 'b block \<Rightarrow> 'b block list" where
  "chunks n es b = map (\<lambda>i. take es (drop (i * es) b)) [0..<n]"

definition vector_elems :: "'b vector \<Rightarrow> 'b block list" where
  "vector_elems v =
     (case v_data v of None \<Rightarrow> [] | Some b \<Rightarrow> chunks (v_size v) (v_element_size v) b)"

text \<open>
  A well-formed vector: live data, a block of exactly \<^verbatim>\<open>capacity * element_size\<close> bytes, at
  most \<^verbatim>\<open>capacity\<close> elements, at least the minimum capacity, sizes within \<^verbatim>\<open>size_t\<close>.
\<close>

definition vec_ok :: "'b vector \<Rightarrow> bool" where
  "vec_ok v =
     (case v_data v of None \<Rightarrow> False
      | Some b \<Rightarrow> 0 < v_element_size v \<and> VECTOR_MINIMUM_CAPACITY \<le> v_capacity v
          \<and> v_size v \<le> v_capacity v \<and> length b = v_capacity v * v_element_size v
          \<and> v_capacity v * v_element_size v < size_mod)"

definition vec_rep :: "'b vector \<Rightarrow> nat \<Rightarrow> 'b block list \<Rightarrow> bool" where
  "vec_rep v es xs \<longleftrightarrow> vec_ok v \<and> v_element_size v = es \<and> vector_elems v = xs"

lemma chunks_length [simp]: "length (chunks n es b) = n"
  by (simp add: chunks_def)

lemma chunks_sizes: "n * es \<le> length b \<Longrightarrow> list_all (\<lambda>x. length x = es) (chunks n es b)"
proof (unfold chunks_def list_all_iff, intro ballI)
  fix x assume le: "n * es \<le> length b"
    and "x \<in> set (map (\<lambda>i. take es (drop (i * es) b)) [0..<n])"
  then obtain i where "i < n" and x: "x = take es (drop (i * es) b)" by auto
  then have "Suc i * es \<le> n * es" by (intro mult_le_mono1) simp
  with le have "es \<le> length b - i * es" by simp
  then show "length x = es" by (simp add: x min_def)
qed

lemma chunks_concat: "n * es \<le> length b \<Longrightarrow> concat (chunks n es b) = take (n * es) b"
proof (induction n)
  case (Suc n)
  then have "concat (chunks n es b) = take (n * es) b" by simp
  moreover have "chunks (Suc n) es b = chunks n es b @ [take es (drop (n * es) b)]"
    by (simp add: chunks_def)
  moreover have "take (Suc n * es) b = take (n * es) b @ take es (drop (n * es) b)"
    by (simp add: take_add [symmetric] add.commute)
  ultimately show ?case by simp
qed (simp add: chunks_def)

lemma chunks_of_concat:
  "list_all (\<lambda>x. length x = es) xs \<Longrightarrow> chunks (length xs) es (concat xs @ r) = xs"
proof (induction xs)
  case (Cons x xs)
  have "[0..<Suc (length xs)] = 0 # map Suc [0..<length xs]"
    by (metis map_Suc_upt upt_conv_Cons zero_less_Suc)
  with Cons show ?case by (simp add: chunks_def o_def)
qed (simp add: chunks_def)

text \<open>The two directions between a well-formed vector and its layout in memory.\<close>

lemma vec_repE:
  assumes "vec_rep v es xs"
  obtains r where "v_data v = Some (concat xs @ r)" "v_size v = length xs"
    "list_all (\<lambda>x. length x = es) xs" "v_element_size v = es"
    "0 < es" "2 \<le> v_capacity v" "length xs \<le> v_capacity v"
    "length xs * es + length r = v_capacity v * es" "v_capacity v * es < size_mod"
    "length (concat xs) = length xs * es"
proof -
  from assms obtain b where b: "v_data v = Some b" "v_element_size v = es"
      "xs = chunks (v_size v) es b" "0 < es" "2 \<le> v_capacity v" "v_size v \<le> v_capacity v"
      "length b = v_capacity v * es" "v_capacity v * es < size_mod"
    by (auto simp: vec_rep_def vec_ok_def vector_elems_def VECTOR_MINIMUM_CAPACITY_def
        split: option.splits)
  have le: "v_size v * es \<le> length b" using b by simp
  have "list_all (\<lambda>x. length x = es) xs" using chunks_sizes [OF le] b(3) by simp
  moreover have "concat xs @ drop (v_size v * es) b = b" using chunks_concat [OF le] b(3) by simp
  moreover have "length (concat xs) = length xs * es"
    using chunks_sizes [OF le] b(3) length_concat_const [of es xs] by simp
  moreover have "length xs = v_size v" using b(3) by simp
  ultimately show thesis
    by (intro that [of "drop (v_size v * es) b"]) (use b(1,2,4-8) le in auto)
qed

lemma vec_repI:
  assumes "v_data v = Some (concat xs @ r)" "v_size v = length xs"
    "list_all (\<lambda>x. length x = es) xs" "v_element_size v = es"
    "0 < es" "2 \<le> v_capacity v" "length xs \<le> v_capacity v"
    "length xs * es + length r = v_capacity v * es" "v_capacity v * es < size_mod"
  shows "vec_rep v es xs"
  using assms length_concat_const [of es xs] chunks_of_concat [of es xs r]
  by (simp add: vec_rep_def vec_ok_def vector_elems_def VECTOR_MINIMUM_CAPACITY_def)

lemma vec_rep_bounds:
  assumes rep: "vec_rep v es xs" and k: "k \<le> v_capacity v"
  shows "k * es < size_mod" and "k < size_mod"
proof -
  obtain r where r: "v_data v = Some (concat xs @ r)" "0 < es" "v_capacity v * es < size_mod"
    using rep by (rule vec_repE)
  have "k * es \<le> v_capacity v * es" using k by (rule mult_le_mono1)
  then show "k * es < size_mod" using r by linarith
  moreover have "k * 1 \<le> k * es" using r by (intro mult_le_mono2) simp
  ultimately show "k < size_mod" by linarith
qed

lemma vec_rep_elem: "vec_rep v es xs \<Longrightarrow> x \<in> set xs \<Longrightarrow> length x = es"
  by (erule vec_repE) (simp add: list_all_iff)

section \<open>Growing and shrinking keep the elements\<close>

text \<open>\<open>request_ok\<close>: the byte count of a new capacity fits \<^verbatim>\<open>size_t\<close> and can be allocated.\<close>

definition request_ok :: "(nat \<Rightarrow> bool) \<Rightarrow> nat \<Rightarrow> nat \<Rightarrow> bool" where
  "request_ok mok es cap \<longleftrightarrow> cap * es < size_mod \<and> mok (cap * es)"

lemma size_bytes:
  "vec_rep v es xs \<Longrightarrow> vector_byte_size v = length xs * es"
proof (erule vec_repE)
  fix r assume "v_size v = length xs" "v_element_size v = es"
    "length xs * es + length r = v_capacity v * es" "v_capacity v * es < size_mod"
  then show ?thesis by (simp add: vector_byte_size_def)
qed

lemma reallocate_rep:
  assumes rep: "vec_rep v es xs" and cap: "length xs \<le> n"
    and ok: "2 \<le> n \<Longrightarrow> request_ok mok es n" "n < 2 \<Longrightarrow> request_ok mok es 2"
  shows "\<exists>v'. priv_vector_reallocate mok v n = Ret (VECTOR_SUCCESS, v') \<and> vec_rep v' es xs
              \<and> v_size v' = v_size v \<and> v_capacity v' = (if n < 2 then 2 else n)"
proof -
  obtain r where r: "v_data v = Some (concat xs @ r)" "v_size v = length xs"
    "list_all (\<lambda>x. length x = es) xs" "v_element_size v = es" "0 < es" "2 \<le> v_capacity v"
    "length xs \<le> v_capacity v" "length (concat xs) = length xs * es"
    using rep by (rule vec_repE)
  show ?thesis
  proof (cases "n < 2 \<and> \<not> v_capacity v > 2")
    case True
    then show ?thesis using rep r
      by (simp add: priv_vector_reallocate_def VECTOR_MINIMUM_CAPACITY_def)
  next
    case False
    define m where "m = (if n < 2 then 2 else n)"
    have m: "2 \<le> m" "length xs \<le> m" "m * es < size_mod" "mok (m * es)"
      using ok cap by (auto simp: m_def request_ok_def)
    let ?b = "concat xs @ replicate (m * es - length xs * es) None"
    let ?v = "v\<lparr>v_data := Some ?b, v_capacity := m\<rparr>"
    have le: "length xs * es \<le> m * es" using m by simp
    have "priv_vector_reallocate mok v n = Ret (VECTOR_SUCCESS, ?v)"
      using False r m le
      by (auto simp: priv_vector_reallocate_def VECTOR_MINIMUM_CAPACITY_def c_malloc_def
          memcpy_blocks_def size_bytes [OF rep] block_read_def block_write_def m_def Let_def)
    moreover have "vec_rep ?v es xs"
      by (rule vec_repI [of _ _ "replicate (m * es - length xs * es) None"]) (use r m le in auto)
    ultimately show ?thesis using r by (simp add: m_def)
  qed
qed

lemma make_room_rep:
  assumes rep: "vec_rep v es xs"
    and ok: "v_size v = v_capacity v \<Longrightarrow> request_ok mok es (2 * v_size v)"
  shows "\<exists>v1. obind (priv_vector_should_grow v) (\<lambda>grow.
           if grow then priv_vector_adjust_capacity mok v else Ret (VECTOR_SUCCESS, v))
              = Ret (VECTOR_SUCCESS, v1)
            \<and> vec_rep v1 es xs \<and> length xs < v_capacity v1
            \<and> v_capacity v1 = (if v_size v = v_capacity v then 2 * v_capacity v else v_capacity v)"
proof -
  obtain r where r: "v_size v = length xs" "2 \<le> v_capacity v" "length xs \<le> v_capacity v" "0 < es"
    using rep by (rule vec_repE)
  show ?thesis
  proof (cases "v_size v = v_capacity v")
    case True
    have fits: "2 * length xs * es < size_mod"
      using ok [OF True] r by (simp add: request_ok_def mult.assoc)
    have arg: "max 1 (size_mul (v_size v) VECTOR_GROWTH_FACTOR) = 2 * length xs"
      using r True size_mul_double [OF fits] by (simp add: VECTOR_GROWTH_FACTOR_def)
    have two: "2 \<le> length xs" and "xs \<noteq> []" using r True by auto
    obtain v1 where "priv_vector_reallocate mok v (2 * length xs) = Ret (VECTOR_SUCCESS, v1)"
        "vec_rep v1 es xs" "v_capacity v1 = 2 * length xs"
      using reallocate_rep [OF rep, of "2 * length xs" mok] ok [OF True] r two \<open>xs \<noteq> []\<close> by auto
    moreover from this(1) have "priv_vector_adjust_capacity mok v = Ret (VECTOR_SUCCESS, v1)"
      by (simp only: priv_vector_adjust_capacity_def arg)
    ultimately show ?thesis
      using r two \<open>xs \<noteq> []\<close> True by (simp add: priv_vector_should_grow_def)
  next
    case False
    then show ?thesis using rep r by (auto simp: priv_vector_should_grow_def)
  qed
qed

section \<open>Insertion\<close>

lemma assign_at_end:
  assumes rep: "vec_rep v es xs" and room: "length xs < v_capacity v"
    and e: "length e = es"
  shows "\<exists>v'. priv_vector_assign v (v_size v) e = Ret v' \<and> v_size v' = v_size v
              \<and> vec_rep (v'\<lparr>v_size := size_add (v_size v') 1\<rparr>) es (xs @ [e])
              \<and> v_capacity v' = v_capacity v"
proof -
  obtain r where r: "v_data v = Some (concat xs @ r)" "v_size v = length xs"
    "list_all (\<lambda>x. length x = es) xs" "v_element_size v = es" "0 < es" "2 \<le> v_capacity v"
    "length xs * es + length r = v_capacity v * es" "v_capacity v * es < size_mod"
    "length (concat xs) = length xs * es"
    using rep by (rule vec_repE)
  have "Suc (length xs) * es \<le> v_capacity v * es" using room by (intro mult_le_mono1) simp
  then have es_r: "es \<le> length r" using r by simp
  note cap = vec_rep_bounds(2) [OF rep order_refl]
  have off: "priv_vector_offset v (v_size v) = length (concat xs)"
    using r es_r by (simp add: priv_vector_offset_def)
  have wr: "block_write (concat xs @ r) (length (concat xs)) e = Some (concat (xs @ [e]) @ drop es r)"
    using block_write_append [of "length (concat xs)" "concat xs" e "take es r" "drop es r"] e es_r
    by simp
  let ?v = "v\<lparr>v_data := Some (concat (xs @ [e]) @ drop es r)\<rparr>"
  have "priv_vector_assign v (v_size v) e = Ret ?v"
    using r e wr off by (simp add: priv_vector_assign_def block_read_def)
  moreover have "vec_rep (?v\<lparr>v_size := size_add (v_size ?v) 1\<rparr>) es (xs @ [e])"
    by (rule vec_repI [of _ _ "drop es r"]) (use r e es_r room cap in auto)
  ultimately show ?thesis by auto
qed

lemma push_back_appends:
  assumes rep: "vec_rep v es xs" and e: "length e = es"
    and ok: "v_size v = v_capacity v \<Longrightarrow> request_ok mok es (2 * v_size v)"
  shows "\<exists>v'. vector_push_back mok v e = Ret (VECTOR_SUCCESS, v') \<and> vec_rep v' es (xs @ [e])
              \<and> v_capacity v' = (if v_size v = v_capacity v then 2 * v_capacity v else v_capacity v)"
proof -
  obtain v1 where v1: "obind (priv_vector_should_grow v) (\<lambda>grow.
        if grow then priv_vector_adjust_capacity mok v else Ret (VECTOR_SUCCESS, v))
          = Ret (VECTOR_SUCCESS, v1)" "vec_rep v1 es xs" "length xs < v_capacity v1"
      "v_capacity v1 = (if v_size v = v_capacity v then 2 * v_capacity v else v_capacity v)"
    using make_room_rep [OF rep ok] by blast
  obtain v2 where "priv_vector_assign v1 (v_size v1) e = Ret v2" "v_size v2 = v_size v1"
      "vec_rep (v2\<lparr>v_size := size_add (v_size v2) 1\<rparr>) es (xs @ [e])"
      "v_capacity v2 = v_capacity v1"
    using assign_at_end [OF v1(2,3) e] by blast
  then show ?thesis using v1
    by (simp add: vector_push_back_def obind_assoc [symmetric] VECTOR_ERROR_def VECTOR_SUCCESS_def)
qed

lemma vector_get_as_rep:
  assumes rep: "vec_rep v es xs" and i: "i < length xs"
  shows "VECTOR_GET_AS v i = Ret (xs ! i)"
proof -
  obtain r where r: "v_data v = Some (concat xs @ r)" "v_size v = length xs"
    "list_all (\<lambda>x. length x = es) xs" "v_element_size v = es" "0 < es" "length xs \<le> v_capacity v"
    "v_capacity v * es < size_mod"
    using rep by (rule vec_repE)
  have "list_all (\<lambda>x. length x = es) (take i xs)"
    using r(3) by (auto simp: list_all_iff dest: in_set_takeD)
  from length_concat_const [OF this] have len: "length (concat (take i xs)) = i * es"
    using i by simp
  have off: "priv_vector_offset v i = i * es"
    using r i vec_rep_bounds [OF rep, of i] by (simp add: priv_vector_offset_def)
  have "concat xs = concat (take i xs @ [xs ! i] @ drop (Suc i) xs)"
    by (rule arg_cong [OF list_split3 [OF i]])
  then have xs: "concat xs = concat (take i xs) @ xs ! i @ concat (drop (Suc i) xs)" by simp
  then have "block_read (concat xs @ r) (i * es) es = Some (xs ! i)"
    using block_read_append [of "i * es" "concat (take i xs)" es "xs ! i" "concat (drop (Suc i) xs) @ r"]
      len r(3) i by (simp add: xs list_all_length)
  then show ?thesis using r i off by (simp add: VECTOR_GET_AS_def vector_get_def)
qed

lemma setup_rep:
  assumes "0 < es" and "request_ok mok es (max 2 n)"
  shows "\<exists>v. vector_setup mok n es = (VECTOR_SUCCESS, v) \<and> vec_rep v es []
             \<and> v_capacity v = max 2 n"
proof -
  have "vec_rep \<lparr>v_size = 0, v_capacity = max 2 n, v_element_size = es,
                 v_data = Some (replicate (max 2 n * es) None)\<rparr> es []"
    by (rule vec_repI [of _ _ "replicate (max 2 n * es) None"])
       (use assms in \<open>auto simp: request_ok_def\<close>)
  then show ?thesis using assms
    by (simp add: vector_setup_def request_ok_def c_malloc_def VECTOR_MINIMUM_CAPACITY_def Let_def)
qed


text \<open>The middle of a vector: the elements before, at and after an index, in memory.\<close>

lemma insert_layout:
  assumes rep: "vec_rep v es xs" and room: "length xs < v_capacity v"
    and i: "i \<le> length xs" and e: "length e = es"
  shows "\<exists>v1 v2. priv_vector_move_right v i = Ret (VECTOR_SUCCESS, v1)
            \<and> priv_vector_assign v1 i e = Ret v2 \<and> v_capacity v2 = v_capacity v
            \<and> vec_rep (v2\<lparr>v_size := size_add (v_size v2) 1\<rparr>) es (take i xs @ [e] @ drop i xs)"
proof -
  obtain r where r: "v_data v = Some (concat xs @ r)" "v_size v = length xs"
    "list_all (\<lambda>x. length x = es) xs" "v_element_size v = es" "0 < es" "2 \<le> v_capacity v"
    "length xs * es + length r = v_capacity v * es" "v_capacity v * es < size_mod"
    using rep by (rule vec_repE)
  define ys zs where "ys = take i xs" and "zs = drop i xs"
  have xs: "xs = ys @ zs" by (simp add: ys_def zs_def)
  have all: "list_all (\<lambda>x. length x = es) ys" "list_all (\<lambda>x. length x = es) zs"
    using r(3) by (simp_all add: xs)
  have ly: "length ys = i" using i by (simp add: ys_def)
  have lens: "length (concat ys) = i * es" "length (concat zs) = (length xs - i) * es"
    using length_concat_const [OF all(1)] length_concat_const [OF all(2)] ly by (simp_all add: xs)
  have "Suc (length xs) * es \<le> v_capacity v * es" using room by (intro mult_le_mono1) simp
  then have es_r: "es \<le> length r" using r by simp
  have off: "priv_vector_offset v i = i * es"
    and bytes: "size_mul (size_sub (v_size v) i) (v_element_size v) = (length xs - i) * es"
    using r i room vec_rep_bounds [OF rep, of i] vec_rep_bounds [OF rep, of "length xs"]
      vec_rep_bounds [OF rep, of "length xs - i"] by (simp_all add: priv_vector_offset_def)
  let ?w = "concat zs @ take es r"
  let ?b1 = "concat ys @ take es ?w @ concat zs @ drop es r"
  have split: "concat xs @ r = concat ys @ ?w @ drop es r" by (simp add: xs)
  have rd: "block_read (concat xs @ r) (i * es) ((length xs - i) * es) = Some (concat zs)"
    using block_read_append [of "i * es" "concat ys" _ "concat zs" r] lens by (simp add: xs)
  have "block_write ((concat ys @ take es ?w) @ drop es ?w @ drop es r) (i * es + es) (concat zs)
          = Some ((concat ys @ take es ?w) @ concat zs @ drop es r)"
    by (rule block_write_append) (use lens es_r in auto)
  moreover have "(concat ys @ take es ?w) @ drop es ?w @ drop es r = concat xs @ r"
    unfolding split by (metis append.assoc append_take_drop_id)
  ultimately have wr: "block_write (concat xs @ r) (i * es + es) (concat zs) = Some ?b1" by simp
  let ?v1 = "v\<lparr>v_data := Some ?b1\<rparr>"
  have mv: "priv_vector_move_right v i = Ret (VECTOR_SUCCESS, ?v1)"
    using r room off bytes rd wr by (simp add: priv_vector_move_right_def block_move_def Let_def)
  let ?v2 = "v\<lparr>v_data := Some (concat (ys @ [e] @ zs) @ drop es r)\<rparr>"
  have "block_write ?b1 (i * es) e = Some (concat ys @ e @ concat zs @ drop es r)"
    by (rule block_write_append) (use lens es_r e in auto)
  then have "priv_vector_assign ?v1 i e = Ret ?v2"
    using r e off by (simp add: priv_vector_assign_def block_read_def priv_vector_offset_def)
  moreover have "vec_rep (?v2\<lparr>v_size := size_add (v_size ?v2) 1\<rparr>) es (ys @ [e] @ zs)"
    by (rule vec_repI [of _ _ "drop es r"])
       (use r e es_r room all vec_rep_bounds [OF rep, of "Suc (length xs)"] in \<open>auto simp: xs\<close>)
  ultimately show ?thesis using mv by (force simp: ys_def zs_def)
qed

lemma insert_inserts:
  assumes rep: "vec_rep v es xs" and e: "length e = es" and i: "i \<le> length xs"
    and ok: "v_size v = v_capacity v \<Longrightarrow> request_ok mok es (2 * v_size v)"
  shows "\<exists>v'. vector_insert mok v i e = Ret (VECTOR_SUCCESS, v')
              \<and> vec_rep v' es (take i xs @ [e] @ drop i xs)"
proof -
  obtain v1 where v1: "obind (priv_vector_should_grow v) (\<lambda>grow.
        if grow then priv_vector_adjust_capacity mok v else Ret (VECTOR_SUCCESS, v))
          = Ret (VECTOR_SUCCESS, v1)" "vec_rep v1 es xs" "length xs < v_capacity v1"
    using make_room_rep [OF rep ok] by blast
  obtain v2 v3 where "priv_vector_move_right v1 i = Ret (VECTOR_SUCCESS, v2)"
      "priv_vector_assign v2 i e = Ret v3"
      "vec_rep (v3\<lparr>v_size := size_add (v_size v3) 1\<rparr>) es (take i xs @ [e] @ drop i xs)"
    using insert_layout [OF v1(2,3) i e] by blast
  moreover have "v_size v = length xs" "v_element_size v \<noteq> 0" using rep by (auto elim: vec_repE)
  ultimately show ?thesis using v1(1) i
    by (simp add: vector_insert_def obind_assoc [symmetric] VECTOR_ERROR_def VECTOR_SUCCESS_def)
qed

section \<open>Deletion\<close>

lemma erase_layout:
  assumes rep: "vec_rep v es xs" and i: "i < length xs"
  shows "\<exists>v1. priv_vector_move_left v i = Ret v1 \<and> v_capacity v1 = v_capacity v
            \<and> v_size v1 = v_size v
            \<and> vec_rep (v1\<lparr>v_size := size_sub (v_size v1) 1\<rparr>) es (take i xs @ drop (Suc i) xs)"
proof -
  obtain r where r: "v_data v = Some (concat xs @ r)" "v_size v = length xs"
    "list_all (\<lambda>x. length x = es) xs" "v_element_size v = es" "0 < es" "2 \<le> v_capacity v"
    "length xs \<le> v_capacity v"
    "length xs * es + length r = v_capacity v * es" "v_capacity v * es < size_mod"
    using rep by (rule vec_repE)
  define ys x zs where "ys = take i xs" and "x = xs ! i" and "zs = drop (Suc i) xs"
  have xs: "xs = ys @ [x] @ zs"
    unfolding ys_def x_def zs_def by (rule list_split3 [OF i])
  have ly: "length ys = i" using i by (simp add: ys_def)
  have all: "list_all (\<lambda>x. length x = es) ys" "list_all (\<lambda>x. length x = es) zs" "length x = es"
    using r(3) by (simp_all add: xs)
  have lx: "length xs = i + 1 + length zs" using ly by (simp add: xs)
  have lens: "length (concat ys) = i * es" "length (concat zs) = length zs * es"
    using length_concat_const [OF all(1)] length_concat_const [OF all(2)] ly by simp_all
  have off: "priv_vector_offset v i = i * es"
    and bytes: "size_mul (size_sub (size_sub (v_size v) i) 1) (v_element_size v) = length zs * es"
    using r lx vec_rep_bounds [OF rep, of i] vec_rep_bounds [OF rep, of "length xs"]
      vec_rep_bounds [OF rep, of "length zs"] vec_rep_bounds [OF rep, of "Suc (length zs)"]
    by (simp_all add: priv_vector_offset_def)
  let ?w = "x @ concat zs"
  let ?b = "concat ys @ concat zs @ drop (length zs * es) ?w @ r"
  have eq: "concat xs @ r = concat ys @ ?w @ r" by (simp add: xs)
  have rd: "block_read (concat xs @ r) (i * es + es) (length zs * es) = Some (concat zs)"
    using block_read_append [of "i * es + es" "concat ys @ x" _ "concat zs" r] lens all
    by (simp add: eq)
  have "block_write (concat ys @ take (length zs * es) ?w @ drop (length zs * es) ?w @ r)
          (i * es) (concat zs) = Some ?b"
    by (rule block_write_append) (use lens in auto)
  moreover have "concat ys @ take (length zs * es) ?w @ drop (length zs * es) ?w @ r = concat xs @ r"
    unfolding eq by (metis append.assoc append_take_drop_id)
  ultimately have wr: "block_write (concat xs @ r) (i * es) (concat zs) = Some ?b"
    by (simp only:)
  have mv: "priv_vector_move_left v i = Ret (v\<lparr>v_data := Some ?b\<rparr>)"
    using r off bytes rd wr by (simp add: priv_vector_move_left_def block_move_def Let_def)
  have "vec_rep (v\<lparr>v_data := Some ?b, v_size := size_sub (v_size v) 1\<rparr>) es (ys @ zs)"
    by (rule vec_repI [of _ _ "drop (length zs * es) ?w @ r"])
       (use r all lens lx ly vec_rep_bounds [OF rep, of "length xs"] in \<open>auto simp: algebra_simps\<close>)
  then show ?thesis using mv by (simp add: ys_def zs_def)
qed


lemma erase_removes:
  assumes rep: "vec_rep v es xs" and i: "i < length xs"
    and ok: "\<And>n. n \<le> v_capacity v \<Longrightarrow> mok (n * es)"
  shows "\<exists>v'. vector_erase mok v i = Ret (VECTOR_SUCCESS, v')
              \<and> vec_rep v' es (take i xs @ drop (Suc i) xs)"
proof -
  let ?ys = "take i xs @ drop (Suc i) xs"
  obtain v1 where v1: "priv_vector_move_left v i = Ret v1" "v_capacity v1 = v_capacity v"
      "vec_rep (v1\<lparr>v_size := size_sub (v_size v1) 1\<rparr>) es ?ys"
    using erase_layout [OF rep i] by blast
  let ?v2 = "v1\<lparr>v_size := size_sub (v_size v1) 1\<rparr>"
  have v: "v_size v = length xs" "v_element_size v = es" "0 < es" "2 \<le> v_capacity v"
    using rep by (auto elim: vec_repE)
  show ?thesis
  proof (cases "v_size ?v2 = v_capacity ?v2 div 4")
    case False
    then show ?thesis using v1 v i by (auto simp: vector_erase_def Let_def)
  next
    case True
    let ?n = "max 1 (size_mul (v_size ?v2) VECTOR_GROWTH_FACTOR)"
    have sz: "v_size ?v2 = length ?ys" using v1(3) by (auto elim: vec_repE)
    have small: "2 * length ?ys \<le> v_capacity v" using True sz v1(2) by simp
    have "size_mul (v_size ?v2) VECTOR_GROWTH_FACTOR = 2 * length ?ys"
      using vec_rep_bounds(2) [OF rep small] sz by (simp add: VECTOR_GROWTH_FACTOR_def)
    then have n: "?n = max 1 (2 * length ?ys)" by simp
    have req: "request_ok mok es k" if "k \<le> v_capacity v" for k
      using ok [OF that] vec_rep_bounds(1) [OF rep that] by (simp add: request_ok_def)
    have "length ?ys \<le> ?n" "?n \<le> v_capacity v" unfolding n using small v by auto
    then obtain v3 where "priv_vector_reallocate mok ?v2 ?n = Ret (VECTOR_SUCCESS, v3)"
        "vec_rep v3 es ?ys"
      using reallocate_rep [OF v1(3), of ?n mok] req v by blast
    then show ?thesis using v1(1) True v i
      by (auto simp: vector_erase_def priv_vector_adjust_capacity_def Let_def)
  qed
qed

text \<open>
  \<^verbatim>\<open>VECTOR_SHRINK_THRESHOLD\<close> is the integer expression \<^verbatim>\<open>(1 / 4)\<close>, that is 0: the shrink
  test compares the size with 0, not with a quarter of the capacity.
\<close>

lemma should_shrink_only_empty:
  "priv_vector_should_shrink v
     = c_assert (v_size v \<le> v_capacity v) (Ret (v_size v = 0))"
  by (simp add: priv_vector_should_shrink_def VECTOR_SHRINK_THRESHOLD_def size_mul_def)

lemma pop_back_drops_last:
  assumes rep: "vec_rep v es xs" and ne: "xs \<noteq> []" and ok: "mok (2 * es)"
  shows "\<exists>v'. vector_pop_back mok v = Ret (VECTOR_SUCCESS, v') \<and> vec_rep v' es (butlast xs)
              \<and> v_capacity v' = (if length xs = 1 then 2 else v_capacity v)"
proof -
  obtain r where r: "v_data v = Some (concat xs @ r)" "v_size v = length xs"
    "list_all (\<lambda>x. length x = es) xs" "v_element_size v = es" "0 < es" "2 \<le> v_capacity v"
    "length xs \<le> v_capacity v"
    "length xs * es + length r = v_capacity v * es" "v_capacity v * es < size_mod"
    using rep by (rule vec_repE)
  let ?v1 = "v\<lparr>v_size := size_sub (v_size v) 1\<rparr>"
  have pos: "0 < length xs" using ne by simp
  have sz: "v_size ?v1 = length xs - 1"
    using r pos vec_rep_bounds(2) [OF rep, of "length xs"]
    by simp
  have split: "concat xs @ r = concat (butlast xs) @ last xs @ r"
    using ne by (metis append.assoc append_butlast_last_id concat.simps concat_append append_Nil2)
  have lens: "length (last xs) = es" "list_all (\<lambda>x. length x = es) (butlast xs)"
    using r(3) ne by (auto simp: list_all_iff dest: in_set_butlastD)
  have "length xs * es = es + (length xs - 1) * es" using pos by (cases xs) auto
  then have rep1: "vec_rep ?v1 es (butlast xs)"
    by (intro vec_repI [of _ _ "last xs @ r"]) (use r split lens sz in auto)
  show ?thesis
  proof (cases "length xs = 1")
    case True
    then have e: "butlast xs = []" by (cases xs) auto
    have "request_ok mok es 2"
      using ok vec_rep_bounds(1) [OF rep, of 2] r by (simp add: request_ok_def)
    then obtain v2 where "priv_vector_reallocate mok ?v1 1 = Ret (VECTOR_SUCCESS, v2)"
        "vec_rep v2 es []" "v_capacity v2 = 2"
      using reallocate_rep [OF rep1, of 1 mok] e by auto
    then show ?thesis using r sz True e pos
      by (simp add: vector_pop_back_def should_shrink_only_empty priv_vector_adjust_capacity_def
          size_mul_def Let_def)
  next
    case False
    with pos obtain k where "length xs = Suc (Suc k)" by (metis Suc_pred One_nat_def neq0_conv)
    then show ?thesis using r sz rep1
      by (simp add: vector_pop_back_def should_shrink_only_empty Let_def)
  qed
qed


section \<open>Copies and failures\<close>

lemma copy_copies:
  assumes rep: "vec_rep s es xs" and ne: "xs \<noteq> []" and un: "\<not> vector_is_initialized d"
    and ok: "request_ok mok es (2 * length xs)"
  shows "\<exists>d'. vector_copy mok d s = Ret (VECTOR_SUCCESS, d') \<and> vec_rep d' es xs"
proof -
  obtain r where r: "v_data s = Some (concat xs @ r)" "v_size s = length xs"
    "list_all (\<lambda>x. length x = es) xs" "v_element_size s = es" "0 < es" "length xs \<le> v_capacity s"
    "length xs * es + length r = v_capacity s * es" "length (concat xs) = length xs * es"
    using rep by (rule vec_repE)
  have fits: "2 * length xs * es < size_mod" "mok (2 * length xs * es)"
    using ok by (simp_all add: request_ok_def)
  have cap: "size_mul (length xs) 2 = 2 * length xs" using size_mul_double fits r by blast
  let ?r = "replicate (length xs * es) None"
  let ?d = "d\<lparr>v_size := length xs, v_capacity := 2 * length xs, v_element_size := es,
             v_data := Some (concat xs @ ?r)\<rparr>"
  have cp: "memcpy_blocks (replicate (2 * length xs * es) None) (v_data s) (vector_byte_size s)
              = Ret (concat xs @ ?r)"
    using r by (simp add: memcpy_blocks_def size_bytes [OF rep] block_read_def block_write_def)
  have "vector_copy mok d s = Ret (VECTOR_SUCCESS, ?d)"
    using r un fits cap cp
    by (simp add: vector_copy_def vector_is_initialized_def c_malloc_def Let_def)
  moreover have "2 \<le> 2 * length xs" using ne by (cases xs) auto
  then have "vec_rep ?d es xs"
    by (intro vec_repI [of _ _ ?r]) (use r fits in auto)
  ultimately show ?thesis by blast
qed

text \<open>
  \<^verbatim>\<open>vector_copy\<close> gives the copy \<^verbatim>\<open>2 * size\<close> slots, none for an empty source, and
  \<^verbatim>\<open>_vector_reallocate\<close> does nothing for a request below the minimum on a vector that is
  not above it: the next \<^verbatim>\<open>vector_push_back\<close> writes past the block.
\<close>

lemma copy_empty_result:
  assumes rep: "vec_rep s es []" and un: "\<not> vector_is_initialized d"
    and cp: "vector_copy mok d s = Ret (VECTOR_SUCCESS, d')"
  shows "d' = d\<lparr>v_size := 0, v_capacity := 0, v_element_size := es, v_data := Some []\<rparr>"
proof -
  obtain r where r: "v_data s = Some r" "v_size s = 0" "v_element_size s = es" "0 < es"
    using rep by (auto elim: vec_repE)
  have "mok 0"
    using cp un r
    by (auto simp: vector_copy_def vector_is_initialized_def c_malloc_def size_mul_def
        VECTOR_SUCCESS_def VECTOR_ERROR_def Let_def split: if_splits)
  then show ?thesis
    using cp un r
    by (auto simp: vector_copy_def vector_is_initialized_def c_malloc_def size_mul_def
        memcpy_blocks_def vector_byte_size_def block_read_def block_write_def Let_def)
qed

lemma push_back_on_empty_copy:
  assumes rep: "vec_rep s es []" and un: "\<not> vector_is_initialized d"
    and cp: "vector_copy mok d s = Ret (VECTOR_SUCCESS, d')" and e: "length e = es"
  shows "vector_push_back mok d' e = UB"
proof -
  have "0 < es" using rep by (rule vec_repE)
  then show ?thesis using copy_empty_result [OF rep un cp] e
    by (simp add: vector_push_back_def priv_vector_should_grow_def priv_vector_adjust_capacity_def
        priv_vector_reallocate_def priv_vector_assign_def priv_vector_offset_def
        block_read_def block_write_def size_mul_def vector_consts)
qed

text \<open>A failed growth loses the block: \<^verbatim>\<open>data\<close> is overwritten before the result is tested.\<close>

lemma push_back_out_of_memory:
  assumes rep: "vec_rep v es xs" and full: "v_size v = v_capacity v"
    and fits: "2 * v_size v * es < size_mod" and oom: "\<not> mok (2 * v_size v * es)"
  shows "vector_push_back mok v e = Ret (VECTOR_ERROR, v\<lparr>v_data := None\<rparr>)"
proof -
  obtain r where r: "v_size v = length xs" "v_element_size v = es" "0 < es" "2 \<le> v_capacity v"
    using rep by (auto elim: vec_repE)
  have arg: "max 1 (size_mul (v_size v) VECTOR_GROWTH_FACTOR) = 2 * v_size v"
    using size_mul_double [OF fits] full r by (simp add: VECTOR_GROWTH_FACTOR_def)
  have "priv_vector_adjust_capacity mok v = Ret (VECTOR_ERROR, v\<lparr>v_data := None\<rparr>)"
    unfolding priv_vector_adjust_capacity_def arg using fits oom full r
    by (simp add: priv_vector_reallocate_def VECTOR_MINIMUM_CAPACITY_def c_malloc_def Let_def)
  then show ?thesis using full
    by (simp add: vector_push_back_def priv_vector_should_grow_def)
qed

lemma resize_grows:
  assumes rep: "vec_rep v es xs" and n: "v_capacity v < n"
    and ok: "request_ok mok es (2 * n)"
  shows "\<exists>v' ys. vector_resize mok v n = Ret (VECTOR_SUCCESS, v') \<and> vec_rep v' es (xs @ ys)
              \<and> length (xs @ ys) = n"
proof -
  obtain r where r: "v_size v = length xs" "v_element_size v = es" "0 < es" "2 \<le> v_capacity v"
      "length xs \<le> v_capacity v"
    using rep by (auto elim: vec_repE)
  have fits: "2 * n * es < size_mod" using ok by (simp add: request_ok_def mult.assoc)
  have arg: "size_mul n VECTOR_GROWTH_FACTOR = 2 * n"
    using size_mul_double [OF fits] r by (simp add: VECTOR_GROWTH_FACTOR_def)
  obtain v1 where v1: "priv_vector_reallocate mok v (2 * n) = Ret (VECTOR_SUCCESS, v1)"
      "vec_rep v1 es xs" "v_capacity v1 = 2 * n"
    using reallocate_rep [OF rep, of "2 * n" mok] ok n r by auto
  obtain q where q: "v_data v1 = Some (concat xs @ q)" "v_size v1 = length xs"
    "list_all (\<lambda>x. length x = es) xs" "v_element_size v1 = es"
    "length xs * es + length q = v_capacity v1 * es" "v_capacity v1 * es < size_mod"
    using v1(2) by (rule vec_repE)
  define ys where "ys = chunks (n - length xs) es q"
  have "length xs * es + (n - length xs) * es = n * es"
    using n r by (metis add_mult_distrib le_add_diff_inverse less_imp_le_nat order_trans)
  then have le: "(n - length xs) * es \<le> length q" using q v1(3) by simp
  have ys: "list_all (\<lambda>x. length x = es) ys" "q = concat ys @ drop ((n - length xs) * es) q"
    using chunks_sizes [OF le] chunks_concat [OF le] by (simp_all add: ys_def)
  have len: "length (xs @ ys) = n" "2 \<le> n" using n r by (simp_all add: ys_def)
  have "vec_rep (v1\<lparr>v_size := n\<rparr>) es (xs @ ys)"
    by (rule vec_repI [of _ _ "drop ((n - length xs) * es) q"])
       (use q ys le len v1(3) r \<open>length xs * es + _ = n * es\<close> in \<open>auto simp: algebra_simps\<close>)
  moreover have "vector_resize mok v n = Ret (VECTOR_SUCCESS, v1\<lparr>v_size := n\<rparr>)"
    using n v1(1) arg r
    by (simp add: vector_resize_def VECTOR_SHRINK_THRESHOLD_def VECTOR_SUCCESS_def size_mul_def [of _ 0])
  ultimately show ?thesis using len by blast
qed

section \<open>The contract clients rely on\<close>

text \<open>
  A growable store of elements: appending and reading by index, up to \<open>cap\<close> elements.
\<close>

fun push_each :: "('s \<Rightarrow> 'x \<Rightarrow> (int \<times> 's) outcome) \<Rightarrow> 's \<Rightarrow> 'x list \<Rightarrow> (int \<times> 's) outcome" where
  "push_each push s [] = Ret (0, s)"
| "push_each push s (x # xs) =
     obind (push s x) (\<lambda>(st, s'). if st = -1 then Ret (-1, s') else push_each push s' xs)"

locale list_store =
  fixes rep :: "'s \<Rightarrow> 'x list \<Rightarrow> bool"
    and push :: "'s \<Rightarrow> 'x \<Rightarrow> (int \<times> 's) outcome"
    and get :: "'s \<Rightarrow> nat \<Rightarrow> 'x outcome"
    and count :: "'s \<Rightarrow> nat"
    and elem :: "'x \<Rightarrow> bool"
    and cap :: nat
  assumes push_rep: "rep s xs \<Longrightarrow> elem x \<Longrightarrow> length xs < cap \<Longrightarrow>
      \<exists>s'. push s x = Ret (0, s') \<and> rep s' (xs @ [x])"
    and get_rep: "rep s xs \<Longrightarrow> i < length xs \<Longrightarrow> get s i = Ret (xs ! i)"
    and count_rep: "rep s xs \<Longrightarrow> count s = length xs"
begin

lemma push_each_rep:
  assumes "rep s xs" and "list_all elem ys" and "length xs + length ys \<le> cap"
  shows "\<exists>s'. push_each push s ys = Ret (0, s') \<and> rep s' (xs @ ys)"
  using assms
proof (induction ys arbitrary: s xs)
  case (Cons y ys)
  then obtain s1 where s1: "push s y = Ret (0, s1)" "rep s1 (xs @ [y])"
    using push_rep [of s xs y] by auto
  obtain s2 where "push_each push s1 ys = Ret (0, s2)" "rep s2 ((xs @ [y]) @ ys)"
    using Cons.IH [OF s1(2)] Cons.prems by auto
  then show ?case using s1 by simp
qed simp

lemma read_all: "rep s xs \<Longrightarrow> omap (get s) [0..<count s] = Ret xs"
  using omap_all_Ret [of "[0..<length xs]" "get s" "nth xs"]
  by (simp add: count_rep get_rep map_nth)

end

definition vec_store ::
    "(nat \<Rightarrow> bool) \<Rightarrow> nat \<Rightarrow> nat \<Rightarrow> 'b vector \<Rightarrow> 'b block list \<Rightarrow> bool" where
  "vec_store mok es cap v xs \<longleftrightarrow>
     vec_rep v es xs \<and> (\<forall>n \<le> 2 * cap. request_ok mok es n)"

interpretation vec: list_store
  "vec_store mok es cap" "vector_push_back mok" VECTOR_GET_AS v_size "\<lambda>e. length e = es" cap
  for mok es cap
proof (unfold_locales, goal_cases)
  case (1 s xs x)
  then have "vec_rep s es xs" "v_size s = length xs"
    by (auto simp: vec_store_def elim: vec_repE)
  then show ?case
    using push_back_appends [of s es xs x mok] 1 by (auto simp: vec_store_def VECTOR_SUCCESS_def)
next
  case (2 s xs i)
  then show ?case by (auto simp: vec_store_def intro: vector_get_as_rep)
next
  case (3 s xs)
  then show ?case by (auto simp: vec_store_def elim: vec_repE)
qed

section \<open>Properties\<close>

text \<open>
  C32. On a well-formed vector the operations are the list operations on its elements, byte
  for byte: append, insert, erase, read, and drop the last, growing or shrinking the block
  as needed, when requests of up to twice the capacity can be served.
\<close>

theorem vector_refines_list:
  assumes rep: "vec_rep v es xs" and e: "length e = es" and i: "i < length xs"
    and mem: "\<forall>n \<le> 2 * v_capacity v. request_ok mok es n"
  shows "(\<exists>v'. vector_push_back mok v e = Ret (VECTOR_SUCCESS, v') \<and> vec_rep v' es (xs @ [e]))
       \<and> (\<exists>v'. vector_insert mok v i e = Ret (VECTOR_SUCCESS, v')
              \<and> vec_rep v' es (take i xs @ [e] @ drop i xs))
       \<and> (\<exists>v'. vector_erase mok v i = Ret (VECTOR_SUCCESS, v')
              \<and> vec_rep v' es (take i xs @ drop (Suc i) xs))
       \<and> (\<exists>v'. vector_pop_back mok v = Ret (VECTOR_SUCCESS, v') \<and> vec_rep v' es (butlast xs))
       \<and> VECTOR_GET_AS v i = Ret (xs ! i)"
proof (intro conjI)
  have size: "v_size v \<le> v_capacity v" "2 \<le> v_capacity v" using rep by (auto elim: vec_repE)
  have req: "request_ok mok es (2 * v_size v)" using mem size by simp
  have ok: "mok (n * es)" if "n \<le> v_capacity v" for n
    using mem that by (simp add: request_ok_def)
  show "\<exists>v'. vector_push_back mok v e = Ret (VECTOR_SUCCESS, v') \<and> vec_rep v' es (xs @ [e])"
    using push_back_appends [OF rep e req] by blast
  show "\<exists>v'. vector_insert mok v i e = Ret (VECTOR_SUCCESS, v')
          \<and> vec_rep v' es (take i xs @ [e] @ drop i xs)"
    using insert_inserts [OF rep e _ req] i by simp
  show "\<exists>v'. vector_erase mok v i = Ret (VECTOR_SUCCESS, v')
          \<and> vec_rep v' es (take i xs @ drop (Suc i) xs)"
    using erase_removes [of v es xs i mok] rep i ok by blast
  show "\<exists>v'. vector_pop_back mok v = Ret (VECTOR_SUCCESS, v') \<and> vec_rep v' es (butlast xs)"
    using pop_back_drops_last [of v es xs mok] rep i ok [OF size(2)] by fastforce
  show "VECTOR_GET_AS v i = Ret (xs ! i)" using rep i by (rule vector_get_as_rep)
qed

definition two_bytes :: "nat vector" where
  "two_bytes = \<lparr>v_size = 2, v_capacity = 2, v_element_size = 1, v_data = Some [Some 7, Some 9]\<rparr>"

lemma two_bytes_sel: "v_size two_bytes = 2" "v_capacity two_bytes = 2"
  by (simp_all add: two_bytes_def)

lemma two_bytes_rep: "vec_rep two_bytes 1 [[Some 7], [Some 9]]"
  by (simp add: two_bytes_def vec_rep_def vec_ok_def vector_elems_def chunks_def upt_rec
      VECTOR_MINIMUM_CAPACITY_def size_mod_def)

theorem vector_refines_list_witness:
  "\<exists>v'. vector_insert (\<lambda>_. True) two_bytes 1 [Some 8] = Ret (VECTOR_SUCCESS, v')
     \<and> vec_rep v' 1 [[Some 7], [Some 8], [Some 9]]"
  using vector_refines_list [OF two_bytes_rep, of "[Some 8]" 1 "\<lambda>_. True"]
  by (simp add: request_ok_def two_bytes_sel size_mod_def)

text \<open>
  C40. A failed growth reports \<^verbatim>\<open>VECTOR_ERROR\<close> but has already overwritten \<^verbatim>\<open>data\<close> with the
  null result: the vector keeps its size and capacity and loses every element.
\<close>

theorem push_back_failure_loses_data:
  assumes "vec_rep v es xs" and "v_size v = v_capacity v"
    and "2 * v_size v * es < size_mod" and "\<not> mok (2 * v_size v * es)"
  shows "\<exists>v'. vector_push_back mok v e = Ret (VECTOR_ERROR, v') \<and> v_size v' = length xs
           \<and> xs \<noteq> [] \<and> v_data v' = None \<and> vector_elems v' = []"
proof -
  have "v_size v = length xs" "2 \<le> v_capacity v" using assms(1) by (auto elim: vec_repE)
  then show ?thesis
    using push_back_out_of_memory [of v es xs mok e] assms(1,3,4) assms(2) by (auto simp: vector_elems_def)
qed

theorem push_back_failure_loses_data_witness:
  "\<exists>v'. vector_push_back (\<lambda>n. n < 4) two_bytes [Some 1] = Ret (VECTOR_ERROR, v')
     \<and> v_size v' = 2 \<and> v_data v' = None \<and> vector_elems v' = []"
proof -
  have "(4 :: nat) < size_mod" by (simp add: size_mod_def)
  then show ?thesis
    using push_back_failure_loses_data [OF two_bytes_rep, of "\<lambda>n. n < 4" "[Some 1]"]
    by (simp add: two_bytes_sel numeral_eq_Suc)
qed

text \<open>
  \<^verbatim>\<open>VECTOR_SHRINK_THRESHOLD\<close> is \<^verbatim>\<open>(1 / 4)\<close>, the integer 0: popping an element that is not
  the only one never gives memory back, however empty the block has become.
\<close>

theorem pop_back_never_shrinks:
  assumes "vec_rep v es xs" and "2 \<le> length xs" and "mok (2 * es)"
  shows "\<exists>v'. vector_pop_back mok v = Ret (VECTOR_SUCCESS, v') \<and> vec_rep v' es (butlast xs)
           \<and> v_capacity v' = v_capacity v"
  using pop_back_drops_last [of v es xs mok] assms by fastforce

theorem pop_back_never_shrinks_witness:
  "\<exists>v'. vector_pop_back (\<lambda>_. True) two_bytes = Ret (VECTOR_SUCCESS, v') \<and> vec_rep v' 1 [[Some 7]]
     \<and> v_capacity v' = 2"
  using pop_back_never_shrinks [OF two_bytes_rep, of "\<lambda>_. True"] by (simp add: two_bytes_sel)

text \<open>
  C39. Copying an empty vector succeeds and yields a vector of capacity 0, on which the next
  \<^verbatim>\<open>vector_push_back\<close> (whose growth is a no-op below the minimum capacity) writes outside
  its block.
\<close>

theorem copy_of_empty_overflows:
  assumes "vec_rep s es []" and "\<not> vector_is_initialized d"
    and "vector_copy mok d s = Ret (VECTOR_SUCCESS, d')" and "length e = es"
  shows "v_capacity d' = 0 \<and> vector_push_back mok d' e = UB"
proof -
  have "v_capacity d' = 0" using copy_empty_result [OF assms(1-3)] by simp
  then show ?thesis using push_back_on_empty_copy [OF assms] by simp
qed

theorem copy_of_empty_overflows_witness:
  "\<exists>s d d'. vector_setup (\<lambda>_. True) 4 1 = (VECTOR_SUCCESS, s)
     \<and> vector_copy (\<lambda>_. True) d s = Ret (VECTOR_SUCCESS, d')
     \<and> vector_push_back (\<lambda>_. True) d' [Some (0 :: nat)] = UB"
proof -
  obtain s :: "nat vector" where s: "vector_setup (\<lambda>_. True) 4 1 = (VECTOR_SUCCESS, s)" "vec_rep s 1 []"
    using setup_rep [of 1 "\<lambda>_. True" 4] by (auto simp: request_ok_def size_mod_def)
  let ?d = "snd (vector_destroy s)"
  let ?d' = "\<lparr>v_size = 0, v_capacity = 0, v_element_size = 1, v_data = Some []\<rparr> :: nat vector"
  have d: "\<not> vector_is_initialized ?d" by (simp add: vector_destroy_def vector_is_initialized_def)
  have "vector_copy (\<lambda>_. True) ?d s = Ret (VECTOR_SUCCESS, ?d')"
    using s(2) by (auto elim!: vec_repE simp: vector_copy_def vector_is_initialized_def c_malloc_def
        vector_destroy_def memcpy_blocks_def vector_byte_size_def size_mul_def block_read_def
        block_write_def)
  then show ?thesis
    using s(1) copy_of_empty_overflows [OF s(2) d _, of "\<lambda>_. True" ?d' "[Some 0]"] by auto
qed

end
