(* ===== verification/Split_Command.thy ===== *)
theory Split_Command
  imports Vector
begin

text \<open>
  \<^verbatim>\<open>split_command\<close> of \<^verbatim>\<open>src/main.c\<close>: the target command is cut at white space into the
  \<^verbatim>\<open>argv\<close> of the child, collecting the arguments in a \<^verbatim>\<open>Vector\<close> of \<^verbatim>\<open>char *\<close>.
  A command is the bytes before its NUL; \<open>start\<close> and \<open>end\<close> are indices into it.
  The main result is that the loop computes \<open>words\<close>, the maximal runs of non-space bytes.
\<close>

section \<open>Pointers in a byte vector\<close>

text \<open>
  An element of the vector is the eight bytes of a \<^verbatim>\<open>char *\<close>. The model keeps with each
  byte the string the pointer owns and the byte's position, so that a pointer can be read
  back only from its own eight bytes in order.
\<close>

datatype ptr_byte = PtrByte string nat

definition sizeof_ptr :: nat where "sizeof_ptr = 8"

definition encode_ptr :: "string \<Rightarrow> ptr_byte block" where
  "encode_ptr s = map (\<lambda>i. Some (PtrByte s i)) [0..<sizeof_ptr]"

definition decode_ptr :: "ptr_byte block \<Rightarrow> string option" where
  "decode_ptr b =
     (case b of Some (PtrByte s _) # _ \<Rightarrow> if b = encode_ptr s then Some s else None
      | _ \<Rightarrow> None)"

lemma length_encode_ptr [simp]: "length (encode_ptr s) = sizeof_ptr"
  by (simp add: encode_ptr_def)

lemma decode_encode_ptr [simp]: "decode_ptr (encode_ptr s) = Some s"
proof -
  have "[0..<sizeof_ptr] = 0 # [1..<sizeof_ptr]" by (simp add: sizeof_ptr_def upt_conv_Cons)
  then show ?thesis by (simp add: decode_ptr_def encode_ptr_def)
qed

section \<open>The scanning loop\<close>

definition MAX_COMMAND_LEN :: nat where "MAX_COMMAND_LEN = 1024"

text \<open>The byte at an index: the NUL at the end of the command.\<close>

definition c_at :: "string \<Rightarrow> nat \<Rightarrow> char" where
  "c_at cmd i = (if i < length cmd then cmd ! i else CHR 0x00)"

text \<open>One argument: \<^verbatim>\<open>malloc(arg_sz + 1)\<close>, \<^verbatim>\<open>strncpy\<close>, \<^verbatim>\<open>vector_push_back(&args, &arg)\<close>.\<close>

definition split_push ::
    "(nat \<Rightarrow> bool) \<Rightarrow> ptr_byte vector \<Rightarrow> string \<Rightarrow> (int \<times> ptr_byte vector) outcome" where
  "split_push mok args arg =
     (if \<not> mok (length arg + 1) then Ret (VECTOR_ERROR, args)
      else vector_push_back mok args (encode_ptr arg))"

function split_loop ::
    "(nat \<Rightarrow> bool) \<Rightarrow> string \<Rightarrow> nat \<Rightarrow> nat \<Rightarrow> ptr_byte vector \<Rightarrow> ptr_byte vector proc" where
  "split_loop mok cmd start end args =
     (if c_at cmd end = CHR 0x00 then pret args
      else if \<not> isspace (c_at cmd end) then
        (if isspace (c_at cmd (end + 1)) \<or> c_at cmd (end + 1) = CHR 0x00 then
           (let arg_sz = end - start + 1; arg = take arg_sz (drop start cmd)
            in obind (split_push mok args arg) (\<lambda>(st, args').
               if st = VECTOR_ERROR then exit_with EXIT_FAILURE
               else split_loop mok cmd start (end + 1) args'))
         else split_loop mok cmd start (end + 1) args)
      else if \<not> isspace (c_at cmd (end + 1)) then split_loop mok cmd (end + 1) (end + 1) args
      else split_loop mok cmd start (end + 1) args)"
  by pat_completeness auto
termination
  by (relation "measure (\<lambda>(mok, cmd, start, end, args). length cmd - end)")
     (auto simp: c_at_def split: if_splits)

declare split_loop.simps [simp del]

definition read_arg :: "ptr_byte vector \<Rightarrow> nat \<Rightarrow> string outcome" where
  "read_arg args i = obind (VECTOR_GET_AS args i) (\<lambda>b. ub_unless (decode_ptr b))"

text \<open>The result is the contents of \<^verbatim>\<open>argv\<close>, \<open>None\<close> for its closing null pointer.\<close>

definition split_command :: "(nat \<Rightarrow> bool) \<Rightarrow> string \<Rightarrow> string option list proc" where
  "split_command mok cmd =
     (let (st, args) = vector_setup mok 4 sizeof_ptr
      in if st = VECTOR_ERROR then exit_with EXIT_FAILURE
         else if length cmd > MAX_COMMAND_LEN then exit_with EXIT_FAILURE
         else pbind (split_loop mok cmd 0 0 args) (\<lambda>args.
           if v_size args = 0 then exit_with EXIT_FAILURE
           else if \<not> mok (size_mul (size_add (v_size args) 1) sizeof_ptr)
           then exit_with EXIT_FAILURE
           else obind (omap (read_arg args) [0..<v_size args]) (\<lambda>argv.
                pret (map Some argv @ [None]))))"

section \<open>The reference: maximal runs of non-space bytes\<close>

function words :: "string \<Rightarrow> string list" where
  "words s =
     (let t = skip_ws s
      in if t = [] then []
         else takeWhile (\<lambda>c. \<not> isspace c) t # words (dropWhile (\<lambda>c. \<not> isspace c) t))"
  by pat_completeness auto
termination
proof (relation "measure length", simp_all, goal_cases)
  case (1 s)
  then obtain c t where ct: "skip_ws s = c # t" by (cases "skip_ws s") auto
  moreover have "\<not> isspace c"
    using ct by (rule skip_ws_hd)
  ultimately have "length (dropWhile (\<lambda>c. \<not> isspace c) (skip_ws s)) < length (skip_ws s)"
    by (simp add: le_imp_less_Suc length_dropWhile_le)
  also have "\<dots> \<le> length s" by simp
  finally show ?case .
qed

declare words.simps [simp del]

lemma words_Nil [simp]: "words [] = []"
  by (simp add: words.simps)

lemma words_space [simp]: "isspace c \<Longrightarrow> words (c # s) = words s"
  by (subst (1 2) words.simps) simp

lemma words_word:
  "\<not> isspace c \<Longrightarrow>
   words (c # s) = takeWhile (\<lambda>c. \<not> isspace c) (c # s) # words (dropWhile (\<lambda>c. \<not> isspace c) s)"
  by (subst words.simps) simp

lemma words_prefix:
  assumes "w \<noteq> []" "list_all (\<lambda>c. \<not> isspace c) w" "s = [] \<or> isspace (hd s)"
  shows "words (w @ s) = w # words s"
proof -
  obtain c w' where w: "w = c # w'" using assms(1) by (cases w) auto
  have "takeWhile (\<lambda>c. \<not> isspace c) (w' @ s) = w'" "dropWhile (\<lambda>c. \<not> isspace c) (w' @ s) = s"
    using assms(2,3) w by (cases s; auto simp: list_all_iff takeWhile_append dropWhile_append)+
  then show ?thesis using assms(2) w by (simp add: words_word)
qed

lemma words_spec: "w \<in> set (words s) \<Longrightarrow> w \<noteq> [] \<and> list_all (\<lambda>c. \<not> isspace c) w"
proof (induction s rule: words.induct)
  case (1 s)
  show ?case
  proof (cases "skip_ws s")
    case Nil
    then show ?thesis using "1.prems" by (simp add: words.simps [of s])
  next
    case (Cons c t)
    have ns: "\<not> isspace c" using Cons by (rule skip_ws_hd)
    have "words s = takeWhile (\<lambda>c. \<not> isspace c) (c # t)
            # words (dropWhile (\<lambda>c. \<not> isspace c) (c # t))"
      using Cons by (simp add: words.simps [of s])
    then consider "w = takeWhile (\<lambda>c. \<not> isspace c) (c # t)"
      | "w \<in> set (words (dropWhile (\<lambda>c. \<not> isspace c) (c # t)))"
      using "1.prems" by auto
    then show ?thesis
    proof cases
      case 1
      then show ?thesis using ns by (auto simp: list_all_iff dest: set_takeWhileD)
    next
      case 2
      then show ?thesis using "1.IH" Cons by simp
    qed
  qed
qed

lemma length_words: "length (words s) \<le> length s"
proof (induction s rule: words.induct)
  case (1 s)
  show ?case
  proof (cases "skip_ws s")
    case (Cons c t)
    have "\<not> isspace c" using Cons by (rule skip_ws_hd)
    moreover have "Suc (length t) \<le> length s" using length_skip_ws [of s] Cons by simp
    ultimately show ?thesis using "1.IH" Cons length_dropWhile_le [of "\<lambda>c. \<not> isspace c" t]
      by (subst words.simps) (simp add: Let_def)
  qed (simp add: words.simps [of s])
qed

lemma words_length: "w \<in> set (words s) \<Longrightarrow> length w \<le> length s"
proof (induction s rule: words.induct)
  case (1 s)
  show ?case
  proof (cases "skip_ws s")
    case Nil
    then show ?thesis using "1.prems" by (simp add: words.simps [of s])
  next
    case (Cons c t)
    have "length (c # t) \<le> length s" using length_skip_ws [of s] Cons by simp
    moreover have "words s = takeWhile (\<lambda>c. \<not> isspace c) (c # t)
            # words (dropWhile (\<lambda>c. \<not> isspace c) (c # t))"
      using Cons by (simp add: words.simps [of s])
    ultimately show ?thesis
      using "1.IH" "1.prems" Cons length_takeWhile_le [of "\<lambda>c. \<not> isspace c" "c # t"]
        length_dropWhile_le [of "\<lambda>c. \<not> isspace c" "c # t"]
      by (metis le_trans list.distinct(1) set_ConsD)
  qed
qed

lemma words_empty_iff: "words s = [] \<longleftrightarrow> list_all isspace s"
  by (subst words.simps) (simp add: skip_ws_def Let_def list_all_iff)


section \<open>The loop computes the words\<close>

definition push_words ::
    "(nat \<Rightarrow> bool) \<Rightarrow> ptr_byte vector \<Rightarrow> string list \<Rightarrow> ptr_byte vector proc" where
  "push_words mok args ts =
     obind (push_each (split_push mok) args ts) (\<lambda>(st, v).
       if st = VECTOR_ERROR then exit_with EXIT_FAILURE else pret v)"

lemma push_words_simps [simp]:
  "push_words mok args [] = pret args"
  "push_words mok args (t # ts) = obind (split_push mok args t) (\<lambda>(st, v).
     if st = VECTOR_ERROR then exit_with EXIT_FAILURE else push_words mok v ts)"
proof -
  show "push_words mok args [] = pret args"
    by (simp add: push_words_def VECTOR_ERROR_def)
  show "push_words mok args (t # ts) = obind (split_push mok args t) (\<lambda>(st, v).
     if st = VECTOR_ERROR then exit_with EXIT_FAILURE else push_words mok v ts)"
    by (cases "split_push mok args t")
       (auto simp: push_words_def VECTOR_ERROR_def exit_with_def split: prod.splits)
qed

lemma c_at_nul_iff: "no_nul cmd \<Longrightarrow> c_at cmd i = CHR 0x00 \<longleftrightarrow> length cmd \<le> i"
  by (auto simp: c_at_def no_nul_def list_all_length)

lemma c_at_drop: "i < length cmd \<Longrightarrow> drop i cmd = c_at cmd i # drop (Suc i) cmd"
  by (simp add: c_at_def Cons_nth_drop_Suc)

lemma c_at_past [simp]: "length cmd \<le> i \<Longrightarrow> c_at cmd i = CHR 0x00"
  by (simp add: c_at_def)

text \<open>
  Outside a word the words of the rest are pushed; inside one, those from its start. Both
  are proved together along the loop.
\<close>

lemma split_loop_words:
  assumes "no_nul cmd" and "start \<le> end" and "end \<le> length cmd"
  shows "(end = length cmd \<or> isspace (c_at cmd end) \<longrightarrow>
            split_loop mok cmd start end args = push_words mok args (words (drop end cmd)))
       \<and> (end < length cmd \<and> (\<forall>i. start \<le> i \<and> i \<le> end \<longrightarrow> \<not> isspace (c_at cmd i)) \<longrightarrow>
            split_loop mok cmd start end args = push_words mok args (words (drop start cmd)))"
  using assms
proof (induction mok cmd start "end" args rule: split_loop.induct)
  case (1 mok cmd start "end" args)
  note nul = c_at_nul_iff [OF "1.prems"(1)]
  note unfold = split_loop.simps [of mok cmd start "end" args]
  show ?case
  proof (cases "end = length cmd")
    case True
    then show ?thesis by (simp add: split_loop.simps [of mok cmd start "length cmd" args])
  next
    case False
    then have lt: "end < length cmd" using "1.prems" by simp
    then have nn: "c_at cmd end \<noteq> CHR 0x00" using nul by simp
    note rest = c_at_drop [OF lt]
    show ?thesis
    proof (cases "isspace (c_at cmd end)")
      case space: True
      have "split_loop mok cmd start end args = push_words mok args (words (drop (Suc end) cmd))"
      proof (cases "isspace (c_at cmd (Suc end))")
        case True
        then have "Suc end < length cmd" by (metis c_at_past isspace_nul not_less)
        then show ?thesis
          using "1.IH"(4) [OF nn] "1.prems" space True by (simp add: unfold nn)
      next
        case next_word: False
        have loop: "split_loop mok cmd start end args = split_loop mok cmd (Suc end) (Suc end) args"
          using space next_word by (simp add: unfold nn)
        have IH: "(Suc end = length cmd \<or> isspace (c_at cmd (Suc end)) \<longrightarrow>
            split_loop mok cmd (Suc end) (Suc end) args = push_words mok args (words (drop (Suc end) cmd)))
          \<and> (Suc end < length cmd \<and> (\<forall>i. Suc end \<le> i \<and> i \<le> Suc end \<longrightarrow> \<not> isspace (c_at cmd i)) \<longrightarrow>
            split_loop mok cmd (Suc end) (Suc end) args = push_words mok args (words (drop (Suc end) cmd)))"
          using "1.IH"(3) [OF nn] space next_word "1.prems" lt by simp
        have "\<forall>i. Suc end \<le> i \<and> i \<le> Suc end \<longrightarrow> \<not> isspace (c_at cmd i)"
          using next_word by (auto dest: le_antisym)
        then show ?thesis using IH lt unfolding loop by (cases "Suc end = length cmd") auto
      qed
      then show ?thesis using rest space "1.prems"(2) by auto
    next
      case word: False
      have "split_loop mok cmd start end args = push_words mok args (words (drop start cmd))"
        if all: "\<forall>i. start \<le> i \<and> i \<le> end \<longrightarrow> \<not> isspace (c_at cmd i)"
      proof (cases "isspace (c_at cmd (Suc end)) \<or> c_at cmd (Suc end) = CHR 0x00")
        case stop: True
        let ?arg = "take (end - start + 1) (drop start cmd)"
        have gap: "Suc end = length cmd \<or> isspace (c_at cmd (Suc end))" using stop nul lt by auto
        have "list_all (\<lambda>c. \<not> isspace c) ?arg"
          unfolding list_all_length
        proof (intro allI impI)
          fix n assume "n < length ?arg"
          then have "?arg ! n = c_at cmd (start + n)" "start + n \<le> end"
            using "1.prems" lt by (auto simp: c_at_def)
          then show "\<not> isspace (?arg ! n)" using all by simp
        qed
        moreover have "?arg \<noteq> []" using lt "1.prems" by auto
        moreover have "drop (Suc end) cmd = [] \<or> isspace (hd (drop (Suc end) cmd))"
          using gap by (auto simp: c_at_def hd_drop_conv_nth split: if_splits)
        moreover have "drop start cmd = ?arg @ drop (Suc end) cmd"
          using append_take_drop_id [of "end - start + 1" "drop start cmd"] "1.prems" by simp
        ultimately have ws: "words (drop start cmd) = ?arg # words (drop (Suc end) cmd)"
          using words_prefix by metis
        have "split_loop mok cmd start (Suc end) args' = push_words mok args' (words (drop (Suc end) cmd))"
          if "split_push mok args ?arg = Ret (st, args')" "st \<noteq> VECTOR_ERROR" for st args'
          using "1.IH"(1) [OF nn word, of "end - start + 1" ?arg "(st, args')" st args'] that
            stop gap "1.prems" lt by simp
        then show ?thesis using word stop
          by (cases "split_push mok args ?arg") (auto simp: unfold nn ws Let_def)
      next
        case go: False
        then have lt2: "Suc end < length cmd" using nul by (metis not_less Suc_eq_plus1)
        have "\<forall>i. start \<le> i \<and> i \<le> Suc end \<longrightarrow> \<not> isspace (c_at cmd i)"
          using all go by (metis le_SucE)
        then show ?thesis
          using "1.IH"(2) [OF nn word] go "1.prems" lt2 word by (simp add: unfold nn)
      qed
      then show ?thesis using word lt by auto
    qed
  qed
qed

lemma split_loop_start: "no_nul cmd \<Longrightarrow> split_loop mok cmd 0 0 args = push_words mok args (words cmd)"
  using split_loop_words [of cmd 0 0 mok args]
  by (cases "cmd = [] \<or> isspace (c_at cmd 0)") auto


section \<open>Reading the arguments back\<close>

lemma push_back_cases:
  assumes rep: "vec_rep v es xs" and e: "length e = es" and fits: "2 * v_size v * es < size_mod"
  shows "(\<exists>v'. vector_push_back mok v e = Ret (VECTOR_ERROR, v'))
       \<or> (\<exists>v'. vector_push_back mok v e = Ret (VECTOR_SUCCESS, v') \<and> vec_rep v' es (xs @ [e]))"
proof (cases "v_size v = v_capacity v \<and> \<not> mok (2 * v_size v * es)")
  case True
  then show ?thesis using push_back_out_of_memory [OF rep _ fits] by blast
next
  case False
  then have "v_size v = v_capacity v \<Longrightarrow> request_ok mok es (2 * v_size v)"
    using fits by (simp add: request_ok_def)
  then show ?thesis using push_back_appends [OF rep e] by blast
qed

lemma push_words_cases:
  assumes "vec_rep v sizeof_ptr xs" and "2 * (length xs + length ts) * sizeof_ptr < size_mod"
  shows "push_words mok v ts = exit_with EXIT_FAILURE
       \<or> (\<exists>v'. push_words mok v ts = pret v' \<and> vec_rep v' sizeof_ptr (xs @ map encode_ptr ts))"
  using assms
proof (induction ts arbitrary: v xs)
  case (Cons t ts)
  have sz: "v_size v = length xs" using Cons.prems(1) by (auto elim: vec_repE)
  have fits: "2 * v_size v * sizeof_ptr < size_mod"
    using Cons.prems(2) sz by (simp add: sizeof_ptr_def)
  show ?case
  proof (cases "mok (length t + 1)")
    case False
    then show ?thesis by (simp add: split_push_def)
  next
    case True
    from push_back_cases [OF Cons.prems(1) length_encode_ptr fits, of mok t] show ?thesis
    proof (elim disjE exE conjE)
      fix v' assume "vector_push_back mok v (encode_ptr t) = Ret (VECTOR_ERROR, v')"
      then show ?thesis using True by (simp add: split_push_def)
    next
      fix v' assume v': "vector_push_back mok v (encode_ptr t) = Ret (VECTOR_SUCCESS, v')"
        "vec_rep v' sizeof_ptr (xs @ [encode_ptr t])"
      have "2 * (length (xs @ [encode_ptr t]) + length ts) * sizeof_ptr < size_mod"
        using Cons.prems(2) by simp
      from Cons.IH [OF v'(2) this] show ?thesis
        using True v'(1) by (simp add: split_push_def VECTOR_SUCCESS_def VECTOR_ERROR_def)
    qed
  qed
qed simp

lemma read_args:
  assumes "vec_rep v sizeof_ptr (map encode_ptr ts)"
  shows "v_size v = length ts" and "omap (read_arg v) [0..<v_size v] = Ret ts"
proof -
  show sz: "v_size v = length ts" using assms by (auto elim: vec_repE)
  have "read_arg v i = Ret (ts ! i)" if "i < length ts" for i
    using vector_get_as_rep [OF assms, of i] that by (simp add: read_arg_def)
  then show "omap (read_arg v) [0..<v_size v] = Ret ts"
    using omap_all_Ret [of "[0..<length ts]" "read_arg v" "nth ts"] by (simp add: sz map_nth)
qed

lemma split_command_after_setup:
  assumes nn: "no_nul cmd" and len: "length cmd \<le> MAX_COMMAND_LEN"
    and init: "vector_setup mok 4 sizeof_ptr = (VECTOR_SUCCESS, v)"
  shows "split_command mok cmd = pbind (push_words mok v (words cmd)) (\<lambda>args.
           if v_size args = 0 then exit_with EXIT_FAILURE
           else if \<not> mok (size_mul (size_add (v_size args) 1) sizeof_ptr)
           then exit_with EXIT_FAILURE
           else obind (omap (read_arg args) [0..<v_size args]) (\<lambda>argv.
                pret (map Some argv @ [None])))"
  using len init
  by (simp add: split_command_def split_loop_start [OF nn] VECTOR_SUCCESS_def VECTOR_ERROR_def)

lemma words_fit: "length cmd \<le> MAX_COMMAND_LEN \<Longrightarrow> 2 * length (words cmd) * sizeof_ptr < size_mod"
  using length_words [of cmd] by (simp add: MAX_COMMAND_LEN_def sizeof_ptr_def size_mod_def)

lemma split_command_cases:
  assumes nn: "no_nul cmd"
  shows "split_command mok cmd = exit_with EXIT_FAILURE
       \<or> split_command mok cmd = pret (map Some (words cmd) @ [None])
         \<and> words cmd \<noteq> [] \<and> length cmd \<le> MAX_COMMAND_LEN"
proof (cases "length cmd \<le> MAX_COMMAND_LEN \<and> request_ok mok sizeof_ptr 4")
  case False
  then show ?thesis
    by (auto simp: split_command_def vector_setup_def request_ok_def c_malloc_def sizeof_ptr_def
        VECTOR_SUCCESS_def VECTOR_ERROR_def VECTOR_MINIMUM_CAPACITY_def size_mod_def size_mul_def
        split: prod.splits)
next
  case True
  then obtain v :: "ptr_byte vector" where v: "vector_setup mok 4 sizeof_ptr = (VECTOR_SUCCESS, v)" "vec_rep v sizeof_ptr []"
    using setup_rep [of sizeof_ptr mok 4] by (auto simp: sizeof_ptr_def)
  have fits: "2 * (length ([] :: ptr_byte block list) + length (words cmd)) * sizeof_ptr < size_mod"
    using words_fit True by simp
  note eq = split_command_after_setup [OF nn conjunct1 [OF True] v(1)]
  from push_words_cases [OF v(2) fits, of mok] show ?thesis
  proof (elim disjE exE conjE)
    assume "push_words mok v (words cmd) = exit_with EXIT_FAILURE"
    then show ?thesis using True eq by simp
  next
    fix v' assume v': "push_words mok v (words cmd) = pret v'"
      "vec_rep v' sizeof_ptr ([] @ map encode_ptr (words cmd))"
    then show ?thesis using read_args [of v' "words cmd"] True eq by auto
  qed
qed

text \<open>With memory available the vector's contract gives the result outright.\<close>

lemma push_words_ok:
  assumes "vec_store mok sizeof_ptr cap v xs" and "length xs + length ts \<le> cap"
    and "\<forall>t \<in> set ts. mok (length t + 1)"
  shows "\<exists>v'. push_words mok v ts = pret v' \<and> vec_store mok sizeof_ptr cap v' (xs @ map encode_ptr ts)"
proof -
  have "push_each (split_push mok) v ts = push_each (vector_push_back mok) v (map encode_ptr ts)"
    using assms(3)
  proof (induction ts arbitrary: v)
    case (Cons t ts)
    then show ?case
      by (cases "vector_push_back mok v (encode_ptr t)") (auto simp: split_push_def)
  qed simp
  moreover have "\<exists>v'. push_each (vector_push_back mok) v (map encode_ptr ts) = Ret (0, v')
                   \<and> vec_store mok sizeof_ptr cap v' (xs @ map encode_ptr ts)"
    by (rule vec.push_each_rep [OF assms(1)]) (use assms(2) in \<open>auto simp: list_all_iff\<close>)
  ultimately show ?thesis by (auto simp: push_words_def VECTOR_ERROR_def)
qed


lemma split_command_args:
  assumes "no_nul cmd" and "length cmd \<le> 1024" and "words cmd \<noteq> []"
    and mem: "\<forall>n \<le> 16384. mok n"
  shows "split_command mok cmd = pret (map Some (words cmd) @ [None])"
proof -
  have req: "request_ok mok sizeof_ptr n" if "n \<le> 2048" for n
    using mem that by (simp add: request_ok_def sizeof_ptr_def size_mod_def)
  then obtain v :: "ptr_byte vector" where v: "vector_setup mok 4 sizeof_ptr = (VECTOR_SUCCESS, v)" "vec_rep v sizeof_ptr []"
    using setup_rep [of sizeof_ptr mok 4] by (auto simp: sizeof_ptr_def)
  have st: "vec_store mok sizeof_ptr 1024 v []" using v(2) req by (simp add: vec_store_def)
  have lw: "length (words cmd) \<le> 1024" using length_words [of cmd] assms(2) by simp
  have "\<forall>t \<in> set (words cmd). mok (length t + 1)"
    using mem assms(2) by (auto dest!: words_length)
  then obtain v' where v': "push_words mok v (words cmd) = pret v'"
      "vec_rep v' sizeof_ptr (map encode_ptr (words cmd))"
    using push_words_ok [OF st, of "words cmd"] lw by (auto simp: vec_store_def)
  have "mok (size_mul (size_add (length (words cmd)) 1) sizeof_ptr)"
    using mem lw by (simp add: size_mul_def size_add_def size_mod_def sizeof_ptr_def)
  then show ?thesis
    using split_command_after_setup [OF assms(1) _ v(1)] assms(2,3) v'(1) read_args [OF v'(2)]
    by (simp add: MAX_COMMAND_LEN_def)
qed

section \<open>Properties\<close>

text \<open>
  C18. A command of at most \<^verbatim>\<open>MAX_COMMAND_LEN\<close> bytes with at least one argument is split
  into exactly its maximal runs of non-space bytes, in order, closed by the null pointer
  \<^verbatim>\<open>execve\<close> expects, whenever requests up to 16 KiB can be allocated.
\<close>

theorem split_command_words:
  assumes "no_nul cmd" and "length cmd \<le> 1024" and "words cmd \<noteq> []"
    and "\<forall>n \<le> 16384. mok n"
  shows "split_command mok cmd = pret (map Some (words cmd) @ [None])"
  using split_command_args [OF assms] .

theorem split_command_words_witness:
  "split_command (\<lambda>n. n \<le> 16384) ''  ls -l\<newline>'' = pret [Some ''ls'', Some ''-l'', None]"
proof -
  have ws: "words ''  ls -l\<newline>'' = [''ls'', ''-l'']"
    by (simp add: words_word isspace_def)
  show ?thesis
    using split_command_words [of "''  ls -l\<newline>''" "\<lambda>n. n \<le> 16384"] by (simp add: ws)
qed

text \<open>
  C31. Whatever allocations fail, splitting never reads or writes out of bounds and never
  trips an assertion: the process exits with a failure status, or the result is the words
  of a non-blank command of at most \<^verbatim>\<open>MAX_COMMAND_LEN\<close> bytes.
\<close>

theorem split_command_safe:
  assumes "no_nul cmd"
  shows "split_command mok cmd = exit_with EXIT_FAILURE
       \<or> split_command mok cmd = pret (map Some (words cmd) @ [None])
         \<and> \<not> list_all isspace cmd \<and> length cmd \<le> 1024"
  using split_command_cases [OF assms, of mok] by (auto simp: words_empty_iff MAX_COMMAND_LEN_def)

theorem split_command_safe_witness:
  "split_command (\<lambda>n. n \<le> 40) ''a b'' = exit_with EXIT_FAILURE
   \<or> split_command (\<lambda>n. n \<le> 40) ''a b'' = pret (map Some (words ''a b'') @ [None])
     \<and> \<not> list_all isspace ''a b'' \<and> length ''a b'' \<le> 1024"
  by (rule split_command_safe) simp

end
