(* ===== verification/Parson_Object.thy ===== *)
theory Parson_Object
  imports Prelude
begin

text \<open>
  The hash table behind a JSON object (\<^verbatim>\<open>json_object_*\<close> of \<^verbatim>\<open>include/parson.c\<close>): open addressing
  with linear probing. \<open>cells\<close> maps a slot to an item index (\<open>None\<close> is \<^verbatim>\<open>OBJECT_INVALID_IX\<close>);
  \<open>names\<close>, \<open>hashes\<close>, \<open>item_values\<close>, \<open>cell_ixs\<close> are the item arrays, of which the first
  \<^verbatim>\<open>count\<close> entries are kept (\<open>item_capacity\<close> is how many fit). Accesses outside the arrays are
  \<open>UB\<close>. Keys have no NUL, as the code ensures before it stores one.
\<close>

unbundle bit_operations_syntax

section \<open>Array accesses\<close>

definition arr :: "'a list \<Rightarrow> nat \<Rightarrow> 'a outcome" where
  "arr xs i = (if i < length xs then Ret (xs ! i) else UB)"

definition arr_set :: "'a list \<Rightarrow> nat \<Rightarrow> 'a \<Rightarrow> 'a list outcome" where
  "arr_set xs i x = (if i < length xs then Ret (xs[i := x]) else UB)"

lemma arr_in [simp]: "i < length xs \<Longrightarrow> arr xs i = Ret (xs ! i)"
  by (simp add: arr_def)

lemma arr_set_in [simp]: "i < length xs \<Longrightarrow> arr_set xs i x = Ret (xs[i := x])"
  by (simp add: arr_set_def)

section \<open>Stores with string keys\<close>

text \<open>The loop of \<^verbatim>\<open>json_object_grow_and_rehash\<close>, and of every client that fills an object.\<close>

fun add_items ::
    "('s \<Rightarrow> string \<Rightarrow> 'v \<Rightarrow> 's option outcome)
     \<Rightarrow> 's \<Rightarrow> (string \<times> 'v) list \<Rightarrow> 's option outcome" where
  "add_items add obj [] = Ret (Some obj)"
| "add_items add obj ((k, v) # kvs) =
     obind (add obj k v) (\<lambda>r. case r of None \<Rightarrow> Ret None | Some obj' \<Rightarrow> add_items add obj' kvs)"

text \<open>
  What the clients of an object rely on: looking a key up gives what the list of entries says,
  and a new key is appended to it while there is room. \<open>strict_store\<close> refuses a present key,
  as \<^verbatim>\<open>json_object_add\<close> does; \<open>update_store\<close> replaces its value, as
  \<^verbatim>\<open>json_object_set_value\<close> does.
\<close>

lemma map_of_replaced:
  "map_of (map (\<lambda>(k', w). (k', if k' = k then v else w)) kvs) j
     = (if j = k \<and> k \<in> fst ` set kvs then Some v else map_of kvs j)"
proof (induction kvs)
  case (Cons kv kvs)
  obtain k' w where "kv = (k', w)" by (cases kv)
  then show ?case using Cons.IH by (cases "k' = k"; cases "j = k'") simp_all
qed simp

locale keyed_store =
  fixes put :: "'s \<Rightarrow> string \<Rightarrow> 'v \<Rightarrow> 's option outcome"
    and get :: "'s \<Rightarrow> string \<Rightarrow> 'v option outcome"
    and entries :: "'s \<Rightarrow> (string \<times> 'v) list"
    and inv :: "'s \<Rightarrow> bool"
    and room :: "'s \<Rightarrow> nat"
    and key_ok :: "string \<Rightarrow> bool"
  assumes get_entry: "inv s \<Longrightarrow> get s k = Ret (map_of (entries s) k)"
    and distinct_entries: "inv s \<Longrightarrow> distinct (map fst (entries s))"
    and put_new: "inv s \<Longrightarrow> k \<notin> fst ` set (entries s) \<Longrightarrow> 0 < room s \<Longrightarrow> key_ok k \<Longrightarrow>
      \<exists>s'. put s k v = Ret (Some s') \<and> inv s' \<and> entries s' = entries s @ [(k, v)] \<and> room s \<le> Suc (room s')"
begin

lemma put_all_new:
  assumes "inv s" and "distinct (map fst (entries s @ kvs))" and "length kvs \<le> room s"
    and "list_all key_ok (map fst kvs)"
  shows "\<exists>s'. add_items put s kvs = Ret (Some s') \<and> inv s' \<and> entries s' = entries s @ kvs
              \<and> room s \<le> length kvs + room s'"
  using assms
proof (induction kvs arbitrary: s)
  case (Cons kv kvs)
  obtain k v where kv: "kv = (k, v)" by (cases kv)
  obtain s1 where s1: "put s k v = Ret (Some s1)" "inv s1" "entries s1 = entries s @ [(k, v)]"
      "room s \<le> Suc (room s1)"
    using put_new [OF Cons.prems(1), of k v] Cons.prems(2-4) by (force simp: kv)
  have "\<exists>s'. add_items put s1 kvs = Ret (Some s') \<and> inv s' \<and> entries s' = entries s1 @ kvs
             \<and> room s1 \<le> length kvs + room s'"
    using Cons.prems s1 by (intro Cons.IH) (auto simp: kv)
  then show ?case using s1 kv by auto
qed simp

lemma get_after_puts:
  assumes "inv s" and "distinct (map fst (entries s @ kvs))" and "length kvs \<le> room s"
    and "list_all key_ok (map fst kvs)" and "(k, v) \<in> set (entries s @ kvs)"
  shows "\<exists>s'. add_items put s kvs = Ret (Some s') \<and> get s' k = Ret (Some v)"
proof -
  obtain s' where "add_items put s kvs = Ret (Some s')" "inv s'" "entries s' = entries s @ kvs"
    using put_all_new [OF assms(1-4)] by blast
  moreover from this have "map_of (entries s') k = Some v"
    using assms(2,5) distinct_entries by (intro map_of_is_SomeI) simp_all
  ultimately show ?thesis using get_entry by auto
qed

end

locale strict_store = keyed_store +
  assumes put_present: "inv s \<Longrightarrow> k \<in> fst ` set (entries s) \<Longrightarrow> put s k v = Ret None"
begin

lemma put_all_stops:
  assumes "inv s" and "distinct (map fst (entries s @ kvs))" and "length kvs \<le> room s"
    and "list_all key_ok (map fst kvs)" and "k \<in> fst ` set (entries s @ kvs)"
  shows "add_items put s (kvs @ (k, v) # rest) = Ret None"
proof -
  have split: "add_items put s (kvs @ zs)
      = obind (add_items put s kvs) (\<lambda>r. case r of None \<Rightarrow> Ret None | Some s' \<Rightarrow> add_items put s' zs)" for s zs
    by (induction kvs arbitrary: s) (auto simp: obind_assoc intro!: obind_cong split: option.splits)
  obtain s' where "add_items put s kvs = Ret (Some s')" "inv s'" "entries s' = entries s @ kvs"
    using put_all_new [OF assms(1-4)] by blast
  then show ?thesis using assms(5) put_present [of s' k v] by (simp add: split)
qed

end

locale update_store = keyed_store +
  assumes put_replaces: "inv s \<Longrightarrow> k \<in> fst ` set (entries s) \<Longrightarrow>
      \<exists>s'. put s k v = Ret (Some s') \<and> inv s'
          \<and> entries s' = map (\<lambda>(k', w). (k', if k' = k then v else w)) (entries s)"
begin

lemma get_put:
  assumes "inv s" and "0 < room s" and "key_ok k"
  shows "\<exists>s'. put s k v = Ret (Some s') \<and> inv s' \<and> get s' k = Ret (Some v)
              \<and> (\<forall>j. j \<noteq> k \<longrightarrow> get s' j = get s j)"
proof (cases "k \<in> fst ` set (entries s)")
  case True
  then obtain s' where s': "put s k v = Ret (Some s')" "inv s'"
      "entries s' = map (\<lambda>(k', w). (k', if k' = k then v else w)) (entries s)"
    using put_replaces [OF assms(1)] by blast
  then show ?thesis
    using True get_entry [OF s'(2)] get_entry [OF assms(1)] by (simp add: map_of_replaced)
next
  case False
  then obtain s' where s': "put s k v = Ret (Some s')" "inv s'" "entries s' = entries s @ [(k, v)]"
    using put_new [OF assms(1) _ assms(2,3)] by blast
  have "map_of (entries s) k = None" using False by (simp add: map_of_eq_None_iff)
  then have "map_of (entries s') k = Some v" "\<And>j. j \<noteq> k \<Longrightarrow> map_of (entries s') j = map_of (entries s) j"
    by (auto simp: s'(3) map_add_def split: option.splits)
  then show ?thesis using s' get_entry [OF s'(2)] get_entry [OF assms(1)] by auto
qed

end

section \<open>The table\<close>

datatype 'v json_object =
  JSON_Object (cells: "nat option list") (hashes: "64 word list") (names: "string list")
    (item_values: "'v list") (cell_ixs: "nat list") (item_capacity: nat) (cell_capacity: nat)

definition STARTING_CAPACITY :: nat where "STARTING_CAPACITY = 16"

definition json_object_get_count :: "'v json_object \<Rightarrow> nat" where
  "json_object_get_count obj = length (names obj)"

definition hash_string :: "string \<Rightarrow> nat \<Rightarrow> 64 word" where
  "hash_string s n =
     foldl (\<lambda>h c. (push_bit 5 h + h) + word_of_nat (of_char c)) 5381
       (takeWhile (\<lambda>c. c \<noteq> CHR 0x00) (take n s))"

definition json_object_init :: "(nat \<Rightarrow> bool) \<Rightarrow> nat \<Rightarrow> 'v json_object option" where
  "json_object_init mok capacity =
     (let ic = (capacity * 7 div 10) mod 2 ^ 32
      in if capacity = 0 then Some (JSON_Object [] [] [] [] [] ic 0)
         else if mok (capacity * 8) \<and> mok (ic * 8)
         then Some (JSON_Object (replicate capacity None) [] [] [] [] ic capacity)
         else None)"

definition json_object_make :: "(nat \<Rightarrow> bool) \<Rightarrow> 'v json_object option" where
  "json_object_make mok = (if mok 72 then json_object_init mok 0 else None)"

text \<open>All memory is returned; the fields are zero.\<close>

definition json_object_deinit :: "'v json_object \<Rightarrow> 'v json_object" where
  "json_object_deinit obj = JSON_Object [] [] [] [] [] 0 0"

definition slot :: "nat \<Rightarrow> 64 word \<Rightarrow> nat" where
  "slot cap h = unat (h AND (word_of_nat cap - 1))"

definition key_matches :: "string \<Rightarrow> nat \<Rightarrow> string \<Rightarrow> bool" where
  "key_matches key key_len k = (length k = key_len \<and> take key_len key = take key_len k)"

text \<open>The probe loop from step \<open>i\<close>, with the number of steps left.\<close>

fun probe :: "'v json_object \<Rightarrow> string \<Rightarrow> nat \<Rightarrow> 64 word \<Rightarrow> nat \<Rightarrow> nat \<Rightarrow> nat
              \<Rightarrow> (nat option \<times> bool) outcome" where
  "probe obj key key_len h cell_ix i 0 = Ret (None, False)"
| "probe obj key key_len h cell_ix i (Suc todo) =
     (let ix = slot (cell_capacity obj) (word_of_nat (cell_ix + i))
      in obind (arr (cells obj) ix) (\<lambda>c. case c of
           None \<Rightarrow> Ret (Some ix, False)
         | Some cell \<Rightarrow>
             obind (arr (hashes obj) cell) (\<lambda>hash_to_check.
               if h \<noteq> hash_to_check then probe obj key key_len h cell_ix (Suc i) todo
               else obind (arr (names obj) cell) (\<lambda>k.
                 if key_matches key key_len k then Ret (Some ix, True)
                 else probe obj key key_len h cell_ix (Suc i) todo))))"

definition json_object_get_cell_ix ::
    "'v json_object \<Rightarrow> string \<Rightarrow> nat \<Rightarrow> 64 word \<Rightarrow> (nat option \<times> bool) outcome" where
  "json_object_get_cell_ix obj key key_len h =
     probe obj key key_len h (slot (cell_capacity obj) h) 0 (cell_capacity obj)"

text \<open>The five assignments at the end of \<^verbatim>\<open>json_object_add\<close> and \<^verbatim>\<open>json_object_set_value\<close>.\<close>

definition store_item ::
    "'v json_object \<Rightarrow> nat option \<Rightarrow> 64 word \<Rightarrow> string \<Rightarrow> 'v \<Rightarrow> 'v json_object outcome" where
  "store_item obj cell_ix h name v =
     (if item_capacity obj \<le> json_object_get_count obj then UB
      else obind (ub_unless cell_ix) (\<lambda>ix.
             obind (arr_set (cells obj) ix (Some (json_object_get_count obj))) (\<lambda>cs.
               Ret (JSON_Object cs (hashes obj @ [h]) (names obj @ [name]) (item_values obj @ [v])
                      (cell_ixs obj @ [ix]) (item_capacity obj) (cell_capacity obj)))))"

text \<open>
  \<^verbatim>\<open>json_object_add\<close> and \<^verbatim>\<open>json_object_grow_and_rehash\<close> call each other: each definition takes
  the other as an argument, and \<open>json_object_add_fuel\<close> ties them with a bound on the nesting
  of calls. \<open>None\<close> is \<^verbatim>\<open>JSONFailure\<close> with the object unchanged.
\<close>

definition add_step ::
    "('v json_object \<Rightarrow> 'v json_object option outcome)
     \<Rightarrow> 'v json_object \<Rightarrow> string \<Rightarrow> 'v \<Rightarrow> 'v json_object option outcome" where
  "add_step grow obj name v =
     (let h = hash_string name (length name)
      in obind (json_object_get_cell_ix obj name (length name) h) (\<lambda>(cell_ix, found).
           if found then Ret None
           else if item_capacity obj \<le> json_object_get_count obj
           then obind (grow obj) (\<lambda>r. case r of
                  None \<Rightarrow> Ret None
                | Some obj' \<Rightarrow>
                    obind (json_object_get_cell_ix obj' name (length name) h) (\<lambda>(cell_ix', _).
                      obind (store_item obj' cell_ix' h name v) (\<lambda>obj''. Ret (Some obj''))))
           else obind (store_item obj cell_ix h name v) (\<lambda>obj'. Ret (Some obj'))))"

definition grow_step ::
    "(nat \<Rightarrow> bool) \<Rightarrow> ('v json_object \<Rightarrow> string \<Rightarrow> 'v \<Rightarrow> 'v json_object option outcome)
     \<Rightarrow> 'v json_object \<Rightarrow> 'v json_object option outcome" where
  "grow_step mok add obj =
     (let new_capacity = max (cell_capacity obj * 2) STARTING_CAPACITY
      in case json_object_init mok new_capacity of
           None \<Rightarrow> Ret None
         | Some new_object \<Rightarrow> add_items add new_object (zip (names obj) (item_values obj)))"

primrec json_object_add_fuel ::
    "nat \<Rightarrow> (nat \<Rightarrow> bool) \<Rightarrow> 'v json_object \<Rightarrow> string \<Rightarrow> 'v \<Rightarrow> 'v json_object option outcome" where
  "json_object_add_fuel 0 mok = (\<lambda>obj name v. UB)"
| "json_object_add_fuel (Suc k) mok =
     (\<lambda>obj name v. add_step (grow_step mok (json_object_add_fuel k mok)) obj name v)"

definition json_object_add ::
    "(nat \<Rightarrow> bool) \<Rightarrow> 'v json_object \<Rightarrow> string \<Rightarrow> 'v \<Rightarrow> 'v json_object option outcome" where
  "json_object_add mok = json_object_add_fuel 2 mok"

definition json_object_grow_and_rehash ::
    "(nat \<Rightarrow> bool) \<Rightarrow> 'v json_object \<Rightarrow> 'v json_object option outcome" where
  "json_object_grow_and_rehash mok = grow_step mok (json_object_add mok)"

definition json_object_getn_value :: "'v json_object \<Rightarrow> string \<Rightarrow> nat \<Rightarrow> 'v option outcome" where
  "json_object_getn_value obj name name_len =
     obind (json_object_get_cell_ix obj name name_len (hash_string name name_len)) (\<lambda>(cell_ix, found).
       if \<not> found then Ret None
       else obind (ub_unless cell_ix) (\<lambda>ix. obind (arr (cells obj) ix) (\<lambda>c.
              obind (ub_unless c) (\<lambda>item_ix. obind (arr (item_values obj) item_ix) (\<lambda>v. Ret (Some v))))))"

text \<open>
  \<open>attached\<close> is \<^verbatim>\<open>value->parent != NULL\<close>: the value already belongs to an object or array.
  The result is whether the call returns \<^verbatim>\<open>JSONSuccess\<close>, and the object, which a failed copy of
  the key leaves grown.
\<close>

definition store_copy ::
    "(nat \<Rightarrow> bool) \<Rightarrow> 'v json_object \<Rightarrow> nat option \<Rightarrow> 64 word \<Rightarrow> string \<Rightarrow> 'v
     \<Rightarrow> (bool \<times> 'v json_object) outcome" where
  "store_copy mok obj cell_ix h name v =
     (if \<not> mok (length name + 1) then Ret (False, obj)
      else obind (store_item obj cell_ix h name v) (\<lambda>obj'. Ret (True, obj')))"

definition replace_value :: "'v json_object \<Rightarrow> nat option \<Rightarrow> 'v \<Rightarrow> 'v json_object outcome" where
  "replace_value obj cell_ix v =
     obind (ub_unless cell_ix) (\<lambda>ix. obind (arr (cells obj) ix) (\<lambda>c.
       obind (ub_unless c) (\<lambda>item_ix. obind (arr_set (item_values obj) item_ix v) (\<lambda>vs.
         Ret (JSON_Object (cells obj) (hashes obj) (names obj) vs (cell_ixs obj)
                (item_capacity obj) (cell_capacity obj))))))"

definition json_object_set_value ::
    "(nat \<Rightarrow> bool) \<Rightarrow> 'v json_object \<Rightarrow> string \<Rightarrow> 'v \<Rightarrow> bool
     \<Rightarrow> (bool \<times> 'v json_object) outcome" where
  "json_object_set_value mok obj name v attached =
     (let h = hash_string name (length name)
      in if attached then Ret (False, obj)
         else obind (json_object_get_cell_ix obj name (length name) h) (\<lambda>(cell_ix, found).
           if found then obind (replace_value obj cell_ix v) (\<lambda>obj'. Ret (True, obj'))
           else if item_capacity obj \<le> json_object_get_count obj
           then obind (json_object_grow_and_rehash mok obj) (\<lambda>r. case r of
                  None \<Rightarrow> Ret (False, obj)
                | Some obj' \<Rightarrow>
                    obind (json_object_get_cell_ix obj' name (length name) h) (\<lambda>(cell_ix', _).
                      store_copy mok obj' cell_ix' h name v))
           else store_copy mok obj cell_ix h name v))"

definition json_object_get_name :: "'v json_object \<Rightarrow> nat \<Rightarrow> string option" where
  "json_object_get_name obj index =
     (if json_object_get_count obj \<le> index then None else Some (names obj ! index))"

definition json_object_get_value_at :: "'v json_object \<Rightarrow> nat \<Rightarrow> 'v option" where
  "json_object_get_value_at obj index =
     (if json_object_get_count obj \<le> index then None else Some (item_values obj ! index))"

definition json_object_clear :: "'v json_object \<Rightarrow> 'v json_object" where
  "json_object_clear obj =
     JSON_Object (map (\<lambda>_. None) (cells obj)) [] [] [] [] (item_capacity obj) (cell_capacity obj)"

section \<open>Removal\<close>

text \<open>
  The loop after an item is removed: \<open>i\<close> is the free slot, \<open>j\<close> the slot looked at; an item
  whose home slot \<open>k\<close> does not lie cyclically in \<open>(i, j]\<close> moves back to \<open>i\<close>.
\<close>

fun shift_back ::
    "nat \<Rightarrow> nat \<Rightarrow> 64 word list \<Rightarrow> nat \<Rightarrow> nat \<Rightarrow> nat option list \<Rightarrow> nat list
     \<Rightarrow> (nat \<times> nat option list \<times> nat list) outcome" where
  "shift_back 0 cap hs i j cs ixs = Ret (i, cs, ixs)"
| "shift_back (Suc todo) cap hs i j cs ixs =
     (let j' = slot cap (word_of_nat (j + 1))
      in obind (arr cs j') (\<lambda>c. case c of
           None \<Rightarrow> Ret (i, cs, ixs)
         | Some cell \<Rightarrow>
             obind (arr hs cell) (\<lambda>h.
               let k = slot cap h
               in if (i < j' \<and> (k \<le> i \<or> j' < k)) \<or> (j' < i \<and> k \<le> i \<and> j' < k)
                  then obind (arr_set ixs cell i) (\<lambda>ixs'.
                         obind (arr_set cs i (Some cell)) (\<lambda>cs'.
                           shift_back todo cap hs j' j' cs' ixs'))
                  else shift_back todo cap hs i j' cs ixs)))"

text \<open>The last item takes the place of the removed one, then \<^verbatim>\<open>count--\<close>.\<close>

definition move_last :: "'a list \<Rightarrow> nat \<Rightarrow> 'a list" where
  "move_last xs i = (if i < length xs - 1 then butlast (xs[i := last xs]) else butlast xs)"

definition json_object_remove_internal :: "'v json_object \<Rightarrow> string \<Rightarrow> 'v json_object option outcome" where
  "json_object_remove_internal obj name =
     obind (json_object_get_cell_ix obj name (length name) (hash_string name (length name)))
       (\<lambda>(cell_ix, found).
         if \<not> found then Ret None
         else obind (ub_unless cell_ix) (\<lambda>cell. obind (arr (cells obj) cell) (\<lambda>c.
           obind (ub_unless c) (\<lambda>item_ix.
             let last_item_ix = json_object_get_count obj - 1;
                 ixs = move_last (cell_ixs obj) item_ix;
                 hs = move_last (hashes obj) item_ix
             in obind (if item_ix < last_item_ix
                       then obind (arr ixs item_ix) (\<lambda>ix. arr_set (cells obj) ix (Some item_ix))
                       else Ret (cells obj)) (\<lambda>cs.
                obind (shift_back (cell_capacity obj - 1) (cell_capacity obj) hs cell cell cs ixs)
                  (\<lambda>(i, cs', ixs').
                    obind (arr_set cs' i None) (\<lambda>cs''.
                      Ret (Some (JSON_Object cs'' hs (move_last (names obj) item_ix)
                                   (move_last (item_values obj) item_ix) ixs'
                                   (item_capacity obj) (cell_capacity obj))))))))))"

section \<open>The invariant\<close>

definition items :: "'v json_object \<Rightarrow> (string \<times> 'v) list" where
  "items obj = zip (names obj) (item_values obj)"

text \<open>Slot \<open>ix\<close> is found by probing from \<open>home\<close>: every slot before it is in use.\<close>

definition probe_reaches :: "nat option list \<Rightarrow> nat \<Rightarrow> nat \<Rightarrow> nat \<Rightarrow> bool" where
  "probe_reaches cs cap home ix \<longleftrightarrow>
     (\<exists>d<cap. ix = (home + d) mod cap \<and> (\<forall>d'<d. cs ! ((home + d') mod cap) \<noteq> None))"

definition full_hash :: "string \<Rightarrow> 64 word" where
  "full_hash s = hash_string s (length s)"

definition table_sizes :: "'v json_object \<Rightarrow> bool" where
  "table_sizes obj \<longleftrightarrow>
     length (item_values obj) = length (names obj) \<and> length (cell_ixs obj) = length (names obj)
   \<and> length (cells obj) = cell_capacity obj
   \<and> item_capacity obj = cell_capacity obj * 7 div 10 \<and> length (names obj) \<le> item_capacity obj
   \<and> (cell_capacity obj = 0 \<or> (\<exists>k<32. cell_capacity obj = 2 ^ k))"

definition table_links :: "'v json_object \<Rightarrow> bool" where
  "table_links obj \<longleftrightarrow>
     (\<forall>i<length (names obj). cell_ixs obj ! i < cell_capacity obj
                            \<and> cells obj ! (cell_ixs obj ! i) = Some i)
   \<and> (\<forall>ix<cell_capacity obj. \<forall>i. cells obj ! ix = Some i \<longrightarrow>
        i < length (names obj) \<and> cell_ixs obj ! i = ix)"

definition obj_ok :: "'v json_object \<Rightarrow> bool" where
  "obj_ok obj \<longleftrightarrow>
     table_sizes obj \<and> table_links obj \<and> distinct (names obj)
   \<and> hashes obj = map full_hash (names obj)
   \<and> (\<forall>i<length (names obj). probe_reaches (cells obj) (cell_capacity obj)
          (unat (full_hash (names obj ! i)) mod cell_capacity obj) (cell_ixs obj ! i))"

lemma slot_mod: "k < 64 \<Longrightarrow> slot (2 ^ k) h = unat h mod 2 ^ k"
proof -
  assume "k < 64"
  have "(word_of_nat (2 ^ k) - 1 :: 64 word) = mask k" by (simp add: mask_eq_exp_minus_1)
  then have "slot (2 ^ k) h = unat (take_bit k h)" by (simp add: slot_def take_bit_eq_mask)
  also have "\<dots> = take_bit k (unat h)" by (rule unsigned_take_bit_eq)
  finally show ?thesis by (simp add: take_bit_eq_mod)
qed

lemma slot_of_nat: "k < 64 \<Longrightarrow> slot (2 ^ k) (word_of_nat n) = n mod 2 ^ k"
proof -
  assume k: "k < 64"
  have "(2 :: nat) ^ k dvd 2 ^ 64" using k by (intro le_imp_power_dvd) simp
  then have m: "n mod 2 ^ 64 mod 2 ^ k = n mod 2 ^ k" by (rule mod_mod_cancel)
  have u: "unat (word_of_nat n :: 64 word) = n mod 2 ^ 64"
    by (simp add: unsigned_of_nat take_bit_eq_mod)
  show ?thesis unfolding slot_mod [OF k] u m ..
qed

lemma obj_ok_power:
  assumes "obj_ok obj" and "0 < cell_capacity obj"
  obtains k where "k < 32" "cell_capacity obj = 2 ^ k"
  using assms by (auto simp: obj_ok_def table_sizes_def)

lemma slot_cap:
  assumes "obj_ok obj" and "0 < cell_capacity obj"
  shows "slot (cell_capacity obj) h = unat h mod cell_capacity obj"
    and "slot (cell_capacity obj) (word_of_nat n) = n mod cell_capacity obj"
proof -
  obtain k where k: "k < 32" "cell_capacity obj = 2 ^ k" by (rule obj_ok_power [OF assms])
  then have "k < 64" by simp
  then show "slot (cell_capacity obj) h = unat h mod cell_capacity obj"
    unfolding k(2) by (rule slot_mod)
  show "slot (cell_capacity obj) (word_of_nat n) = n mod cell_capacity obj"
    using \<open>k < 64\<close> unfolding k(2) by (rule slot_of_nat)
qed

lemma obj_ok_fields:
  assumes "obj_ok obj"
  shows "length (hashes obj) = length (names obj)" "length (item_values obj) = length (names obj)"
    "length (cell_ixs obj) = length (names obj)" "length (cells obj) = cell_capacity obj"
    "item_capacity obj = cell_capacity obj * 7 div 10" "length (names obj) \<le> item_capacity obj"
    "distinct (names obj)"
    "\<And>i. i < length (names obj) \<Longrightarrow> hashes obj ! i = full_hash (names obj ! i)"
  using assms by (simp_all add: obj_ok_def table_sizes_def)

lemma obj_ok_links:
  assumes "obj_ok obj"
  shows "i < length (names obj) \<Longrightarrow> cell_ixs obj ! i < cell_capacity obj"
    "i < length (names obj) \<Longrightarrow> cells obj ! (cell_ixs obj ! i) = Some i"
    "ix < cell_capacity obj \<Longrightarrow> cells obj ! ix = Some i \<Longrightarrow> i < length (names obj)"
    "ix < cell_capacity obj \<Longrightarrow> cells obj ! ix = Some i \<Longrightarrow> cell_ixs obj ! i = ix"
  using assms by (simp_all add: obj_ok_def table_links_def)

section \<open>Probing\<close>

lemma mod_add_inj_le:
  fixes c d d' m :: nat
  assumes "(c + d') mod m = (c + d) mod m" and "d' < m" and "d \<le> d'"
  shows "d = d'"
proof -
  have "m dvd (c + d') - (c + d)" using assms mod_eq_dvd_iff_nat [of "c + d" "c + d'" m] by simp
  then have "m dvd d' - d" by simp
  moreover have "d' - d < m" using assms(2) by simp
  ultimately have "d' - d = 0" by (meson dvd_imp_le leD neq0_conv)
  then show ?thesis using assms(3) by simp
qed

lemma mod_add_inj:
  fixes c d d' m :: nat
  assumes "(c + d) mod m = (c + d') mod m" and "d < m" and "d' < m"
  shows "d = d'"
  using mod_add_inj_le [of c d' m d] mod_add_inj_le [of c d m d'] assms by (metis nat_le_linear)

definition stop_here :: "'v json_object \<Rightarrow> string \<Rightarrow> nat \<Rightarrow> bool" where
  "stop_here obj K ix = (case cells obj ! ix of None \<Rightarrow> True | Some i \<Rightarrow> names obj ! i = K)"

lemma probe_runs:
  assumes ok: "obj_ok obj" and cap: "0 < cell_capacity obj"
    and K: "K = take key_len key" "key_len \<le> length key" and h: "h = full_hash K"
    and upto: "\<And>d. i \<le> d \<Longrightarrow> d < m \<Longrightarrow> \<not> stop_here obj K ((c + d) mod cell_capacity obj)"
    and at: "stop_here obj K ((c + m) mod cell_capacity obj)" and m: "i \<le> m" "m < i + todo"
  shows "probe obj key key_len h c i todo
           = Ret (Some ((c + m) mod cell_capacity obj), cells obj ! ((c + m) mod cell_capacity obj) \<noteq> None)"
  using upto m
proof (induction todo arbitrary: i)
  case 0
  then show ?case by simp
next
  case (Suc todo)
  let ?ix = "(c + i) mod cell_capacity obj"
  have ix: "?ix < cell_capacity obj" using cap by simp
  note f = obj_ok_fields(1,4,8) [OF ok] slot_cap(2) [OF ok cap]
  have match: "key_matches key key_len k \<longleftrightarrow> k = K" for k
    using K by (auto simp: key_matches_def)
  show ?case
  proof (cases "i = m")
    case True
    then show ?thesis
    proof (cases "cells obj ! ?ix")
      case None
      then show ?thesis using True ix f by (simp add: Let_def del: of_nat_add)
    next
      case (Some cell)
      then have "cell < length (names obj)" "names obj ! cell = K"
        using obj_ok_links(3) [OF ok ix] at True by (auto simp: stop_here_def)
      then show ?thesis using True ix f Some by (simp add: Let_def match h del: of_nat_add)
    qed
  next
    case False
    then have lt: "i < m" using Suc.prems(2) by simp
    then have "\<not> stop_here obj K ?ix" using Suc.prems(1) by blast
    then obtain cell where c: "cells obj ! ?ix = Some cell" "names obj ! cell \<noteq> K"
      by (auto simp: stop_here_def split: option.splits)
    then have "cell < length (names obj)" using obj_ok_links(3) [OF ok ix] by blast
    moreover have "probe obj key key_len h c (Suc i) todo
        = Ret (Some ((c + m) mod cell_capacity obj), cells obj ! ((c + m) mod cell_capacity obj) \<noteq> None)"
      using Suc.prems lt by (intro Suc.IH) auto
    ultimately show ?thesis using c ix f by (auto simp: Let_def match simp del: of_nat_add)
  qed
qed

text \<open>A stored key is found in its slot.\<close>

lemma get_cell_ix_found:
  assumes ok: "obj_ok obj" and i: "i < length (names obj)" and K: "names obj ! i = take key_len key"
    and len: "key_len \<le> length key"
  shows "json_object_get_cell_ix obj key key_len (full_hash (take key_len key))
           = Ret (Some (cell_ixs obj ! i), True)"
proof -
  let ?K = "take key_len key"
  let ?cap = "cell_capacity obj"
  let ?c = "unat (full_hash ?K) mod ?cap"
  have cap: "0 < ?cap" using obj_ok_links(1) [OF ok i] by simp
  have "probe_reaches (cells obj) ?cap ?c (cell_ixs obj ! i)"
    using ok i K by (auto simp: obj_ok_def)
  then obtain d where d: "d < ?cap" "cell_ixs obj ! i = (?c + d) mod ?cap"
      and occ: "\<And>d'. d' < d \<Longrightarrow> cells obj ! ((?c + d') mod ?cap) \<noteq> None"
    by (auto simp: probe_reaches_def)
  have "\<not> stop_here obj ?K ((?c + d') mod ?cap)" if "d' < d" for d'
  proof -
    obtain j where j: "cells obj ! ((?c + d') mod ?cap) = Some j" using occ [OF \<open>d' < d\<close>] by (cases "cells obj ! ((?c + d') mod ?cap)") auto
    have lt: "(?c + d') mod ?cap < ?cap" using cap by simp
    have "j < length (names obj)" "cell_ixs obj ! j = (?c + d') mod ?cap"
      using obj_ok_links(3,4) [OF ok lt j] .
    moreover have "(?c + d') mod ?cap \<noteq> (?c + d) mod ?cap"
      using mod_add_inj [of ?c d' ?cap d] that d(1) by auto
    ultimately have "names obj ! j \<noteq> names obj ! i"
      using obj_ok_fields(7) [OF ok] i d(2) by (auto simp: nth_eq_iff_index_eq)
    then show ?thesis using j K by (simp add: stop_here_def)
  qed
  moreover have at: "cells obj ! ((?c + d) mod ?cap) = Some i"
    using obj_ok_links(2) [OF ok i] d(2) by simp
  moreover have "stop_here obj ?K ((?c + d) mod ?cap)" using at K by (simp add: stop_here_def)
  ultimately show ?thesis
    using probe_runs [OF ok cap refl len refl, of 0 d ?c ?cap] d slot_cap(1) [OF ok cap]
    by (simp add: json_object_get_cell_ix_def)
qed

lemma free_slot_exists:
  assumes ok: "obj_ok obj" and cap: "0 < cell_capacity obj"
  shows "\<exists>ix<cell_capacity obj. cells obj ! ix = None"
proof (rule ccontr)
  let ?cap = "cell_capacity obj"
  assume none: "\<not> (\<exists>ix<?cap. cells obj ! ix = None)"
  have all: "cells obj ! ix \<noteq> None" if "ix < ?cap" for ix using none that by auto
  have "(\<lambda>ix. the (cells obj ! ix)) ` {..<?cap} \<subseteq> {..<length (names obj)}"
    using all obj_ok_links(3) [OF ok] by fastforce
  moreover have "inj_on (\<lambda>ix. the (cells obj ! ix)) {..<?cap}"
    using all obj_ok_links(4) [OF ok] by (intro inj_onI) (metis lessThan_iff option.collapse)
  ultimately have "?cap \<le> length (names obj)" by (metis card_inj_on_le card_lessThan finite_lessThan)
  moreover have "length (names obj) \<le> ?cap * 7 div 10" using obj_ok_fields(5,6) [OF ok] by simp
  moreover have "?cap * 7 div 10 < ?cap" using cap by simp
  ultimately show False by simp
qed

text \<open>An absent key leads to a free slot that probing reaches.\<close>

lemma get_cell_ix_absent:
  assumes ok: "obj_ok obj" and K: "take key_len key \<notin> set (names obj)" and len: "key_len \<le> length key"
    and cap: "0 < cell_capacity obj"
  obtains ix where "json_object_get_cell_ix obj key key_len (full_hash (take key_len key)) = Ret (Some ix, False)"
    "ix < cell_capacity obj" "cells obj ! ix = None"
    "probe_reaches (cells obj) (cell_capacity obj)
        (unat (full_hash (take key_len key)) mod cell_capacity obj) ix"
proof -
  let ?K = "take key_len key"
  let ?cap = "cell_capacity obj"
  let ?c = "unat (full_hash ?K) mod ?cap"
  obtain f where f: "f < ?cap" "cells obj ! f = None" using free_slot_exists [OF ok cap] by blast
  have "(?c + (f + ?cap - ?c) mod ?cap) mod ?cap = (?c + (f + ?cap - ?c)) mod ?cap" by presburger
  also have "?c + (f + ?cap - ?c) = f + ?cap" using cap by (simp add: trans_le_add2)
  also have "(f + ?cap) mod ?cap = f" using f(1) by simp
  finally have free: "cells obj ! ((?c + (f + ?cap - ?c) mod ?cap) mod ?cap) = None" using f by simp
  define d where "d = (LEAST d. cells obj ! ((?c + d) mod ?cap) = None)"
  have d: "cells obj ! ((?c + d) mod ?cap) = None" unfolding d_def by (rule LeastI, rule free)
  have below: "cells obj ! ((?c + d') mod ?cap) \<noteq> None" if "d' < d" for d'
    using that not_less_Least unfolding d_def by blast
  have "d \<le> (f + ?cap - ?c) mod ?cap" unfolding d_def by (rule Least_le, rule free)
  then have lt: "d < ?cap" using cap by (meson le_less_trans mod_less_divisor)
  have "\<not> stop_here obj ?K ((?c + d') mod ?cap)" if "d' < d" for d'
  proof -
    obtain j where j: "cells obj ! ((?c + d') mod ?cap) = Some j" using below [OF \<open>d' < d\<close>] by (cases "cells obj ! ((?c + d') mod ?cap)") auto
    then have "j < length (names obj)" using obj_ok_links(3) [OF ok _ j] cap by simp
    then show ?thesis using j K by (simp add: stop_here_def) (metis nth_mem)
  qed
  moreover have "stop_here obj ?K ((?c + d) mod ?cap)" using d by (simp add: stop_here_def)
  ultimately have "json_object_get_cell_ix obj key key_len (full_hash ?K) = Ret (Some ((?c + d) mod ?cap), False)"
    using probe_runs [OF ok cap refl len refl, of 0 d ?c ?cap] lt d slot_cap(1) [OF ok cap]
    by (simp add: json_object_get_cell_ix_def)
  then show thesis
    using d lt below cap by (intro that [of "(?c + d) mod ?cap"]) (auto simp: probe_reaches_def)
qed

lemma get_cell_ix_empty:
  "cell_capacity obj = 0 \<Longrightarrow> json_object_get_cell_ix obj key key_len h = Ret (None, False)"
  by (simp add: json_object_get_cell_ix_def)


section \<open>Storing\<close>

lemma probe_reaches_update:
  assumes "probe_reaches cs cap home ix'" and "length cs = cap"
  shows "probe_reaches (cs[ix := Some v]) cap home ix'"
proof -
  have "cs[ix := Some v] ! ((home + d') mod cap) \<noteq> None" if "0 < cap" "cs ! ((home + d') mod cap) \<noteq> None" for d'
    using that assms(2) by (cases "ix = (home + d') mod cap") auto
  then show ?thesis using assms(1) unfolding probe_reaches_def by (metis gr_implies_not0 neq0_conv)
qed

lemma store_item_ok:
  assumes ok: "obj_ok obj" and new: "name \<notin> set (names obj)"
    and room: "length (names obj) < item_capacity obj"
    and ix: "ix < cell_capacity obj" "cells obj ! ix = None"
    and reach: "probe_reaches (cells obj) (cell_capacity obj) (unat (full_hash name) mod cell_capacity obj) ix"
  obtains obj' where "store_item obj (Some ix) (full_hash name) name v = Ret obj'" "obj_ok obj'"
    "items obj' = items obj @ [(name, v)]" "names obj' = names obj @ [name]"
    "cell_capacity obj' = cell_capacity obj"
proof -
  let ?n = "length (names obj)"
  let ?o = "JSON_Object ((cells obj)[ix := Some ?n]) (hashes obj @ [full_hash name]) (names obj @ [name])
              (item_values obj @ [v]) (cell_ixs obj @ [ix]) (item_capacity obj) (cell_capacity obj)"
  note f = obj_ok_fields [OF ok] and l = obj_ok_links [OF ok]
  have st: "store_item obj (Some ix) (full_hash name) name v = Ret ?o"
    using room ix f by (simp add: store_item_def json_object_get_count_def)
  have "table_sizes ?o" using ok room by (simp add: obj_ok_def table_sizes_def)
  moreover have "table_links ?o"
    unfolding table_links_def
  proof (intro conjI allI impI)
    fix i assume i: "i < length (names ?o)"
    show "cell_ixs ?o ! i < cell_capacity ?o"
      using i l(1) ix(1) f(3) by (auto simp: nth_append less_Suc_eq)
    show "cells ?o ! (cell_ixs ?o ! i) = Some i"
      using i l(1,2) ix f(3,4) by (auto simp: nth_append less_Suc_eq nth_list_update)
  next
    fix ix' i assume ix': "ix' < cell_capacity ?o" and c: "cells ?o ! ix' = Some i"
    show "i < length (names ?o)" using ix' c l(3) ix(1) f(4)
      by (cases "ix' = ix") (auto simp: less_SucI)
    show "cell_ixs ?o ! i = ix'" using ix' c l(3,4) ix(1) f(3,4)
      by (cases "ix' = ix") (auto simp: nth_append)
  qed
  moreover have "\<forall>i<length (names ?o). probe_reaches (cells ?o) (cell_capacity ?o)
      (unat (full_hash (names ?o ! i)) mod cell_capacity ?o) (cell_ixs ?o ! i)"
    using ok reach f(3,4) by (auto simp: obj_ok_def nth_append less_Suc_eq intro!: probe_reaches_update)
  ultimately have "obj_ok ?o" using ok new by (simp add: obj_ok_def)
  then show thesis using st f by (intro that [of ?o]) (simp_all add: items_def)
qed

text \<open>Adding an absent key to an object with room needs no growth.\<close>

lemma store_absent:
  assumes ok: "obj_ok obj" and new: "name \<notin> set (names obj)"
    and room: "length (names obj) < item_capacity obj"
  obtains ix obj' where "json_object_get_cell_ix obj name (length name) (full_hash name) = Ret (Some ix, False)"
    "store_item obj (Some ix) (full_hash name) name v = Ret obj'" "obj_ok obj'"
    "items obj' = items obj @ [(name, v)]" "names obj' = names obj @ [name]"
    "cell_capacity obj' = cell_capacity obj"
proof -
  have "0 < cell_capacity obj" using room obj_ok_fields(5) [OF ok] by (cases "cell_capacity obj") auto
  then obtain ix where "json_object_get_cell_ix obj name (length name) (full_hash name) = Ret (Some ix, False)"
    "ix < cell_capacity obj" "cells obj ! ix = None"
    "probe_reaches (cells obj) (cell_capacity obj) (unat (full_hash name) mod cell_capacity obj) ix"
    using get_cell_ix_absent [OF ok, of "length name" name] new by auto
  then show thesis using store_item_ok [OF ok new room, of ix v] that by blast
qed

lemma get_cell_ix_absent_any:
  assumes ok: "obj_ok obj" and new: "name \<notin> set (names obj)"
  obtains ix where "json_object_get_cell_ix obj name (length name) (full_hash name) = Ret (ix, False)"
proof (cases "cell_capacity obj = 0")
  case True
  then show thesis using that get_cell_ix_empty by blast
next
  case False
  then show thesis using get_cell_ix_absent [OF ok, of "length name" name] new that by auto
qed

section \<open>Lookup\<close>

lemma getn_value_map:
  assumes ok: "obj_ok obj" and len: "n \<le> length name"
  shows "json_object_getn_value obj name n = Ret (map_of (items obj) (take n name))"
proof -
  note f = obj_ok_fields [OF ok]
  have h: "hash_string name n = full_hash (take n name)" using len by (simp add: full_hash_def hash_string_def)
  show ?thesis
  proof (cases "take n name \<in> set (names obj)")
    case True
    then obtain i where i: "i < length (names obj)" "names obj ! i = take n name" by (auto simp: in_set_conv_nth)
    have "map_of (items obj) (take n name) = Some (item_values obj ! i)"
      using i f(2,7) map_of_zip_nth [of "names obj" "item_values obj" i] by (simp add: items_def)
    then show ?thesis
      using get_cell_ix_found [OF ok i len] i f obj_ok_links(1,2) [OF ok i(1)]
      by (simp add: json_object_getn_value_def h)
  next
    case False
    have none: "map_of (items obj) (take n name) = None" using False f(2) by (simp add: items_def map_of_zip_is_None)
    show ?thesis
    proof (cases "cell_capacity obj = 0")
      case True
      then show ?thesis using none by (simp add: json_object_getn_value_def get_cell_ix_empty)
    next
      case cap: False
      obtain ix where "json_object_get_cell_ix obj name n (full_hash (take n name)) = Ret (Some ix, False)"
        using get_cell_ix_absent [OF ok False len] cap by auto
      then show ?thesis using none by (simp add: json_object_getn_value_def h)
    qed
  qed
qed

section \<open>Adding\<close>

lemma add_present:
  assumes "obj_ok obj" and "name \<in> set (names obj)"
  shows "json_object_add_fuel (Suc k) mok obj name v = Ret None"
proof -
  obtain i where "i < length (names obj)" "names obj ! i = name" using assms(2) by (auto simp: in_set_conv_nth)
  then show ?thesis
    using get_cell_ix_found [OF assms(1), of i "length name" name]
    by (simp add: add_step_def Let_def full_hash_def [symmetric])
qed

lemma add_with_room:
  assumes ok: "obj_ok obj" and new: "name \<notin> set (names obj)"
    and room: "length (names obj) < item_capacity obj"
  obtains obj' where "json_object_add_fuel (Suc k) mok obj name v = Ret (Some obj')" "obj_ok obj'"
    "items obj' = items obj @ [(name, v)]" "names obj' = names obj @ [name]"
    "cell_capacity obj' = cell_capacity obj"
proof -
  obtain ix obj' where *: "json_object_get_cell_ix obj name (length name) (full_hash name) = Ret (Some ix, False)"
    "store_item obj (Some ix) (full_hash name) name v = Ret obj'" "obj_ok obj'"
    "items obj' = items obj @ [(name, v)]" "names obj' = names obj @ [name]"
    "cell_capacity obj' = cell_capacity obj"
    by (rule store_absent [OF ok new room, where v = v])
  have "json_object_add_fuel (Suc k) mok obj name v = Ret (Some obj')"
    using room *(1,2) by (simp add: add_step_def Let_def full_hash_def [symmetric] json_object_get_count_def)
  then show thesis using that * by blast
qed

text \<open>Without growth, an object is a strict store with the room its item arrays have left.\<close>

definition get_by_name :: "'v json_object \<Rightarrow> string \<Rightarrow> 'v option outcome" where
  "get_by_name obj name = json_object_getn_value obj name (length name)"

lemma fst_items: "obj_ok obj \<Longrightarrow> map fst (items obj) = names obj"
  by (simp add: items_def obj_ok_fields(2))

lemma keys_items: "obj_ok obj \<Longrightarrow> fst ` set (items obj) = set (names obj)"
  by (metis fst_items set_map)

lemma length_items: "obj_ok obj \<Longrightarrow> length (items obj) = length (names obj)"
  by (simp add: items_def obj_ok_fields(2))

interpretation rehash: strict_store "json_object_add_fuel (Suc k) mok" get_by_name items
    "\<lambda>obj. obj_ok obj \<and> cell_capacity obj = c" "\<lambda>obj. item_capacity obj - length (names obj)" "\<lambda>_. True"
  for k mok c
proof (unfold_locales, goal_cases)
  case (1 s k) then show ?case using getn_value_map [of s "length k" k] by (simp add: get_by_name_def)
next
  case (2 s) then show ?case by (simp add: fst_items obj_ok_fields(7))
next
  case (3 s n v)
  then have ok: "obj_ok s" and new: "n \<notin> set (names s)" and room: "length (names s) < item_capacity s"
    by (simp_all add: keys_items)
  obtain s' where s': "json_object_add_fuel (Suc k) mok s n v = Ret (Some s')" "obj_ok s'"
    "items s' = items s @ [(n, v)]" "names s' = names s @ [n]" "cell_capacity s' = cell_capacity s"
    by (rule add_with_room [OF ok new room, where v = v])
  then show ?case
    using 3(1) obj_ok_fields(5) [OF ok] obj_ok_fields(5) [OF s'(2)] by (intro exI [of _ s']) auto
next
  case (4 s n v) then show ?case by (intro add_present) (simp_all add: keys_items)
qed

text \<open>
  What is assumed of \<^verbatim>\<open>malloc\<close>: it never serves 32 GiB or more, so that capacities stay below
  \<open>2^32\<close>, where the \<^verbatim>\<open>unsigned int\<close> capacity and loop counters are exact.
\<close>

definition mem_limited :: "(nat \<Rightarrow> bool) \<Rightarrow> bool" where
  "mem_limited mok \<longleftrightarrow> (\<forall>n. mok n \<longrightarrow> n < 2 ^ 35)"

definition grown_capacity :: "'v json_object \<Rightarrow> nat" where
  "grown_capacity obj = max (cell_capacity obj * 2) STARTING_CAPACITY"

definition can_grow :: "(nat \<Rightarrow> bool) \<Rightarrow> 'v json_object \<Rightarrow> bool" where
  "can_grow mok obj \<longleftrightarrow> mok (grown_capacity obj * 8) \<and> mok (grown_capacity obj * 7 div 10 * 8)"

lemma grown_capacity_power:
  assumes "obj_ok obj" and "grown_capacity obj < 2 ^ 32"
  shows "\<exists>k<32. grown_capacity obj = 2 ^ k"
proof (cases "cell_capacity obj * 2 \<le> 16")
  case True
  then have "grown_capacity obj = 2 ^ 4" by (simp add: grown_capacity_def STARTING_CAPACITY_def)
  then show ?thesis by (intro exI [of _ 4]) simp
next
  case False
  then have g: "grown_capacity obj = cell_capacity obj * 2" and "0 < cell_capacity obj"
    by (auto simp: grown_capacity_def STARTING_CAPACITY_def)
  then obtain k where k: "cell_capacity obj = 2 ^ k" by (metis obj_ok_power [OF assms(1)])
  then have "2 ^ Suc k < (2 :: nat) ^ 32" using assms(2) g by simp
  then have "Suc k < 32" by (rule power_less_imp_less_exp [rotated]) simp
  then show ?thesis using g k by (intro exI [of _ "Suc k"]) simp
qed

lemma init_ok:
  assumes "c = 2 ^ k" and "k < 32" and "mok (c * 8)" and "mok (c * 7 div 10 * 8)"
  obtains obj :: "'v json_object" where "json_object_init mok c = Some obj" "obj_ok obj" "names obj = []"
    "items obj = []" "cell_capacity obj = c" "item_capacity obj = c * 7 div 10"
proof -
  let ?o = "JSON_Object (replicate c None) [] [] [] [] (c * 7 div 10) c :: 'v json_object"
  have "c \<le> 2 ^ 31" using assms(1,2) power_increasing [of k 31 "2 :: nat"] by simp
  then have "c * 7 div 10 < 2 ^ 32" by simp
  then have "json_object_init mok c = Some ?o"
    using assms by (simp add: json_object_init_def Let_def)
  moreover have "obj_ok ?o"
    using assms(1,2) by (auto simp: obj_ok_def table_sizes_def table_links_def)
  ultimately show thesis by (intro that [of ?o]) (simp_all add: items_def)
qed

lemma grow_ok:
  fixes obj :: "'v json_object"
  assumes ok: "obj_ok obj" and lim: "mem_limited mok" and grow: "can_grow mok obj"
    and full: "item_capacity obj \<le> length (names obj)"
  obtains obj' where "grow_step mok (json_object_add_fuel (Suc k) mok) obj = Ret (Some obj')" "obj_ok obj'"
    "items obj' = items obj" "names obj' = names obj" "cell_capacity obj' = grown_capacity obj"
    "length (names obj') < item_capacity obj'"
proof -
  let ?c = "grown_capacity obj"
  note f = obj_ok_fields [OF ok]
  have "?c * 8 < 2 ^ 35" using lim grow by (auto simp: mem_limited_def can_grow_def)
  then have "?c < 2 ^ 32" by simp
  then obtain j where j: "j < 32" "?c = 2 ^ j" using grown_capacity_power [OF ok] by blast
  obtain o0 :: "'v json_object" where o0: "json_object_init mok ?c = Some o0" "obj_ok o0" "names o0 = []" "items o0 = []"
    "cell_capacity o0 = ?c" "item_capacity o0 = ?c * 7 div 10"
    using grow j by (elim init_ok [of ?c j mok]) (simp_all add: can_grow_def)
  have "cell_capacity obj * 2 \<le> ?c" "16 \<le> ?c" by (simp_all add: grown_capacity_def STARTING_CAPACITY_def)
  then have room: "length (names obj) < ?c * 7 div 10" using f(5,6) by linarith
  have "distinct (map fst (items o0 @ items obj))" using f(7) o0(4) by (simp add: fst_items [OF ok])
  then obtain o1 where o1: "add_items (json_object_add_fuel (Suc k) mok) o0 (items obj) = Ret (Some o1)"
      "obj_ok o1" "items o1 = items obj" "cell_capacity o1 = ?c"
    using rehash.put_all_new [of o0 ?c "items obj" k mok] o0 room
    by (auto simp: length_items [OF ok] list_all_iff simp del: json_object_add_fuel.simps)
  have "names o1 = names obj" using o1(3) fst_items [OF o1(2)] fst_items [OF ok] by simp
  then show thesis
    using o0 o1 room obj_ok_fields(5) [OF o1(2)]
    by (intro that [of o1])
      (simp_all add: grow_step_def grown_capacity_def [symmetric] items_def [symmetric] Let_def)
qed

lemma grow_fails:
  fixes obj :: "'v json_object"
  assumes "mem_limited mok" and "\<not> can_grow mok obj"
  shows "grow_step mok add obj = Ret None"
proof -
  let ?c = "grown_capacity obj"
  have "(json_object_init mok ?c :: 'v json_object option) = None"
  proof (cases "mok (?c * 8)")
    case True
    then have "?c * 8 < 2 ^ 35" using assms(1) by (auto simp: mem_limited_def)
    then have "?c * 7 div 10 < 2 ^ 32" by simp
    then show ?thesis using assms(2) True
      by (auto simp: json_object_init_def can_grow_def Let_def grown_capacity_def STARTING_CAPACITY_def)
  next
    case False
    then show ?thesis by (auto simp: json_object_init_def Let_def grown_capacity_def STARTING_CAPACITY_def)
  qed
  then show ?thesis by (simp add: grow_step_def grown_capacity_def [symmetric] Let_def)
qed

text \<open>\<^verbatim>\<open>json_object_add\<close>, for any bound of at least two nested calls.\<close>

lemma add_fuel_absent:
  assumes ok: "obj_ok obj" and lim: "mem_limited mok" and new: "name \<notin> set (names obj)"
    and mem: "length (names obj) < item_capacity obj \<or> can_grow mok obj"
  obtains obj' where "json_object_add_fuel (Suc (Suc k)) mok obj name v = Ret (Some obj')" "obj_ok obj'"
    "items obj' = items obj @ [(name, v)]" "names obj' = names obj @ [name]"
    "cell_capacity obj' = (if length (names obj) < item_capacity obj then cell_capacity obj else grown_capacity obj)"
proof (cases "length (names obj) < item_capacity obj")
  case True
  then show thesis using add_with_room [OF ok new True, of "Suc k" mok v] that by metis
next
  case False
  then have grow: "can_grow mok obj" and full: "item_capacity obj \<le> length (names obj)" using mem by auto
  obtain ix where ix: "json_object_get_cell_ix obj name (length name) (full_hash name) = Ret (ix, False)"
    by (rule get_cell_ix_absent_any [OF ok new])
  obtain o1 where o1: "grow_step mok (json_object_add_fuel (Suc k) mok) obj = Ret (Some o1)" "obj_ok o1"
    "items o1 = items obj" "names o1 = names obj" "cell_capacity o1 = grown_capacity obj"
    "length (names o1) < item_capacity o1"
    by (rule grow_ok [OF ok lim grow full])
  obtain ix' o2 where o2: "json_object_get_cell_ix o1 name (length name) (full_hash name) = Ret (Some ix', False)"
    "store_item o1 (Some ix') (full_hash name) name v = Ret o2" "obj_ok o2"
    "items o2 = items o1 @ [(name, v)]" "names o2 = names o1 @ [name]" "cell_capacity o2 = cell_capacity o1"
    using store_absent [OF o1(2) _ o1(6), of name v] new o1(4) by metis
  have "json_object_add_fuel (Suc (Suc k)) mok obj name v = Ret (Some o2)"
    unfolding json_object_add_fuel.simps(2) [of "Suc k"]
    using full ix o1(1) o2(1,2)
    by (simp del: json_object_add_fuel.simps
        add: add_step_def Let_def full_hash_def [symmetric] json_object_get_count_def)
  then show thesis using that [of o2] o1 o2 False by simp
qed

lemma add_items_cong_ok:
  assumes "obj_ok obj" and "distinct (map fst (items obj @ kvs))"
    and "length (items obj) + length kvs \<le> item_capacity obj"
  shows "add_items (json_object_add_fuel (Suc k) mok) obj kvs = add_items (json_object_add_fuel (Suc 0) mok) obj kvs"
  using assms
proof (induction kvs arbitrary: obj)
  case (Cons kv kvs)
  obtain n v where kv: "kv = (n, v)" by (cases kv)
  have new: "n \<notin> set (names obj)" and room: "length (names obj) < item_capacity obj"
    using Cons.prems by (auto simp: kv fst_items keys_items length_items)
  obtain ix o1 where *: "json_object_get_cell_ix obj n (length n) (full_hash n) = Ret (Some ix, False)"
    "store_item obj (Some ix) (full_hash n) n v = Ret o1" "obj_ok o1"
    "items o1 = items obj @ [(n, v)]" "names o1 = names obj @ [n]" "cell_capacity o1 = cell_capacity obj"
    by (rule store_absent [OF Cons.prems(1) new room, where v = v])
  have both: "json_object_add_fuel (Suc j) mok obj n v = Ret (Some o1)" for j
    using room *(1,2) by (simp add: add_step_def Let_def full_hash_def [symmetric] json_object_get_count_def)
  have "item_capacity o1 = item_capacity obj"
    using obj_ok_fields(5) [OF *(3)] obj_ok_fields(5) [OF Cons.prems(1)] *(6) by simp
  then have "add_items (json_object_add_fuel (Suc k) mok) o1 kvs = add_items (json_object_add_fuel (Suc 0) mok) o1 kvs"
    using Cons.prems *(3,4) by (intro Cons.IH) (auto simp: kv)
  then show ?case using both [of k] both [of 0] by (simp add: kv del: json_object_add_fuel.simps)
qed simp

lemma grow_deeper:
  fixes obj :: "'v json_object"
  assumes ok: "obj_ok obj" and lim: "mem_limited mok"
  shows "grow_step mok (json_object_add_fuel (Suc k) mok) obj = grow_step mok (json_object_add_fuel (Suc 0) mok) obj"
proof (cases "can_grow mok obj")
  case True
  let ?c = "grown_capacity obj"
  note f = obj_ok_fields [OF ok]
  have "?c * 8 < 2 ^ 35" using lim True by (auto simp: mem_limited_def can_grow_def)
  then have "?c < 2 ^ 32" by simp
  then obtain j where j: "j < 32" "?c = 2 ^ j" using grown_capacity_power [OF ok] by blast
  obtain o0 :: "'v json_object" where o0: "json_object_init mok ?c = Some o0" "obj_ok o0" "names o0 = []"
    "items o0 = []" "cell_capacity o0 = ?c" "item_capacity o0 = ?c * 7 div 10"
    using True j by (elim init_ok [of ?c j mok]) (simp_all add: can_grow_def)
  have "cell_capacity obj \<le> ?c" by (simp add: grown_capacity_def)
  then have "cell_capacity obj * 7 div 10 \<le> ?c * 7 div 10" by (intro div_le_mono) simp
  then have "length (items obj) \<le> item_capacity o0" using f(5,6) o0(6) by (simp add: length_items [OF ok])
  then show ?thesis
    using o0 add_items_cong_ok [OF o0(2), of "items obj" k mok] f(7)
    by (simp add: grow_step_def grown_capacity_def [symmetric] items_def [symmetric] Let_def fst_items [OF ok]
        del: json_object_add_fuel.simps)
qed (simp add: grow_fails [OF lim] del: json_object_add_fuel.simps)

lemma add_fuel_deeper:
  assumes ok: "obj_ok obj" and lim: "mem_limited mok" and "name \<notin> set (names obj)"
    and "length (names obj) < item_capacity obj \<or> can_grow mok obj"
    and two: "json_object_add_fuel (Suc (Suc 0)) mok obj name v = Ret (Some o')"
  shows "json_object_add_fuel (Suc (Suc k)) mok obj name v = Ret (Some o')"
proof -
  have "json_object_add_fuel (Suc (Suc k)) mok obj name v = json_object_add_fuel (Suc (Suc 0)) mok obj name v"
    unfolding json_object_add_fuel.simps(2) [of "Suc k"] json_object_add_fuel.simps(2) [of "Suc 0"]
    unfolding add_step_def grow_deeper [OF ok lim, of k] ..
  then show ?thesis using two by simp
qed

lemma add_fuel_fails:
  assumes ok: "obj_ok obj" and lim: "mem_limited mok" and new: "name \<notin> set (names obj)"
    and mem: "item_capacity obj \<le> length (names obj)" "\<not> can_grow mok obj"
  shows "json_object_add_fuel (Suc (Suc k)) mok obj name v = Ret None"
proof -
  obtain ix where "json_object_get_cell_ix obj name (length name) (full_hash name) = Ret (ix, False)"
    by (rule get_cell_ix_absent_any [OF ok new])
  then show ?thesis
    unfolding json_object_add_fuel.simps(2) [of "Suc k"]
    using mem grow_fails [OF lim mem(2)]
    by (simp del: json_object_add_fuel.simps
        add: add_step_def Let_def full_hash_def [symmetric] json_object_get_count_def)
qed
section \<open>Adding and setting under a memory budget\<close>

text \<open>\<open>serves mok n\<close>: requests up to \<open>n\<close> bytes are served, none from 32 GiB.\<close>

definition serves :: "(nat \<Rightarrow> bool) \<Rightarrow> nat \<Rightarrow> bool" where
  "serves mok n \<longleftrightarrow> mem_limited mok \<and> (\<forall>m\<le>n. mok m)"

text \<open>The entries that still fit when at most \<open>n\<close> are planned for.\<close>

definition budget :: "(nat \<Rightarrow> bool) \<Rightarrow> nat \<Rightarrow> 'v json_object \<Rightarrow> nat" where
  "budget mok n obj = (if serves mok (24 * n + 128) then n - length (names obj) else 0)"

lemma budget_posD: "0 < budget mok n obj \<Longrightarrow> serves mok (24 * n + 128) \<and> length (names obj) < n"
  by (auto simp: budget_def split: if_splits)

lemma budget_Suc:
  "length (names obj') = Suc (length (names obj)) \<Longrightarrow> budget mok n obj \<le> Suc (budget mok n obj')"
  by (simp add: budget_def) linarith

lemma budget_can_add:
  assumes "obj_ok obj" and "0 < budget mok n obj"
  shows "mem_limited mok" and "length (names obj) < item_capacity obj \<or> can_grow mok obj"
proof -
  have s: "serves mok (24 * n + 128)" and n: "length (names obj) < n" using budget_posD [OF assms(2)] by auto
  show "mem_limited mok" using s by (simp add: serves_def)
  show "length (names obj) < item_capacity obj \<or> can_grow mok obj"
  proof (cases "length (names obj) < item_capacity obj")
    case False
    then have "cell_capacity obj * 7 div 10 \<le> length (names obj)" using obj_ok_fields(5) [OF assms(1)] by simp
    then have "cell_capacity obj * 2 \<le> 3 * length (names obj) + 3" by linarith
    then have "grown_capacity obj \<le> 3 * n + 16"
      using n by (simp add: grown_capacity_def STARTING_CAPACITY_def)
    then have "grown_capacity obj * 8 \<le> 24 * n + 128" "grown_capacity obj * 7 div 10 * 8 \<le> 24 * n + 128"
      by linarith+
    then show ?thesis using s by (simp add: serves_def can_grow_def)
  qed simp
qed

lemma json_object_add_absent:
  assumes "obj_ok obj" and "name \<notin> set (names obj)" and "0 < budget mok n obj"
  obtains obj' where "json_object_add mok obj name v = Ret (Some obj')" "obj_ok obj'"
    "items obj' = items obj @ [(name, v)]" "names obj' = names obj @ [name]"
  using add_fuel_absent [OF assms(1) budget_can_add(1) [OF assms(1,3)] assms(2) budget_can_add(2) [OF assms(1,3)],
      of 0 v] that
  unfolding json_object_add_def numeral_2_eq_2 by metis

interpretation adds: strict_store "json_object_add mok" get_by_name items obj_ok "budget mok n" "\<lambda>_. True"
  for mok n
proof (unfold_locales, goal_cases)
  case (1 s k) then show ?case using getn_value_map [of s "length k" k] by (simp add: get_by_name_def)
next
  case (2 s) then show ?case by (simp add: fst_items obj_ok_fields(7))
next
  case (3 s k v)
  then have new: "k \<notin> set (names s)" by (simp add: keys_items)
  obtain s' where "json_object_add mok s k v = Ret (Some s')" "obj_ok s'"
    "items s' = items s @ [(k, v)]" "names s' = names s @ [k]"
    by (rule json_object_add_absent [OF 3(1) new 3(3), where v = v])
  then show ?case by (intro exI [of _ s']) (simp add: budget_Suc)
next
  case (4 s k v) then show ?case
    unfolding json_object_add_def numeral_2_eq_2 by (intro add_present) (simp_all add: keys_items)
qed

section \<open>Setting\<close>

text \<open>\<^verbatim>\<open>json_object_set_value\<close> with a fresh value, seen as a store.\<close>

definition set_fresh :: "(nat \<Rightarrow> bool) \<Rightarrow> 'v json_object \<Rightarrow> string \<Rightarrow> 'v \<Rightarrow> 'v json_object option outcome" where
  "set_fresh mok obj k v =
     obind (json_object_set_value mok obj k v False) (\<lambda>(ok, obj'). Ret (if ok then Some obj' else None))"

lemma set_value_present:
  assumes ok: "obj_ok obj" and i: "i < length (names obj)"
  obtains obj' where "json_object_set_value mok obj (names obj ! i) v False = Ret (True, obj')" "obj_ok obj'"
    "names obj' = names obj" "item_values obj' = (item_values obj)[i := v]"
proof -
  let ?o = "JSON_Object (cells obj) (hashes obj) (names obj) ((item_values obj)[i := v]) (cell_ixs obj)
              (item_capacity obj) (cell_capacity obj)"
  note f = obj_ok_fields [OF ok] and l = obj_ok_links [OF ok]
  have "json_object_set_value mok obj (names obj ! i) v False = Ret (True, ?o)"
    using get_cell_ix_found [OF ok i, of "length (names obj ! i)" "names obj ! i"] i f l(1,2) [OF i]
    by (simp add: json_object_set_value_def replace_value_def Let_def full_hash_def)
  moreover have "obj_ok ?o" using ok by (simp add: obj_ok_def table_sizes_def table_links_def)
  ultimately show thesis by (intro that [of ?o]) simp_all
qed

lemma set_value_absent:
  assumes ok: "obj_ok obj" and lim: "mem_limited mok" and new: "name \<notin> set (names obj)"
    and mem: "length (names obj) < item_capacity obj \<or> can_grow mok obj" and key: "mok (length name + 1)"
  obtains obj' where "json_object_set_value mok obj name v False = Ret (True, obj')" "obj_ok obj'"
    "items obj' = items obj @ [(name, v)]" "names obj' = names obj @ [name]"
proof (cases "length (names obj) < item_capacity obj")
  case True
  obtain ix obj' where *: "json_object_get_cell_ix obj name (length name) (full_hash name) = Ret (Some ix, False)"
    "store_item obj (Some ix) (full_hash name) name v = Ret obj'" "obj_ok obj'"
    "items obj' = items obj @ [(name, v)]" "names obj' = names obj @ [name]"
    by (rule store_absent [OF ok new True, where v = v])
  then show thesis using True key
    by (intro that [of obj']) (simp_all add: json_object_set_value_def store_copy_def Let_def full_hash_def
        [symmetric] json_object_get_count_def)
next
  case False
  then have grow: "can_grow mok obj" and full: "item_capacity obj \<le> length (names obj)" using mem by auto
  obtain ix where ix: "json_object_get_cell_ix obj name (length name) (full_hash name) = Ret (ix, False)"
    by (rule get_cell_ix_absent_any [OF ok new])
  obtain o1 where o1: "grow_step mok (json_object_add_fuel (Suc (Suc 0)) mok) obj = Ret (Some o1)" "obj_ok o1"
    "items o1 = items obj" "names o1 = names obj" "cell_capacity o1 = grown_capacity obj"
    "length (names o1) < item_capacity o1"
    by (rule grow_ok [OF ok lim grow full])
  obtain ix' o2 where o2: "json_object_get_cell_ix o1 name (length name) (full_hash name) = Ret (Some ix', False)"
    "store_item o1 (Some ix') (full_hash name) name v = Ret o2" "obj_ok o2"
    "items o2 = items o1 @ [(name, v)]" "names o2 = names o1 @ [name]" "cell_capacity o2 = cell_capacity o1"
    using store_absent [OF o1(2) _ o1(6), of name v] new o1(4) by metis
  have "json_object_set_value mok obj name v False = Ret (True, o2)"
    using full key ix o1(1) o2(1,2)
    by (simp del: json_object_add_fuel.simps add: json_object_set_value_def store_copy_def Let_def
        full_hash_def [symmetric] json_object_get_count_def json_object_grow_and_rehash_def
        json_object_add_def numeral_2_eq_2)
  then show thesis using that [of o2] o1 o2 by simp
qed

lemma items_replaced:
  assumes "obj_ok obj" and "names obj' = names obj" and "item_values obj' = (item_values obj)[i := v]"
    and "i < length (names obj)"
  shows "items obj' = map (\<lambda>(k', w). (k', if k' = names obj ! i then v else w)) (items obj)"
  using assms(2-4) obj_ok_fields(2,7) [OF assms(1)]
  by (intro nth_equalityI) (auto simp: items_def nth_list_update nth_eq_iff_index_eq)

interpretation sets: update_store "set_fresh mok" get_by_name items obj_ok "budget mok n"
    "\<lambda>k. mok (length k + 1)" for mok n
proof (unfold_locales, goal_cases)
  case (1 s k) then show ?case using getn_value_map [of s "length k" k] by (simp add: get_by_name_def)
next
  case (2 s) then show ?case by (simp add: fst_items obj_ok_fields(7))
next
  case (3 s k v)
  then have new: "k \<notin> set (names s)" by (simp add: keys_items)
  obtain s' where "json_object_set_value mok s k v False = Ret (True, s')" "obj_ok s'"
    "items s' = items s @ [(k, v)]" "names s' = names s @ [k]"
    by (rule set_value_absent [OF 3(1) budget_can_add(1) [OF 3(1,3)] new budget_can_add(2) [OF 3(1,3)] 3(4),
          where v = v])
  then show ?case by (intro exI [of _ s']) (simp add: budget_Suc set_fresh_def)
next
  case (4 s k v)
  then obtain i where i: "i < length (names s)" "names s ! i = k" by (auto simp: keys_items in_set_conv_nth)
  obtain s' where s': "json_object_set_value mok s (names s ! i) v False = Ret (True, s')" "obj_ok s'"
    "names s' = names s" "item_values s' = (item_values s)[i := v]"
    by (rule set_value_present [OF 4(1) i(1), where v = v])
  then show ?case
    using items_replaced [OF 4(1) s'(3,4) i(1)] i by (intro exI [of _ s']) (simp add: set_fresh_def)
qed

lemma empty_object:
  "json_object_init mok 0 = Some (JSON_Object [] [] [] [] [] 0 0)"
  "obj_ok (JSON_Object [] [] [] [] [] 0 0)" "items (JSON_Object [] [] [] [] [] 0 0) = []"
  by (simp_all add: json_object_init_def obj_ok_def table_sizes_def table_links_def items_def Let_def)

lemma serves_16G: "n < 2 ^ 34 \<Longrightarrow> serves (\<lambda>m. m < 2 ^ 34) n"
  by (auto simp: serves_def mem_limited_def)

lemma clear_ok:
  assumes "obj_ok obj"
  shows "obj_ok (json_object_clear obj)" and "items (json_object_clear obj) = []"
  using assms by (auto simp: json_object_clear_def obj_ok_def table_sizes_def table_links_def items_def)

section \<open>Properties of the object table\<close>

text \<open>
  C22. \<^verbatim>\<open>json_object_add\<close> on any consistent object, under any allocation failures, never leaves
  the arrays and either fails (\<open>Ret None\<close>) exactly when the key is present or the table is
  full and cannot grow, or appends the entry, keeps every other entry in order and leaves a
  consistent object. One nested call of growth and rehash is enough: any larger bound on the
  nesting gives the same result.
\<close>

theorem object_add_total:
  assumes "obj_ok obj" and "mem_limited mok"
  shows "if name \<in> set (names obj) \<or> (item_capacity obj \<le> length (names obj) \<and> \<not> can_grow mok obj)
         then json_object_add mok obj name v = Ret None
         else \<exists>obj'. json_object_add mok obj name v = Ret (Some obj') \<and> obj_ok obj'
                     \<and> items obj' = items obj @ [(name, v)]
                     \<and> (\<forall>k. json_object_add_fuel (Suc (Suc k)) mok obj name v = Ret (Some obj'))"
proof (cases "name \<in> set (names obj) \<or> (item_capacity obj \<le> length (names obj) \<and> \<not> can_grow mok obj)")
  case True
  then show ?thesis
    using add_present [OF assms(1), of name "Suc 0"] add_fuel_fails [OF assms, of name 0]
    unfolding json_object_add_def numeral_2_eq_2 by auto
next
  case False
  then have new: "name \<notin> set (names obj)"
    and mem: "length (names obj) < item_capacity obj \<or> can_grow mok obj" by auto
  obtain o' where o': "json_object_add_fuel (Suc (Suc 0)) mok obj name v = Ret (Some o')" "obj_ok o'"
    "items o' = items obj @ [(name, v)]"
    using add_fuel_absent [OF assms new mem, of 0 v] by metis
  have "json_object_add_fuel (Suc (Suc k)) mok obj name v = Ret (Some o')" for k
    using add_fuel_deeper [OF assms new mem o'(1)] .
  then show ?thesis using o' False unfolding json_object_add_def numeral_2_eq_2 by auto
qed

theorem object_add_total_witness:
  "\<exists>obj'. json_object_add (\<lambda>m. m < 2 ^ 34) (JSON_Object [] [] [] [] [] 0 0) ''a'' (1 :: nat) = Ret (Some obj')
          \<and> items obj' = [(''a'', 1)]"
proof -
  let ?o = "JSON_Object [] [] [] [] [] 0 0 :: nat json_object"
  have "mem_limited (\<lambda>m. m < 2 ^ 34)" "can_grow (\<lambda>m. m < 2 ^ 34) ?o"
    by (auto simp: mem_limited_def can_grow_def grown_capacity_def STARTING_CAPACITY_def)
  then show ?thesis
    using object_add_total [OF empty_object(2), of "\<lambda>m. m < 2 ^ 34" "''a''" "1 :: nat"] empty_object(3)
    by auto
qed

text \<open>
  C21. A table filled by \<^verbatim>\<open>json_object_add\<close> is the association list of what was added: after
  adding distinct keys to an empty object, through every growth and rehash on the way, the
  entries are in insertion order and \<^verbatim>\<open>json_object_getn_value\<close> finds for every prefix of a
  name exactly the value stored under that prefix, and nothing for any other key.
\<close>

theorem object_filled_is_map:
  fixes kvs :: "(string \<times> 'v) list"
  assumes "distinct (map fst kvs)" and "serves mok (24 * length kvs + 128)"
  shows "\<exists>obj. add_items (json_object_add mok) (JSON_Object [] [] [] [] [] 0 0) kvs = Ret (Some obj)
             \<and> items obj = kvs
             \<and> (\<forall>name n. n \<le> length name \<longrightarrow>
                  json_object_getn_value obj name n = Ret (map_of kvs (take n name)))"
proof -
  let ?o = "JSON_Object [] [] [] [] [] 0 0 :: 'v json_object"
  have "length kvs \<le> budget mok (length kvs) ?o" using assms(2) by (simp add: budget_def)
  then obtain obj where "add_items (json_object_add mok) ?o kvs = Ret (Some obj)" "obj_ok obj" "items obj = kvs"
    using adds.put_all_new [of ?o kvs mok "length kvs"] assms(1)
    by (auto simp: list_all_iff empty_object)
  then show ?thesis using getn_value_map by blast
qed

theorem object_filled_is_map_witness:
  "\<exists>obj. add_items (json_object_add (\<lambda>m. m < 2 ^ 34)) (JSON_Object [] [] [] [] [] 0 0)
            [(''rdi'', 1 :: nat), (''rsi'', 2)] = Ret (Some obj)
       \<and> json_object_getn_value obj ''rsi.x'' 3 = Ret (Some 2)"
proof -
  have "serves (\<lambda>m. m < 2 ^ 34) (24 * length [(''rdi'', 1 :: nat), (''rsi'', 2)] + 128)"
    by (rule serves_16G) simp
  then show ?thesis
    using object_filled_is_map [of "[(''rdi'', 1 :: nat), (''rsi'', 2)]" "\<lambda>m. m < 2 ^ 34"]
    by (auto simp: numeral_3_eq_3)
qed

text \<open>
  \<^verbatim>\<open>json_object_set_value\<close> is map update: after setting a key, looking it up gives the new
  value and every other key what it gave before, whether the key was present (its value is
  replaced in place) or not (it is appended); the object stays consistent.
\<close>

theorem object_set_updates:
  assumes "obj_ok obj" and "0 < budget mok n obj" and "mok (length name + 1)"
  shows "\<exists>obj'. json_object_set_value mok obj name v False = Ret (True, obj') \<and> obj_ok obj'
              \<and> get_by_name obj' name = Ret (Some v)
              \<and> (\<forall>other. other \<noteq> name \<longrightarrow> get_by_name obj' other = get_by_name obj other)"
proof -
  obtain obj' where o': "set_fresh mok obj name v = Ret (Some obj')" "obj_ok obj'"
      "get_by_name obj' name = Ret (Some v)"
      "\<And>other. other \<noteq> name \<Longrightarrow> get_by_name obj' other = get_by_name obj other"
    using sets.get_put [of obj mok n name v] assms by auto
  then have "json_object_set_value mok obj name v False = Ret (True, obj')"
    by (auto simp: set_fresh_def split: if_splits prod.splits elim!: obind_Ret_E)
  then show ?thesis using o' by blast
qed

theorem object_set_updates_witness:
  "\<exists>obj'. json_object_set_value (\<lambda>m. m < 2 ^ 34) (JSON_Object [] [] [] [] [] 0 0) ''pid'' (7 :: nat) False
            = Ret (True, obj') \<and> get_by_name obj' ''pid'' = Ret (Some 7)"
proof -
  have "serves (\<lambda>m. m < 2 ^ 34) (24 * 1 + 128)" by (rule serves_16G) simp
  then have "0 < budget (\<lambda>m. m < 2 ^ 34) 1 (JSON_Object [] [] [] [] [] 0 0 :: nat json_object)"
    by (simp add: budget_def)
  then show ?thesis
    using object_set_updates [OF empty_object(2), of "\<lambda>m. m < 2 ^ 34" 1 "''pid''" 7] by auto
qed

end
