(* ===== verification/Float64.thy ===== *)
theory Float64
  imports Prelude
begin

text \<open>
  The \<^verbatim>\<open>double\<close> values of the program: JSON numbers are read by \<^verbatim>\<open>strtod\<close>, kept as
  \<^verbatim>\<open>double\<close>, cast to integers by the profile parser and printed with \<^verbatim>\<open>"%1.17g"\<close> by the
  serializer. IEEE 754 binary64, round to nearest even, the "C" locale.
  A finite value \<open>Finite s m e\<close> is \<open>(-1)^s * m * 2^e\<close>.
\<close>

section \<open>Values and rounding\<close>

datatype f64 = Finite bool nat int | Inf bool | NaN

definition f64_zero :: f64 where
  "f64_zero = Finite False 0 (-1074)"

fun bitlen :: "nat \<Rightarrow> nat" where
  "bitlen n = (if n = 0 then 0 else Suc (bitlen (n div 2)))"

declare bitlen.simps [simp del]

text \<open>\<open>a / b\<close> to the nearest integer, ties to even.\<close>

definition div_near :: "nat \<Rightarrow> nat \<Rightarrow> nat" where
  "div_near a b =
     (let d = a div b; r = a mod b in if 2 * r < b \<or> (2 * r = b \<and> even d) then d else d + 1)"

definition scale_down :: "nat \<Rightarrow> nat \<Rightarrow> int \<Rightarrow> nat \<times> nat" where
  "scale_down p q e = (if e \<ge> 0 then (p, q * 2 ^ nat e) else (p * 2 ^ nat (- e), q))"

text \<open>The exponent of the last place of \<open>p / q\<close> for a 53-bit significand.\<close>

definition ulp_exponent :: "nat \<Rightarrow> nat \<Rightarrow> int" where
  "ulp_exponent p q =
     (let d = int (bitlen p) - int (bitlen q);
          top = (case scale_down p q d of (a, b) \<Rightarrow> if b \<le> a then d else d - 1)
      in max (-1074) (top - 52))"

definition round_f64 :: "bool \<Rightarrow> nat \<Rightarrow> nat \<Rightarrow> f64" where
  "round_f64 s p q =
     (if p = 0 then Finite s 0 (-1074)
      else let e = ulp_exponent p q;
               m = (case scale_down p q e of (a, b) \<Rightarrow> div_near a b);
               (m', e') = (if m = 2 ^ 53 then (2 ^ 52, e + 1) else (m, e))
           in if e' > 971 then Inf s else Finite s m' e')"

definition f64_of_nat :: "nat \<Rightarrow> f64" where
  "f64_of_nat n = round_f64 False n 1"

definition f64_of_int :: "int \<Rightarrow> f64" where
  "f64_of_int k = round_f64 (k < 0) (nat (abs k)) 1"

text \<open>\<^verbatim>\<open>IS_NUMBER_INVALID\<close>.\<close>

definition is_number_invalid :: "f64 \<Rightarrow> bool" where
  "is_number_invalid x = (case x of Finite _ _ _ \<Rightarrow> False | _ \<Rightarrow> True)"

section \<open>Conversions to integers\<close>

text \<open>Towards zero; undefined behaviour (\<open>None\<close>) when the target type cannot hold the result.\<close>

fun f64_trunc :: "f64 \<Rightarrow> int option" where
  "f64_trunc (Finite s m e) =
     (let k = (if e \<ge> 0 then m * 2 ^ nat e else m div 2 ^ nat (- e)) in Some (if s then - int k else int k))"
| "f64_trunc _ = None"

definition cast_in :: "int \<Rightarrow> int \<Rightarrow> f64 \<Rightarrow> int option" where
  "cast_in lo hi x =
     (case f64_trunc x of None \<Rightarrow> None | Some k \<Rightarrow> if lo \<le> k \<and> k \<le> hi then Some k else None)"

definition cast_int :: "f64 \<Rightarrow> int option" where
  "cast_int = cast_in (- (2 ^ 31)) (2 ^ 31 - 1)"

definition cast_uint :: "f64 \<Rightarrow> int option" where
  "cast_uint = cast_in 0 (2 ^ 32 - 1)"

definition cast_ull :: "f64 \<Rightarrow> int option" where
  "cast_ull = cast_in 0 (2 ^ 64 - 1)"

section \<open>Decimal text\<close>

definition digit_char :: "nat \<Rightarrow> char" where
  "digit_char d = char_of (48 + d mod 10)"

definition digit_val :: "char \<Rightarrow> nat" where
  "digit_val c = of_char c - 48"

fun dec_str :: "nat \<Rightarrow> string" where
  "dec_str n = (if n < 10 then [digit_char n] else dec_str (n div 10) @ [digit_char n])"

declare dec_str.simps [simp del]

definition dec_val :: "string \<Rightarrow> nat" where
  "dec_val s = foldl (\<lambda>n c. n * 10 + digit_val c) 0 s"

section \<open>\<^verbatim>\<open>strtod\<close>\<close>

definition tolower :: "char \<Rightarrow> char" where
  "tolower c = (if 65 \<le> (of_char c :: nat) \<and> (of_char c :: nat) \<le> 90 then char_of ((of_char c :: nat) + 32) else c)"

definition istarts :: "string \<Rightarrow> string \<Rightarrow> bool" where
  "istarts p s = (map tolower (take (length p) s) = p)"

definition xdigit_val :: "char \<Rightarrow> nat option" where
  "xdigit_val c =
     (let n = (of_char c :: nat)
      in if 48 \<le> n \<and> n \<le> 57 then Some (n - 48)
         else if 97 \<le> n \<and> n \<le> 102 then Some (n - 87)
         else if 65 \<le> n \<and> n \<le> 70 then Some (n - 55) else None)"

definition is_xdigit :: "char \<Rightarrow> bool" where
  "is_xdigit c = (xdigit_val c \<noteq> None)"

definition hex_val :: "string \<Rightarrow> nat" where
  "hex_val s = foldl (\<lambda>n c. n * 16 + the (xdigit_val c)) 0 s"

text \<open>An exponent part with marker \<open>mk\<close> (lower case): its value and its length, 0 when absent.\<close>

definition scan_exponent :: "char \<Rightarrow> string \<Rightarrow> int \<times> nat" where
  "scan_exponent mk s =
     (case s of
        [] \<Rightarrow> (0, 0)
      | c # t \<Rightarrow>
          if tolower c \<noteq> mk then (0, 0)
          else let neg = (t \<noteq> [] \<and> hd t = CHR ''-'');
                   sgn = (if t \<noteq> [] \<and> (hd t = CHR ''-'' \<or> hd t = CHR ''+'') then 1 else 0 :: nat);
                   ds = takeWhile isdigit (drop sgn t)
               in if ds = [] then (0, 0)
                  else ((if neg then - int (dec_val ds) else int (dec_val ds)), 1 + sgn + length ds))"

text \<open>A significand with digits \<open>dg\<close>: integer and fraction digits and the length read.\<close>

definition scan_significand :: "(char \<Rightarrow> bool) \<Rightarrow> string \<Rightarrow> string \<times> string \<times> nat" where
  "scan_significand dg s =
     (let a = takeWhile dg s; t = drop (length a) s
      in case t of
           [] \<Rightarrow> (a, [], length a)
         | c # u \<Rightarrow>
             if c = CHR ''.'' then
               (let b = takeWhile dg u
                in if a = [] \<and> b = [] then ([], [], 0) else (a, b, length a + 1 + length b))
             else (a, [], length a))"

text \<open>The fraction \<open>n * base^k\<close> as numerator and denominator.\<close>

definition ratio :: "nat \<Rightarrow> nat \<Rightarrow> int \<Rightarrow> nat \<times> nat" where
  "ratio n base k = (if k \<ge> 0 then (n * base ^ nat k, 1) else (n, base ^ nat (- k)))"

text \<open>Whether \<^verbatim>\<open>errno\<close> becomes \<^verbatim>\<open>ERANGE\<close>: overflow, or a subnormal result that is not exact.\<close>

definition erange :: "nat \<times> nat \<Rightarrow> f64 \<Rightarrow> bool" where
  "erange pq x =
     (case x of
        Finite _ m e \<Rightarrow> e = -1074 \<and> m < 2 ^ 52 \<and> m * snd pq \<noteq> fst pq * 2 ^ 1074
      | _ \<Rightarrow> True)"

definition round_ratio :: "bool \<Rightarrow> nat \<times> nat \<Rightarrow> f64 \<times> bool" where
  "round_ratio s pq = (let x = round_f64 s (fst pq) (snd pq) in (x, erange pq x))"

text \<open>The subject sequence after the sign: value, whether \<^verbatim>\<open>ERANGE\<close>, and the length read.\<close>

definition strtod_decimal :: "bool \<Rightarrow> string \<Rightarrow> (f64 \<times> bool) \<times> nat" where
  "strtod_decimal s t =
     (case scan_significand isdigit t of (a, b, n) \<Rightarrow>
        if n = 0 then ((f64_zero, False), 0)
        else case scan_exponent (CHR ''e'') (drop n t) of (k, n') \<Rightarrow>
          (round_ratio s (ratio (dec_val (a @ b)) 10 (k - int (length b))), n + n'))"

definition strtod_hex :: "bool \<Rightarrow> string \<Rightarrow> (f64 \<times> bool) \<times> nat" where
  "strtod_hex s t =
     (case scan_significand is_xdigit (drop 2 t) of (a, b, n) \<Rightarrow>
        if n = 0 then ((Finite s 0 (-1074), False), 1)
        else case scan_exponent (CHR ''p'') (drop (2 + n) t) of (k, n') \<Rightarrow>
          (round_ratio s (ratio (hex_val (a @ b)) 2 (k - 4 * int (length b))), 2 + n + n'))"

definition nan_length :: "string \<Rightarrow> nat" where
  "nan_length t =
     (let u = drop 3 t;
          w = takeWhile (\<lambda>c. is_xdigit c \<or> c = CHR ''_'' \<or> (97 \<le> (of_char (tolower c) :: nat)
                                 \<and> (of_char (tolower c) :: nat) \<le> 122)) (drop 1 u)
      in if u \<noteq> [] \<and> hd u = CHR ''('' \<and> drop (1 + length w) u \<noteq> []
            \<and> hd (drop (1 + length w) u) = CHR '')''
         then 5 + length w else 3)"

definition strtod_unsigned :: "bool \<Rightarrow> string \<Rightarrow> (f64 \<times> bool) \<times> nat" where
  "strtod_unsigned s t =
     (if istarts ''infinity'' t then ((Inf s, False), 8)
      else if istarts ''inf'' t then ((Inf s, False), 3)
      else if istarts ''nan'' t then ((NaN, False), nan_length t)
      else if istarts ''0x'' t then strtod_hex s t
      else strtod_decimal s t)"

text \<open>Value, \<^verbatim>\<open>ERANGE\<close>, and \<^verbatim>\<open>end - nptr\<close> (0 when nothing is converted).\<close>

definition strtod :: "string \<Rightarrow> (f64 \<times> bool) \<times> nat" where
  "strtod str =
     (let w = length (takeWhile isspace str); t = drop w str;
          neg = (t \<noteq> [] \<and> hd t = CHR ''-'');
          sgn = (if t \<noteq> [] \<and> (hd t = CHR ''-'' \<or> hd t = CHR ''+'') then 1 else 0)
      in case strtod_unsigned neg (drop sgn t) of (r, n) \<Rightarrow>
           if n = 0 then ((f64_zero, False), 0) else (r, w + sgn + n))"

section \<open>\<^verbatim>\<open>"%1.17g"\<close>\<close>

fun declen :: "nat \<Rightarrow> nat" where
  "declen n = (if n = 0 then 0 else Suc (declen (n div 10)))"

declare declen.simps [simp del]

text \<open>The decimal exponent of \<open>p / q\<close>: \<open>10^X \<le> p / q < 10^(X+1)\<close>.\<close>

definition dec_exponent :: "nat \<Rightarrow> nat \<Rightarrow> int" where
  "dec_exponent p q =
     (if q \<le> p then int (declen (p div q)) - 1
      else - int (declen ((q + p - 1) div p - 1)))"

definition strip_zeros :: "string \<Rightarrow> string" where
  "strip_zeros s = rev (dropWhile (\<lambda>c. c = CHR ''0'') (rev s))"

definition with_fraction :: "string \<Rightarrow> string \<Rightarrow> string" where
  "with_fraction a b = (let f = strip_zeros b in if f = [] then a else a @ CHR ''.'' # f)"

definition print_exponent :: "int \<Rightarrow> string" where
  "print_exponent x =
     CHR ''e'' # (if x < 0 then CHR ''-'' else CHR ''+'')
       # (if nat (abs x) < 10 then [CHR ''0''] else []) @ dec_str (nat (abs x))"

text \<open>Seventeen significant digits of \<open>p / q > 0\<close> and their exponent after rounding.\<close>

definition digits17 :: "nat \<Rightarrow> nat \<Rightarrow> nat \<times> int" where
  "digits17 p q =
     (let x = dec_exponent p q;
          d = (if x \<le> 16 then div_near (p * 10 ^ nat (16 - x)) q else div_near p (q * 10 ^ nat (x - 16)))
      in if d = 10 ^ 17 then (10 ^ 16, x + 1) else (d, x))"

definition print_g17_pos :: "nat \<Rightarrow> nat \<Rightarrow> string" where
  "print_g17_pos p q =
     (case digits17 p q of (d, x) \<Rightarrow>
        let s = dec_str d
        in if x < -4 \<or> x \<ge> 17 then with_fraction (take 1 s) (drop 1 s) @ print_exponent x
           else if x \<ge> 0 then with_fraction (take (nat x + 1) s) (drop (nat x + 1) s)
           else with_fraction [CHR ''0''] (replicate (nat (- x) - 1) (CHR ''0'') @ s))"

fun sprintf_g17 :: "f64 \<Rightarrow> string" where
  "sprintf_g17 (Finite s m e) =
     (if s then [CHR ''-''] else []) @
     (if m = 0 then [CHR ''0''] else case ratio m 2 e of (p, q) \<Rightarrow> print_g17_pos p q)"
| "sprintf_g17 (Inf s) = (if s then ''-inf'' else ''inf'')"
| "sprintf_g17 NaN = ''nan''"

section \<open>Integers up to \<open>2^53\<close> are exact\<close>

named_theorems f64_exact \<open>small integers through double arithmetic\<close>

lemma bitlen_0 [simp]: "bitlen 0 = 0"
  by (simp add: bitlen.simps)

lemma bitlen_le_iff: "bitlen n \<le> k \<longleftrightarrow> n < 2 ^ k"
proof (induction k arbitrary: n)
  case 0
  then show ?case by (subst bitlen.simps) simp
next
  case (Suc k)
  have "n < 2 ^ Suc k \<longleftrightarrow> n div 2 < 2 ^ k" by (simp add: div_less_iff_less_mult mult.commute)
  then show ?case using Suc [of "n div 2"] by (subst bitlen.simps) auto
qed

lemma bitlen_bounds:
  assumes "0 < n"
  shows "0 < bitlen n" and "2 ^ (bitlen n - 1) \<le> n" and "n < 2 ^ bitlen n"
proof -
  show b: "0 < bitlen n" using assms by (subst bitlen.simps) simp
  show "2 ^ (bitlen n - 1) \<le> n" using bitlen_le_iff [of n "bitlen n - 1"] b by linarith
  show "n < 2 ^ bitlen n" using bitlen_le_iff [of n "bitlen n"] by simp
qed

lemma bitlen_1 [simp]: "bitlen (Suc 0) = 1"
  by (subst bitlen.simps) simp

lemma div_near_exact [simp]: "0 < b \<Longrightarrow> div_near (a * b) b = a"
  by (simp add: div_near_def Let_def)

lemma div_near_1 [simp]: "div_near a (Suc 0) = a"
  by (simp add: div_near_def Let_def)

lemma ulp_exponent_int:
  assumes "0 < n"
  shows "ulp_exponent n 1 = int (bitlen n) - 53"
  using bitlen_bounds [OF assms] assms
  by (auto simp: ulp_exponent_def scale_down_def Let_def nat_diff_distrib)

lemma round_f64_int:
  assumes "0 < n" and "n < 2 ^ 53"
  shows "round_f64 s n 1 = Finite s (n * 2 ^ (53 - bitlen n)) (int (bitlen n) - 53)"
proof -
  have le: "bitlen n \<le> 53" using assms(2) bitlen_le_iff by blast
  have "n * 2 ^ (53 - bitlen n) < 2 ^ bitlen n * 2 ^ (53 - bitlen n)"
    using bitlen_bounds(3) [OF assms(1)] by simp
  also have "\<dots> = 2 ^ 53" using le by (simp flip: power_add)
  finally have lt: "n * 2 ^ (53 - bitlen n) < 2 ^ 53" .
  have "nat (53 - int (bitlen n)) = 53 - bitlen n" by (simp add: nat_diff_distrib)
  then have m: "(case scale_down n 1 (int (bitlen n) - 53) of (a, b) \<Rightarrow> div_near a b)
                  = n * 2 ^ (53 - bitlen n)"
    using le by (auto simp: scale_down_def)
  show ?thesis
    using assms(1) le lt unfolding round_f64_def ulp_exponent_int [OF assms(1)] m Let_def by simp
qed

lemma f64_trunc_int [f64_exact]:
  assumes "n < 2 ^ 53"
  shows "f64_trunc (round_f64 s n 1) = Some (if s then - int n else int n)"
proof (cases "n = 0")
  case True
  then show ?thesis by (simp add: round_f64_def)
next
  case False
  then have le: "bitlen n \<le> 53" and pos: "0 < n" using assms bitlen_le_iff by auto
  then have "nat (53 - int (bitlen n)) = 53 - bitlen n" by (simp add: nat_diff_distrib)
  then show ?thesis
    using le unfolding round_f64_int [OF pos assms] by (simp add: Let_def)
qed

lemma is_number_invalid_int [f64_exact]: "n < 2 ^ 53 \<Longrightarrow> \<not> is_number_invalid (round_f64 s n 1)"
  using round_f64_int [of n s] by (cases "n = 0") (auto simp: is_number_invalid_def round_f64_def)

lemma casts_exact:
  assumes "n < 2 ^ 53"
  shows "cast_ull (f64_of_nat n) = Some (int n)"
    and "n < 2 ^ 32 \<Longrightarrow> cast_uint (f64_of_nat n) = Some (int n)"
    and "n < 2 ^ 31 \<Longrightarrow> cast_int (f64_of_nat n) = Some (int n)"
  using assms f64_trunc_int [of n False]
  by (auto simp: cast_ull_def cast_uint_def cast_int_def cast_in_def f64_of_nat_def)

section \<open>Decimal digits\<close>

lemma digit_char_digit [simp]: "isdigit (digit_char d)" "digit_val (digit_char d) = d mod 10"
  by (simp_all add: isdigit_def digit_char_def digit_val_def)

lemma dec_val_snoc [simp]: "dec_val (s @ [c]) = dec_val s * 10 + digit_val c"
  by (simp add: dec_val_def)

lemma dec_val_dec_str [simp]: "dec_val (dec_str n) = n"
proof (induction n rule: dec_str.induct)
  case (1 n)
  then show ?case by (subst dec_str.simps) (auto simp: dec_val_def)
qed

lemma dec_str_digits: "list_all isdigit (dec_str n)"
proof (induction n rule: dec_str.induct)
  case (1 n)
  then show ?case by (subst dec_str.simps) auto
qed

lemma dec_str_not_Nil [simp]: "dec_str n \<noteq> []"
  by (subst dec_str.simps) simp

lemma digit_char_0: "digit_char d = CHR ''0'' \<longleftrightarrow> d mod 10 = 0"
proof -
  have "digit_val (digit_char d) = digit_val CHR ''0'' \<longleftrightarrow> d mod 10 = 0"
    by (simp add: digit_val_def [of "CHR ''0''"])
  moreover have "d mod 10 = 0 \<Longrightarrow> digit_char d = CHR ''0''"
    by (simp add: digit_char_def char_of_def bit_0)
  ultimately show ?thesis by metis
qed

lemma dec_str_leading: "0 < n \<Longrightarrow> hd (dec_str n) \<noteq> CHR ''0''"
proof (induction n rule: dec_str.induct)
  case (1 n)
  then show ?case by (subst dec_str.simps) (auto simp: digit_char_0)
qed

lemma dec_str_0 [simp]: "dec_str 0 = ''0''"
  by (subst dec_str.simps) (simp add: digit_char_0)

lemma dec_str_mult_10: "0 < n \<Longrightarrow> dec_str (n * 10) = dec_str n @ [CHR ''0'']"
  by (subst dec_str.simps) (simp add: digit_char_0)

lemma dec_str_zeros: "0 < n \<Longrightarrow> dec_str (n * 10 ^ k) = dec_str n @ replicate k (CHR ''0'')"
proof (induction k)
  case (Suc k)
  then show ?case using dec_str_mult_10 [of "n * 10 ^ k"]
    by (simp add: mult.assoc [symmetric] mult.commute replicate_append_same)
qed simp

lemma declen_0 [simp]: "declen 0 = 0"
  by (simp add: declen.simps)

lemma length_dec_str: "0 < n \<Longrightarrow> length (dec_str n) = declen n"
proof (induction n rule: dec_str.induct)
  case (1 n)
  then show ?case by (subst dec_str.simps, subst declen.simps) auto
qed

lemma declen_le_iff: "declen n \<le> k \<longleftrightarrow> n < 10 ^ k"
proof (induction k arbitrary: n)
  case 0
  then show ?case by (subst declen.simps) simp
next
  case (Suc k)
  have "n < 10 ^ Suc k \<longleftrightarrow> n div 10 < 10 ^ k" by (simp add: div_less_iff_less_mult mult.commute)
  then show ?case using Suc [of "n div 10"] by (subst declen.simps) auto
qed

lemma strip_zeros_replicate [simp]: "strip_zeros (replicate k (CHR ''0'')) = []"
  by (simp add: strip_zeros_def)

lemma with_fraction_zeros: "with_fraction a (replicate k (CHR ''0'')) = a"
  by (simp add: with_fraction_def)

lemma print_g17_int:
  assumes "0 < n" and "n < 2 ^ 53" and q: "0 < q"
  shows "print_g17_pos (n * q) q = dec_str n"
proof -
  have "n < 10 ^ 16" using assms(2) by simp
  then have len: "declen n \<le> 16" using declen_le_iff by blast
  have pos: "0 < declen n" using assms(1) by (subst declen.simps) simp
  have x: "dec_exponent (n * q) q = int (declen n) - 1" using assms by (simp add: dec_exponent_def)
  have e: "nat (16 - (int (declen n) - 1)) = 17 - declen n" using len pos by simp
  have d: "div_near (n * q * 10 ^ (17 - declen n)) q = n * 10 ^ (17 - declen n)"
    using div_near_exact [OF q, of "n * 10 ^ (17 - declen n)"] by (simp add: ac_simps)
  have "n * 10 ^ (17 - declen n) < 10 ^ declen n * 10 ^ (17 - declen n)"
    using declen_le_iff [of n "declen n"] by simp
  also have "\<dots> = 10 ^ 17" using len by (simp flip: power_add)
  finally have dg: "digits17 (n * q) q = (n * 10 ^ (17 - declen n), int (declen n) - 1)"
    using len by (simp only: digits17_def x e d Let_def) (simp add: d)
  have "nat (int (declen n) - 1) + 1 = length (dec_str n)"
    using pos length_dec_str [OF assms(1)] by simp
  then show ?thesis
    using len pos by (simp only: print_g17_pos_def dg prod.case Let_def dec_str_zeros [OF assms(1)])
      (simp add: with_fraction_zeros)
qed

lemma sprintf_g17_int [f64_exact]:
  assumes "n < 2 ^ 53"
  shows "sprintf_g17 (round_f64 s n 1) = (if s then [CHR ''-''] else []) @ dec_str n"
proof (cases "n = 0")
  case True
  then show ?thesis by (simp add: round_f64_def)
next
  case False
  then have le: "bitlen n \<le> 53" and pos: "0 < n" using assms bitlen_le_iff by auto
  have k: "nat (53 - int (bitlen n)) = 53 - bitlen n" using le by (simp add: nat_diff_distrib)
  have r: "ratio (n * 2 ^ (53 - bitlen n)) 2 (int (bitlen n) - 53) = (n * 2 ^ (53 - bitlen n), 2 ^ (53 - bitlen n))"
    using le by (auto simp: ratio_def k)
  show ?thesis
    using pos by (simp add: round_f64_int [OF pos assms, simplified] r print_g17_int [OF pos assms])
qed

section \<open>Reading integers\<close>

text \<open>What may follow a number without changing it.\<close>

definition ends_number :: "string \<Rightarrow> bool" where
  "ends_number r = (case r of [] \<Rightarrow> True
     | c # _ \<Rightarrow> \<not> isdigit c \<and> c \<noteq> CHR ''.'' \<and> tolower c \<noteq> CHR ''e'' \<and> tolower c \<noteq> CHR ''x'')"

lemma takeWhile_digits:
  assumes "list_all isdigit d" and "ends_number r"
  shows "takeWhile isdigit (d @ r) = d"
proof -
  have "takeWhile isdigit r = []" using assms(2) by (cases r) (auto simp: ends_number_def)
  then show ?thesis using assms(1) by (simp add: takeWhile_append2 list_all_iff)
qed

lemma scan_significand_digits:
  assumes "list_all isdigit d" and "ends_number r"
  shows "scan_significand isdigit (d @ r) = (d, [], length d)"
  using assms(2) unfolding scan_significand_def takeWhile_digits [OF assms] Let_def
  by (cases r) (auto simp: ends_number_def)

lemma scan_exponent_none: "ends_number r \<Longrightarrow> scan_exponent (CHR ''e'') r = (0, 0)"
  by (cases r) (auto simp: scan_exponent_def ends_number_def)

lemma strtod_decimal_int:
  assumes "ends_number r"
  shows "strtod_decimal s (dec_str n @ r) = (round_ratio s (n, 1), length (dec_str n))"
  using scan_significand_digits [OF dec_str_digits assms] scan_exponent_none [OF assms]
  by (simp add: strtod_decimal_def ratio_def)

lemma digit_not_letter:
  "isdigit c \<Longrightarrow> tolower c = c \<and> c \<noteq> CHR ''i'' \<and> c \<noteq> CHR ''n'' \<and> c \<noteq> CHR ''x''
     \<and> c \<noteq> CHR ''-'' \<and> c \<noteq> CHR ''+'' \<and> \<not> isspace c \<and> c \<noteq> CHR ''.'' \<and> c \<noteq> CHR ''X''"
  by (auto simp: isdigit_def tolower_def isspace_def)

lemma istarts_digit:
  assumes "isdigit c" and "p = x # p'" and "x = CHR ''i'' \<or> x = CHR ''n''"
  shows "\<not> istarts p (c # t)"
  using digit_not_letter [OF assms(1)] assms(2,3) by (auto simp: istarts_def)

lemma istarts_0x:
  assumes "list_all isdigit d" and "d \<noteq> []" and "ends_number r" and "length d = 1 \<or> hd d \<noteq> CHR ''0''"
  shows "\<not> istarts ''0x'' (d @ r)"
proof -
  obtain c d' where d: "d = c # d'" using assms(2) by (cases d) auto
  then have c: "isdigit c" and d': "list_all isdigit d'" using assms(1) by auto
  show ?thesis
  proof (cases d')
    case Nil
    then show ?thesis using assms(3) d by (cases r) (auto simp: istarts_def ends_number_def)
  next
    case (Cons b d'')
    then show ?thesis using assms(4) d d' digit_not_letter [OF c] by (auto simp: istarts_def)
  qed
qed

lemma strtod_unsigned_int:
  assumes "ends_number r"
  shows "strtod_unsigned s (dec_str n @ r) = (round_ratio s (n, 1), length (dec_str n))"
proof -
  obtain c d where d: "dec_str n = c # d" by (cases "dec_str n") auto
  have c: "isdigit c" using dec_str_digits [of n] d by simp
  have "length (dec_str n) = 1 \<or> hd (dec_str n) \<noteq> CHR ''0''"
    using dec_str_leading [of n] by (cases "n = 0") auto
  then have "\<not> istarts ''0x'' (dec_str n @ r)"
    by (intro istarts_0x assms dec_str_digits) simp_all
  then show ?thesis
    using c strtod_decimal_int [OF assms, of s n]
    by (simp add: strtod_unsigned_def istarts_digit [OF c] d)
qed

lemma erange_int [simp]:
  assumes "n < 2 ^ 53"
  shows "\<not> erange (n, 1) (round_f64 s n 1)"
proof (cases "n = 0")
  case True
  then show ?thesis by (simp add: erange_def round_f64_def)
next
  case False
  then have "0 < n" by simp
  then show ?thesis using assms by (simp add: erange_def round_f64_int [simplified])
qed

lemma strtod_int [f64_exact]:
  assumes "ends_number r" and "n < 2 ^ 53"
  shows "strtod (dec_str n @ r) = ((f64_of_nat n, False), length (dec_str n))"
    and "strtod (CHR ''-'' # dec_str n @ r) = ((round_f64 True n 1, False), Suc (length (dec_str n)))"
proof -
  obtain c d where d: "dec_str n = c # d" by (cases "dec_str n") auto
  have c: "isdigit c" using dec_str_digits [of n] d by simp
  have "\<not> isspace CHR ''-''" by (simp add: isspace_def)
  then show "strtod (dec_str n @ r) = ((f64_of_nat n, False), length (dec_str n))"
    and "strtod (CHR ''-'' # dec_str n @ r) = ((round_f64 True n 1, False), Suc (length (dec_str n)))"
    using digit_not_letter [OF c] strtod_unsigned_int [OF assms(1), of _ n] erange_int [OF assms(2)]
    by (simp_all add: strtod_def d Let_def f64_of_nat_def round_ratio_def)
qed

end
