(* ===== verification/Parson_Text.thy ===== *)
theory Parson_Text
  imports Float64
begin

text \<open>
  The text layer of \<^verbatim>\<open>include/parson.c\<close>: hexadecimal digits, \<^verbatim>\<open>\uXXXX\<close> escapes and
  surrogate pairs, UTF-8 validation, quoted strings in both directions.
  A \<^verbatim>\<open>const char *\<close> into the input is the list of the bytes before its NUL, so \<open>[]\<close> is a
  pointer at the NUL; advancing a pointer is taking the tail. The outputs the C code writes
  through a second pointer are returned. Allocation of the string buffers is governed by
  \<open>mok\<close> as everywhere.
\<close>

unbundle bit_operations_syntax

section \<open>Bytes and hexadecimal digits\<close>

abbreviation (input) code :: "char \<Rightarrow> nat" where "code c \<equiv> of_char c"

definition byte :: "nat \<Rightarrow> char" where
  "byte n = char_of (n mod 256)"

definition hex_char_to_int :: "char \<Rightarrow> int" where
  "hex_char_to_int c =
     (if code CHR ''0'' \<le> code c \<and> code c \<le> code CHR ''9'' then int (code c) - int (code CHR ''0'')
      else if code CHR ''a'' \<le> code c \<and> code c \<le> code CHR ''f'' then int (code c) - int (code CHR ''a'') + 10
      else if code CHR ''A'' \<le> code c \<and> code c \<le> code CHR ''F'' then int (code c) - int (code CHR ''A'') + 10
      else -1)"

fun parse_utf16_hex :: "string \<Rightarrow> nat option" where
  "parse_utf16_hex (a # b # c # d # _) =
     (let x1 = hex_char_to_int a; x2 = hex_char_to_int b;
          x3 = hex_char_to_int c; x4 = hex_char_to_int d
      in if x1 = -1 \<or> x2 = -1 \<or> x3 = -1 \<or> x4 = -1 then None
         else Some (push_bit 12 (nat x1) OR push_bit 8 (nat x2) OR push_bit 4 (nat x3) OR nat x4))"
| "parse_utf16_hex _ = None"

section \<open>UTF-8\<close>

definition is_cont :: "nat \<Rightarrow> bool" where
  "is_cont b = (b AND 0xC0 = 0x80)"

definition num_bytes_in_utf8_sequence :: "nat \<Rightarrow> nat" where
  "num_bytes_in_utf8_sequence c =
     (if c = 0xC0 \<or> c = 0xC1 \<or> c > 0xF4 \<or> is_cont c then 0
      else if c AND 0x80 = 0 then 1
      else if c AND 0xE0 = 0xC0 then 2
      else if c AND 0xF0 = 0xE0 then 3
      else if c AND 0xF8 = 0xF0 then 4
      else 0)"

definition byte_at :: "string \<Rightarrow> nat \<Rightarrow> nat" where
  "byte_at s i = (if i < length s then code (s ! i) else 0)"

definition append_bits :: "nat \<Rightarrow> nat \<Rightarrow> nat" where
  "append_bits cp b = push_bit 6 cp OR (b AND 0x3F)"

text \<open>The length of the sequence when it is well formed.\<close>

definition verify_utf8_sequence :: "string \<Rightarrow> nat option" where
  "verify_utf8_sequence s =
     (let len = num_bytes_in_utf8_sequence (byte_at s 0);
          b0 = byte_at s 0; b1 = byte_at s 1; b2 = byte_at s 2; b3 = byte_at s 3;
          cp = (if len = 1 then Some b0
                else if len = 2 \<and> is_cont b1 then Some (append_bits (b0 AND 0x1F) b1)
                else if len = 3 \<and> is_cont b1 \<and> is_cont b2
                then Some (append_bits (append_bits (b0 AND 0xF) b1) b2)
                else if len = 4 \<and> is_cont b1 \<and> is_cont b2 \<and> is_cont b3
                then Some (append_bits (append_bits (append_bits (b0 AND 0x7) b1) b2) b3)
                else None)
      in case cp of None \<Rightarrow> None
         | Some cp \<Rightarrow>
             if (cp < 0x80 \<and> len > 1) \<or> (cp < 0x800 \<and> len > 2) \<or> (cp < 0x10000 \<and> len > 3) then None
             else if cp > 0x10FFFF then None
             else if cp \<ge> 0xD800 \<and> cp \<le> 0xDFFF then None
             else Some len)"

lemma verify_utf8_sequence_pos: "verify_utf8_sequence s = Some n \<Longrightarrow> 0 < n \<and> n \<le> 4"
  by (auto simp: verify_utf8_sequence_def Let_def split: if_splits option.splits)

text \<open>\<open>pos\<close> is \<^verbatim>\<open>string\<close> relative to its start, \<open>n\<close> is \<^verbatim>\<open>string_len\<close>.\<close>

function valid_utf8_from :: "string \<Rightarrow> nat \<Rightarrow> nat \<Rightarrow> bool" where
  "valid_utf8_from s n pos =
     (if pos < n then
        (case verify_utf8_sequence (drop pos s) of
           None \<Rightarrow> False
         | Some len \<Rightarrow> valid_utf8_from s n (pos + len))
      else True)"
  by pat_completeness auto
termination
  by (relation "measure (\<lambda>(s, n, pos). n - pos)") (auto dest: verify_utf8_sequence_pos)

declare valid_utf8_from.simps [simp del]

definition is_valid_utf8 :: "string \<Rightarrow> nat \<Rightarrow> bool" where
  "is_valid_utf8 s n = valid_utf8_from s n 0"

section \<open>Escapes\<close>

text \<open>
  \<^verbatim>\<open>parse_utf16\<close> is called with the pointer at the \<open>u\<close>; here the argument starts after it.
  The result is the bytes written and the input after the last digit used.
\<close>

definition parse_utf16 :: "string \<Rightarrow> (string \<times> string) option" where
  "parse_utf16 s =
     (case parse_utf16_hex s of
        None \<Rightarrow> None
      | Some cp \<Rightarrow>
          if cp < 0x80 then Some ([byte cp], drop 4 s)
          else if cp < 0x800 then
            Some ([byte ((drop_bit 6 cp AND 0x1F) OR 0xC0), byte ((cp AND 0x3F) OR 0x80)], drop 4 s)
          else if cp < 0xD800 \<or> cp > 0xDFFF then
            Some ([byte ((drop_bit 12 cp AND 0x0F) OR 0xE0), byte ((drop_bit 6 cp AND 0x3F) OR 0x80),
                   byte ((cp AND 0x3F) OR 0x80)], drop 4 s)
          else if cp \<ge> 0xD800 \<and> cp \<le> 0xDBFF then
            (case drop 4 s of
               e # u # t \<Rightarrow>
                 if e \<noteq> CHR 0x5C \<or> u \<noteq> CHR ''u'' then None
                 else (case parse_utf16_hex t of
                    None \<Rightarrow> None
                  | Some trail \<Rightarrow>
                      if trail < 0xDC00 \<or> trail > 0xDFFF then None
                      else let cp = (push_bit 10 ((cp - 0xD800) AND 0x3FF) OR ((trail - 0xDC00) AND 0x3FF))
                                    + 0x010000
                           in Some ([byte ((drop_bit 18 cp AND 0x07) OR 0xF0),
                                     byte ((drop_bit 12 cp AND 0x3F) OR 0x80),
                                     byte ((drop_bit 6 cp AND 0x3F) OR 0x80),
                                     byte ((cp AND 0x3F) OR 0x80)], drop 4 t))
             | _ \<Rightarrow> None)
          else None)"

lemma parse_utf16_hex_length: "parse_utf16_hex s = Some cp \<Longrightarrow> 4 \<le> length s"
  by (cases s rule: parse_utf16_hex.cases) auto

lemma drop_eq_Cons2_length: "drop n s = a # b # t \<Longrightarrow> length t + 2 \<le> length s"
  by (drule arg_cong [where f = length]) simp

lemma parse_utf16_consumes:
  "parse_utf16 s = Some (out, r) \<Longrightarrow> length r < length s"
  by (auto simp: parse_utf16_def Let_def dest!: parse_utf16_hex_length drop_eq_Cons2_length
      split: option.splits if_splits list.splits)

definition simple_escape :: "char \<Rightarrow> char option" where
  "simple_escape e =
     (if e = CHR 0x22 then Some (CHR 0x22)
      else if e = CHR 0x5C then Some (CHR 0x5C)
      else if e = CHR ''/'' then Some (CHR ''/'')
      else if e = CHR ''b'' then Some (CHR 0x08)
      else if e = CHR ''f'' then Some (CHR 0x0C)
      else if e = CHR ''n'' then Some (CHR 0x0A)
      else if e = CHR ''r'' then Some (CHR 0x0D)
      else if e = CHR ''t'' then Some (CHR 0x09)
      else None)"

text \<open>
  The loop of \<^verbatim>\<open>process_string\<close>: \<open>left\<close> is \<^verbatim>\<open>input_len\<close> less what \<^verbatim>\<open>input_ptr\<close> has passed.
\<close>

function process_loop :: "string \<Rightarrow> nat \<Rightarrow> string option" where
  "process_loop s left =
     (case s of
        [] \<Rightarrow> Some []
      | c # cs \<Rightarrow>
          if left = 0 then Some []
          else if c = CHR 0x5C then
            (case cs of
               [] \<Rightarrow> None
             | e # es \<Rightarrow>
                 if e = CHR ''u'' then
                   (case parse_utf16 es of
                      None \<Rightarrow> None
                    | Some (out, r) \<Rightarrow>
                        map_option ((@) out) (process_loop r (left - (length s - length r))))
                 else (case simple_escape e of
                      None \<Rightarrow> None
                    | Some x \<Rightarrow> map_option ((#) x) (process_loop es (left - 2))))
          else if code c < 0x20 then None
          else map_option ((#) c) (process_loop cs (left - 1)))"
  by pat_completeness auto
termination
  by (relation "measure (\<lambda>(s, left). length s)") (auto dest: parse_utf16_consumes)

declare process_loop.simps [simp del]

definition process_string :: "(nat \<Rightarrow> bool) \<Rightarrow> string \<Rightarrow> nat \<Rightarrow> string option" where
  "process_string mok input input_len =
     (if \<not> mok (input_len + 1) then None
      else case process_loop input input_len of
             None \<Rightarrow> None
           | Some out \<Rightarrow> if mok (length out + 1) then Some out else None)"

section \<open>Quoted strings\<close>

fun skip_quoted :: "string \<Rightarrow> string option" where
  "skip_quoted [] = None"
| "skip_quoted (c # cs) =
     (if c = CHR 0x22 then Some cs
      else if c = CHR 0x5C then (case cs of [] \<Rightarrow> None | _ # es \<Rightarrow> skip_quoted es)
      else skip_quoted cs)"

definition skip_quotes :: "string \<Rightarrow> string option" where
  "skip_quotes s =
     (case s of [] \<Rightarrow> None | c # cs \<Rightarrow> if c \<noteq> CHR 0x22 then None else skip_quoted cs)"

definition get_quoted_string :: "(nat \<Rightarrow> bool) \<Rightarrow> string \<Rightarrow> (string \<times> string) option" where
  "get_quoted_string mok s =
     (case skip_quotes s of
        None \<Rightarrow> None
      | Some r \<Rightarrow>
          (let input_string_len = length s - length r - 2
           in case process_string mok (tl s) input_string_len of
                None \<Rightarrow> None
              | Some out \<Rightarrow> Some (out, r)))"

section \<open>Writing strings\<close>

definition hex_digit :: "nat \<Rightarrow> char" where
  "hex_digit n = ''0123456789abcdef'' ! (n mod 16)"

text \<open>One byte of \<^verbatim>\<open>json_serialize_string\<close>; \<open>esc\<close> is \<^verbatim>\<open>parson_escape_slashes\<close>.\<close>

definition serialize_char :: "bool \<Rightarrow> char \<Rightarrow> string" where
  "serialize_char esc c =
     (if c = CHR 0x22 then [CHR 0x5C, CHR 0x22]
      else if c = CHR 0x5C then [CHR 0x5C, CHR 0x5C]
      else if c = CHR 0x08 then [CHR 0x5C, CHR ''b'']
      else if c = CHR 0x0C then [CHR 0x5C, CHR ''f'']
      else if c = CHR 0x0A then [CHR 0x5C, CHR ''n'']
      else if c = CHR 0x0D then [CHR 0x5C, CHR ''r'']
      else if c = CHR 0x09 then [CHR 0x5C, CHR ''t'']
      else if code c < 0x20
      then [CHR 0x5C, CHR ''u'', CHR ''0'', CHR ''0'', hex_digit (code c div 16), hex_digit (code c)]
      else if c = CHR ''/'' then (if esc then [CHR 0x5C, CHR ''/''] else [CHR ''/''])
      else [c])"

definition json_serialize_string :: "bool \<Rightarrow> string \<Rightarrow> nat \<Rightarrow> string" where
  "json_serialize_string esc s len =
     [CHR 0x22] @ concat (map (serialize_char esc) (take len s)) @ [CHR 0x22]"


section \<open>Bit operations as arithmetic\<close>

named_theorems bits_arith

lemma and_mask_mod: "(x :: nat) AND mask k = x mod 2 ^ k"
  by (simp add: take_bit_eq_mask [symmetric] take_bit_eq_mod)

lemma and_shifted_mask: "(x :: nat) AND push_bit k (mask m) = (x div 2 ^ k) mod 2 ^ m * 2 ^ k"
proof -
  have "x AND push_bit k (mask m) = push_bit k (take_bit m (drop_bit k x))"
    by (rule bit_eqI) (auto simp: bit_and_iff bit_push_bit_iff bit_take_bit_iff bit_drop_bit_eq
        bit_mask_iff)
  then show ?thesis by (simp add: push_bit_eq_mult take_bit_eq_mod drop_bit_eq_div)
qed

lemma mask_values:
  "mask 3 = (0x07 :: nat)" "mask 4 = (0x0F :: nat)" "mask 5 = (0x1F :: nat)" "mask 6 = (0x3F :: nat)"
  "mask 10 = (0x3FF :: nat)" "push_bit 6 (mask 2) = (0xC0 :: nat)" "push_bit 7 (mask 1) = (0x80 :: nat)"
  "push_bit 5 (mask 3) = (0xE0 :: nat)" "push_bit 4 (mask 4) = (0xF0 :: nat)"
  "push_bit 3 (mask 5) = (0xF8 :: nat)"
  by (simp_all add: mask_eq_exp_minus_1 push_bit_eq_mult)

lemma and_masks [bits_arith]:
  fixes x :: nat
  shows "x AND 0x07 = x mod 8" "x AND 0x0F = x mod 16" "x AND 0x1F = x mod 32"
    "x AND 0x3F = x mod 64" "x AND 0x3FF = x mod 1024"
  by (simp_all only: mask_values(1-5) [symmetric] and_mask_mod) simp_all

lemma and_high_masks:
  fixes x :: nat
  shows "x AND 0xC0 = (x div 64) mod 4 * 64" "x AND 0x80 = (x div 128) mod 2 * 128"
    "x AND 0xE0 = (x div 32) mod 8 * 32" "x AND 0xF0 = (x div 16) mod 16 * 16"
    "x AND 0xF8 = (x div 8) mod 32 * 8"
  by (simp_all only: mask_values(6-10) [symmetric] and_shifted_mask) simp_all

lemma or_shifted:
  assumes "(x :: nat) < 2 ^ k"
  shows "push_bit k y OR x = y * 2 ^ k + x"
proof -
  have "\<not> bit (push_bit k y) n \<or> \<not> bit x n" for n
  proof (cases "n < k")
    case True
    then show ?thesis by (simp add: bit_push_bit_iff)
  next
    case False
    then have "x div 2 ^ n = 0"
      using assms by (metis div_less not_less order_less_le_trans one_le_numeral power_increasing)
    then show ?thesis by (simp add: bit_iff_odd)
  qed
  then have "push_bit k y + x = push_bit k y OR x" by (rule disjunctive_add)
  then show ?thesis by (simp add: push_bit_eq_mult)
qed

lemma or_heads [bits_arith]:
  fixes x :: nat
  shows "x < 64 \<Longrightarrow> x OR 0x80 = x + 0x80" "x < 32 \<Longrightarrow> x OR 0xC0 = x + 0xC0"
    "x < 16 \<Longrightarrow> x OR 0xE0 = x + 0xE0" "x < 8 \<Longrightarrow> x OR 0xF0 = x + 0xF0"
  using or_shifted [of x 6 2] or_shifted [of x 5 6] or_shifted [of x 4 14] or_shifted [of x 3 30]
  by (simp_all add: push_bit_eq_mult or.commute)

lemma code_byte [simp]: "code (byte n) = n mod 256"
  by (simp add: byte_def)

lemma code_less_256 [simp]: "code c < 256"
  by (metis of_char_mod_256 mod_less_divisor zero_less_numeral)

lemma append_bits_arith: "append_bits cp b = cp * 64 + b mod 64"
  using or_shifted [of "b mod 64" 6 cp] by (simp add: append_bits_def and_masks)

lemma div_eq_bounds:
  assumes "0 < (d :: nat)"
  shows "c div d = n \<longleftrightarrow> n * d \<le> c \<and> c < Suc n * d"
proof -
  have "c div d = n \<longleftrightarrow> n \<le> c div d \<and> c div d < Suc n" by linarith
  then show ?thesis
    using assms by (simp only: div_less_iff_less_mult less_eq_div_iff_mult_less_eq)
qed

lemma div_small: "(c :: nat) < k * d \<Longrightarrow> c div d mod k = c div d"
  by (cases "d = 0") (simp_all add: div_less_iff_less_mult)

lemma is_cont_arith: "b < 256 \<Longrightarrow> is_cont b \<longleftrightarrow> 0x80 \<le> b \<and> b < 0xC0"
  using div_eq_bounds [of 64 b 2] div_small [of b 4 64] by (simp add: is_cont_def and_high_masks)

lemma num_bytes_arith:
  assumes "c < 256"
  shows "num_bytes_in_utf8_sequence c =
     (if c < 0x80 then 1 else if c < 0xC2 then 0 else if c < 0xE0 then 2
      else if c < 0xF0 then 3 else if c \<le> 0xF4 then 4 else 0)"
proof -
  have masks: "c AND 0x80 = 0 \<longleftrightarrow> c < 0x80" "c AND 0xE0 = 0xC0 \<longleftrightarrow> 0xC0 \<le> c \<and> c < 0xE0"
    "c AND 0xF0 = 0xE0 \<longleftrightarrow> 0xE0 \<le> c \<and> c < 0xF0" "c AND 0xF8 = 0xF0 \<longleftrightarrow> 0xF0 \<le> c \<and> c < 0xF8"
    using assms div_small [of c 2 128] div_small [of c 8 32] div_small [of c 16 16] div_small [of c 32 8]
      div_eq_bounds [of 128 c 0] div_eq_bounds [of 32 c 6] div_eq_bounds [of 16 c 14]
      div_eq_bounds [of 8 c 30]
    by (simp_all add: and_high_masks)
  consider "c < 0x80" | "0x80 \<le> c" "c < 0xC0" | "c = 0xC0" | "c = 0xC1" | "0xC2 \<le> c" "c < 0xE0"
    | "0xE0 \<le> c" "c < 0xF0" | "0xF0 \<le> c" "c \<le> 0xF4" | "0xF4 < c"
    using assms by linarith
  then show ?thesis
    by cases (simp_all add: num_bytes_in_utf8_sequence_def is_cont_arith masks assms)
qed

section \<open>Writing and reading back\<close>

lemma hex_char_hex_digit: "hex_char_to_int (hex_digit n) = int (n mod 16)"
proof -
  have "list_all (\<lambda>k. hex_char_to_int (''0123456789abcdef'' ! k) = int k) [0..<16]"
    by code_simp
  then show ?thesis by (simp add: hex_digit_def list_all_iff)
qed

lemma hex_digit_plain: "hex_digit n \<noteq> CHR 0x22 \<and> hex_digit n \<noteq> CHR 0x5C"
proof -
  have "list_all (\<lambda>k. ''0123456789abcdef'' ! k \<noteq> CHR 0x22 \<and> ''0123456789abcdef'' ! k \<noteq> CHR 0x5C) [0..<16]"
    by code_simp
  then show ?thesis by (simp add: hex_digit_def list_all_iff)
qed

lemma parse_utf16_hex_byte:
  assumes "n < 256"
  shows "parse_utf16_hex (CHR ''0'' # CHR ''0'' # hex_digit (n div 16) # hex_digit n # r) = Some n"
proof -
  have "push_bit 4 (n div 16) OR n mod 16 = n"
    using or_shifted [of "n mod 16" 4 "n div 16"] by simp
  moreover have "n div 16 mod 16 = n div 16" using assms by simp
  moreover have "hex_char_to_int (CHR ''0'') = 0" by (simp add: hex_char_to_int_def)
  ultimately show ?thesis
    by (simp add: hex_char_hex_digit Let_def nat_mod_as_int [symmetric])
qed

lemma parse_utf16_byte:
  assumes "n < 0x80"
  shows "parse_utf16 (CHR ''0'' # CHR ''0'' # hex_digit (n div 16) # hex_digit n # r) = Some ([byte n], r)"
  using assms parse_utf16_hex_byte [of n r] by (simp add: parse_utf16_def)

lemma byte_code [simp]: "byte (code c) = c"
  by (simp add: byte_def)

lemma process_plain:
  "c \<noteq> CHR 0x5C \<Longrightarrow> 0x20 \<le> code c \<Longrightarrow>
   process_loop (c # cs) (Suc n) = map_option ((#) c) (process_loop cs n)"
  by (subst process_loop.simps) simp

lemma process_simple:
  "simple_escape e = Some x \<Longrightarrow>
   process_loop (CHR 0x5C # e # es) (Suc (Suc n)) = map_option ((#) x) (process_loop es n)"
  by (subst process_loop.simps) (auto simp: simple_escape_def split: if_splits)

lemma process_unicode:
  "parse_utf16 es = Some (out, r) \<Longrightarrow> left \<noteq> 0 \<Longrightarrow>
   process_loop (CHR 0x5C # CHR ''u'' # es) left
     = map_option ((@) out) (process_loop r (left - (Suc (Suc (length es)) - length r)))"
  by (subst process_loop.simps) simp

lemma serialize_char_cases:
  "(\<exists>e. serialize_char esc c = [CHR 0x5C, e] \<and> simple_escape e = Some c)
   \<or> (serialize_char esc c = [c] \<and> c \<noteq> CHR 0x5C \<and> c \<noteq> CHR 0x22 \<and> 0x20 \<le> code c)
   \<or> (code c < 0x20 \<and> serialize_char esc c =
        [CHR 0x5C, CHR ''u'', CHR ''0'', CHR ''0'', hex_digit (code c div 16), hex_digit (code c)])"
proof (cases "c \<in> {CHR 0x22, CHR 0x5C, CHR 0x08, CHR 0x0C, CHR 0x0A, CHR 0x0D, CHR 0x09, CHR ''/''}")
  case True
  then show ?thesis
    by (elim insertE emptyE; simp add: serialize_char_def simple_escape_def)
next
  case False
  then show ?thesis by (simp add: serialize_char_def not_less)
qed

lemma process_serialize_char:
  "process_loop (serialize_char esc c @ r) (length (serialize_char esc c) + n)
     = map_option ((#) c) (process_loop r n)"
proof (cases "code c < 0x20 \<and> length (serialize_char esc c) = 6")
  case True
  have "map_option ((@) [c]) x = map_option ((#) c) x" for x by (cases x) auto
  then show ?thesis
    using True serialize_char_cases [of esc c] process_unicode [OF parse_utf16_byte [of "code c" r]]
    by auto
next
  case False
  then show ?thesis
    using serialize_char_cases [of esc c] by (auto simp: process_simple process_plain)
qed

lemma skip_quoted_serialize_char: "skip_quoted (serialize_char esc c @ r) = skip_quoted r"
  using serialize_char_cases [of esc c] by (auto simp: hex_digit_plain)

lemma process_serialized:
  "process_loop (concat (map (serialize_char esc) s) @ r) (length (concat (map (serialize_char esc) s)))
     = Some s"
proof (induction s)
  case Nil
  then show ?case by (subst process_loop.simps) (simp split: list.splits)
next
  case (Cons c s)
  then show ?case
    using process_serialize_char [of esc c "concat (map (serialize_char esc) s) @ r"
        "length (concat (map (serialize_char esc) s))"] by simp
qed

lemma skip_quoted_serialized:
  "skip_quoted (concat (map (serialize_char esc) s) @ CHR 0x22 # r) = Some r"
  by (induction s) (simp_all add: skip_quoted_serialize_char)

lemma get_quoted_serialized:
  assumes "mok (length (json_serialize_string esc s (length s)) - 1)" and "mok (length s + 1)"
  shows "get_quoted_string mok (json_serialize_string esc s (length s) @ r) = Some (s, r)"
  using process_serialized [of esc s "CHR 0x22 # r"] assms
  by (simp add: get_quoted_string_def json_serialize_string_def skip_quotes_def process_string_def
      skip_quoted_serialized)


section \<open>Escapes give well-formed UTF-8\<close>

lemma low_bits:
  fixes a :: nat
  shows "a < 64 \<Longrightarrow> (a + 128) mod 64 = a" "a < 32 \<Longrightarrow> (a + 192) mod 32 = a"
    "a < 16 \<Longrightarrow> (a + 224) mod 16 = a" "a < 8 \<Longrightarrow> (a + 240) mod 8 = a"
  using mod_mult_self1 [of a 2 64] mod_mult_self1 [of a 6 32] mod_mult_self1 [of a 14 16]
    mod_mult_self1 [of a 30 8] by simp_all

lemma verify_2:
  assumes "2 \<le> a" "a < 32" "b < 64"
  shows "verify_utf8_sequence (byte (a + 0xC0) # byte (b + 0x80) # t) = Some 2"
proof -
  have "append_bits ((a + 0xC0) AND 0x1F) (b + 0x80) = a * 64 + b"
    using assms by (simp add: append_bits_arith and_masks low_bits)
  then show ?thesis
    using assms by (simp add: verify_utf8_sequence_def byte_at_def num_bytes_arith is_cont_arith Let_def)
qed

lemma verify_3:
  assumes "a < 16" "b < 64" "c < 64" "0x800 \<le> (a * 64 + b) * 64 + c"
    "(a * 64 + b) * 64 + c < 0xD800 \<or> 0xDFFF < (a * 64 + b) * 64 + c"
  shows "verify_utf8_sequence (byte (a + 0xE0) # byte (b + 0x80) # byte (c + 0x80) # t) = Some 3"
proof -
  have "append_bits (append_bits ((a + 0xE0) AND 0xF) (b + 0x80)) (c + 0x80) = (a * 64 + b) * 64 + c"
    using assms(1-3) by (simp add: append_bits_arith and_masks low_bits)
  moreover have "num_bytes_in_utf8_sequence (a + 0xE0) = 3"
    using assms(1) by (simp add: num_bytes_arith)
  ultimately show ?thesis
    using assms by (auto simp: verify_utf8_sequence_def byte_at_def is_cont_arith Let_def)
qed

lemma verify_4:
  assumes "a < 8" "b < 64" "c < 64" "d < 64" "0x10000 \<le> ((a * 64 + b) * 64 + c) * 64 + d"
    "((a * 64 + b) * 64 + c) * 64 + d \<le> 0x10FFFF"
  shows "verify_utf8_sequence (byte (a + 0xF0) # byte (b + 0x80) # byte (c + 0x80) # byte (d + 0x80) # t)
           = Some 4"
proof -
  have "append_bits (append_bits (append_bits ((a + 0xF0) AND 0x7) (b + 0x80)) (c + 0x80)) (d + 0x80)
          = ((a * 64 + b) * 64 + c) * 64 + d"
    using assms(1-4) by (simp add: append_bits_arith and_masks low_bits)
  moreover have "num_bytes_in_utf8_sequence (a + 0xF0) = 4"
    using assms(1,5,6) by (simp add: num_bytes_arith)
  ultimately show ?thesis
    using assms by (auto simp: verify_utf8_sequence_def byte_at_def is_cont_arith Let_def)
qed

lemma hex_char_range:
  assumes "hex_char_to_int c \<noteq> -1"
  shows "0 \<le> hex_char_to_int c \<and> hex_char_to_int c < 16"
    and "c \<noteq> CHR 0x22 \<and> c \<noteq> CHR 0x5C"
  using assms by (auto simp: hex_char_to_int_def split: if_splits)

lemma parse_utf16_hexE:
  assumes "parse_utf16_hex s = Some cp"
  obtains a b c d t where "s = a # b # c # d # t"
    "hex_char_to_int a \<noteq> -1" "hex_char_to_int b \<noteq> -1" "hex_char_to_int c \<noteq> -1"
    "hex_char_to_int d \<noteq> -1" "cp < 0x10000"
proof -
  obtain a b c d t where s: "s = a # b # c # d # t"
    using assms by (cases s rule: parse_utf16_hex.cases) auto
  then have ok: "hex_char_to_int a \<noteq> -1" "hex_char_to_int b \<noteq> -1" "hex_char_to_int c \<noteq> -1"
      "hex_char_to_int d \<noteq> -1"
    and cp: "cp = push_bit 12 (nat (hex_char_to_int a)) OR push_bit 8 (nat (hex_char_to_int b))
                  OR push_bit 4 (nat (hex_char_to_int c)) OR nat (hex_char_to_int d)"
    using assms by (auto simp: Let_def split: if_splits)
  have "nat (hex_char_to_int x) < 16" if "hex_char_to_int x \<noteq> -1" for x
    using hex_char_range(1) [OF that] by linarith
  then have n: "nat (hex_char_to_int a) < 16" "nat (hex_char_to_int b) < 16"
    "nat (hex_char_to_int c) < 16" "nat (hex_char_to_int d) < 16" using ok by blast+
  have "push_bit 4 (nat (hex_char_to_int c)) OR nat (hex_char_to_int d)
          = nat (hex_char_to_int c) * 16 + nat (hex_char_to_int d)"
    using or_shifted [of "nat (hex_char_to_int d)" 4] n by simp
  moreover have "push_bit 8 (nat (hex_char_to_int b)) OR (nat (hex_char_to_int c) * 16 + nat (hex_char_to_int d))
          = nat (hex_char_to_int b) * 256 + (nat (hex_char_to_int c) * 16 + nat (hex_char_to_int d))"
    using or_shifted [of "nat (hex_char_to_int c) * 16 + nat (hex_char_to_int d)" 8] n by simp
  moreover have "push_bit 12 (nat (hex_char_to_int a)) OR
          (nat (hex_char_to_int b) * 256 + (nat (hex_char_to_int c) * 16 + nat (hex_char_to_int d)))
      = nat (hex_char_to_int a) * 4096
        + (nat (hex_char_to_int b) * 256 + (nat (hex_char_to_int c) * 16 + nat (hex_char_to_int d)))"
    using or_shifted [of "nat (hex_char_to_int b) * 256
        + (nat (hex_char_to_int c) * 16 + nat (hex_char_to_int d))" 12] n by simp
  ultimately have "cp < 0x10000" using n unfolding cp by (simp add: or.assoc)
  then show thesis using that s ok by blast
qed

lemma escape_verifies:
  assumes "parse_utf16 s = Some (out, r)"
  shows "verify_utf8_sequence (out @ t) = Some (length out) \<and> length out \<le> 4
       \<and> length out + length r < length s \<and> skip_quoted s = skip_quoted r"
proof -
  obtain cp where cp: "parse_utf16_hex s = Some cp"
    using assms by (auto simp: parse_utf16_def split: option.splits)
  from cp obtain a b c d u where s: "s = a # b # c # d # u" and ok: "hex_char_to_int a \<noteq> -1"
      "hex_char_to_int b \<noteq> -1" "hex_char_to_int c \<noteq> -1" "hex_char_to_int d \<noteq> -1" and lt: "cp < 0x10000"
    by (rule parse_utf16_hexE)
  have skip: "skip_quoted s = skip_quoted u" using ok hex_char_range(2) by (simp add: s)
  have res: "parse_utf16 s = Some (out, r)" by (rule assms)
  have drop4: "drop 4 s = u" by (simp add: s)
  note unf = parse_utf16_def cp drop4 option.case
  consider "cp < 0x80" | "0x80 \<le> cp" "cp < 0x800" | "0x800 \<le> cp" "cp < 0xD800 \<or> cp > 0xDFFF"
    | "0xD800 \<le> cp" "cp \<le> 0xDBFF" | "0xDBFF < cp" "cp \<le> 0xDFFF" by linarith
  then show ?thesis
  proof cases
    case 1
    then have "out = [byte cp]" "r = u" using res by (simp_all add: unf)
    then show ?thesis using skip 1
      by (simp add: s verify_utf8_sequence_def byte_at_def num_bytes_arith Let_def)
  next
    case 2
    have "2 \<le> cp div 64" "cp div 64 < 32" using 2 by auto
    moreover have "out = [byte ((drop_bit 6 cp AND 0x1F) OR 0xC0), byte ((cp AND 0x3F) OR 0x80)]" "r = u"
      using res 2 by (simp_all add: unf)
    ultimately show ?thesis using skip verify_2 [of "cp div 64" "cp mod 64" t]
      by (simp add: s bits_arith drop_bit_eq_div)
  next
    case 3
    have split: "(cp div 4096 * 64 + cp div 64 mod 64) * 64 + cp mod 64 = cp"
      using div_mult_mod_eq [of "cp div 64" 64] div_mult_mod_eq [of cp 64]
      by (simp add: div_mult2_eq [symmetric])
    have "cp div 4096 < 16" using lt by auto
    moreover have "out = [byte ((drop_bit 12 cp AND 0x0F) OR 0xE0), byte ((drop_bit 6 cp AND 0x3F) OR 0x80),
                   byte ((cp AND 0x3F) OR 0x80)]" "r = u"
      using res 3 by (auto simp: unf)
    moreover have "verify_utf8_sequence (byte (cp div 4096 + 0xE0) # byte (cp div 64 mod 64 + 0x80)
        # byte (cp mod 64 + 0x80) # t) = Some 3"
      using 3 \<open>cp div 4096 < 16\<close>
        verify_3 [of "cp div 4096" "cp div 64 mod 64" "cp mod 64" t, unfolded split] by simp
    ultimately show ?thesis using skip
      by (simp add: s bits_arith drop_bit_eq_div numeral_3_eq_3)
  next
    case 5
    then show ?thesis using res by (simp add: unf)
  next
    case 4
    then obtain v trail where v: "u = CHR 0x5C # CHR ''u'' # v" and tr: "parse_utf16_hex v = Some trail"
        "0xDC00 \<le> trail" "trail \<le> 0xDFFF"
      using res by (auto simp: unf not_less split: list.splits option.splits if_splits)
    from tr(1) obtain a' b' c' d' w where w: "v = a' # b' # c' # d' # w" and ok': "hex_char_to_int a' \<noteq> -1"
        "hex_char_to_int b' \<noteq> -1" "hex_char_to_int c' \<noteq> -1" "hex_char_to_int d' \<noteq> -1"
      by (rule parse_utf16_hexE)
    have skip': "skip_quoted u = skip_quoted w" using ok' hex_char_range(2) by (simp add: v w)
    define q where "q = (cp - 0xD800) * 1024 + (trail - 0xDC00) + 0x10000"
    have q: "0x10000 \<le> q" "q \<le> 0x10FFFF" using 4 tr by (auto simp: q_def)
    have "push_bit 10 ((cp - 0xD800) AND 0x3FF) OR ((trail - 0xDC00) AND 0x3FF)
            = (cp - 0xD800) * 1024 + (trail - 0xDC00)"
      using or_shifted [of "trail - 0xDC00" 10 "cp - 0xD800"] 4 tr by (simp add: and_masks)
    then have out: "out = [byte ((drop_bit 18 q AND 0x07) OR 0xF0), byte ((drop_bit 12 q AND 0x3F) OR 0x80),
         byte ((drop_bit 6 q AND 0x3F) OR 0x80), byte ((q AND 0x3F) OR 0x80)]" and r: "r = w"
      using res 4 tr by (simp_all add: unf v w Let_def q_def)
    have split: "((q div 262144 * 64 + q div 4096 mod 64) * 64 + q div 64 mod 64) * 64 + q mod 64 = q"
      using div_mult_mod_eq [of "q div 4096" 64] div_mult_mod_eq [of "q div 64" 64]
        div_mult_mod_eq [of q 64] by (simp add: div_mult2_eq [symmetric])
    have "q div 262144 < 8" using q by auto
    moreover from this have "verify_utf8_sequence (byte (q div 262144 + 0xF0) # byte (q div 4096 mod 64 + 0x80)
        # byte (q div 64 mod 64 + 0x80) # byte (q mod 64 + 0x80) # t) = Some 4"
      using q verify_4 [of "q div 262144" "q div 4096 mod 64" "q div 64 mod 64" "q mod 64" t, unfolded split]
      by simp
    ultimately show ?thesis using skip skip'
      unfolding out r by (simp add: s v w bits_arith drop_bit_eq_div)
  qed
qed

section \<open>The output fits the buffer\<close>

lemma simple_escape_not_u: "simple_escape CHR ''u'' = None"
  by (simp add: simple_escape_def)

lemma skip_quoted_shorter: "skip_quoted s = Some r \<Longrightarrow> length r < length s"
proof (induction s rule: skip_quoted.induct)
  case (2 c cs)
  then show ?case
    by (cases "c = CHR 0x22"; cases "c = CHR 0x5C"; cases cs) (auto split: if_splits)
qed simp

lemma process_loop_fits:
  assumes "skip_quoted s = Some r" and "process_loop s left = Some out"
    and "left = length s - length r - 1"
  shows "length out \<le> left"
  using assms
proof (induction s left arbitrary: out rule: process_loop.induct)
  case (1 s left)
  note short = skip_quoted_shorter [OF "1.prems"(1)]
  obtain c cs where s: "s = c # cs" using "1.prems"(1) by (cases s) auto
  show ?case
  proof (cases "left = 0")
    case True
    then show ?thesis using "1.prems"(2) s by (subst (asm) process_loop.simps) auto
  next
    case left: False
    have nq: "c \<noteq> CHR 0x22" using "1.prems"(1,3) left s by auto
    show ?thesis
    proof (cases "c = CHR 0x5C")
      case False
      then obtain out' where o: "process_loop cs (left - 1) = Some out'" "out = c # out'"
        using "1.prems"(2) s left by (subst (asm) process_loop.simps) (auto split: if_splits)
      have sk: "skip_quoted cs = Some r" using "1.prems"(1) s nq False by simp
      have ctrl: "\<not> code c < 0x20"
        using "1.prems"(2) s left False by (subst (asm) process_loop.simps) (auto split: if_splits)
      have "length out' \<le> left - 1"
        using "1.IH"(3) [OF s left False ctrl sk o(1)] "1.prems"(3) s by simp
      then show ?thesis using o left by simp
    next
      case bs: True
      then obtain e es where cs: "cs = e # es" using "1.prems"(1) s by (cases cs) auto
      have sk: "skip_quoted es = Some r" using "1.prems"(1) s cs bs by simp
      show ?thesis
      proof (cases "e = CHR ''u''")
        case True
        then obtain o1 r1 out' where p: "parse_utf16 es = Some (o1, r1)"
            and o: "process_loop r1 (left - (length s - length r1)) = Some out'" "out = o1 @ out'"
          using "1.prems"(2) s cs bs left
          by (subst (asm) process_loop.simps) (auto split: option.splits)
        note esc = escape_verifies [OF p, of "[]"]
        from esc have short1: "length o1 + length r1 < length es" by simp
        have sk1: "skip_quoted r1 = Some r" using esc sk by simp
        have "length out' \<le> left - (length s - length r1)"
          using "1.IH"(1) [OF s left bs cs True p refl sk1 o(1)] "1.prems"(3) esc
            skip_quoted_shorter [OF sk1] s cs by simp
        then show ?thesis using o(2) short1 "1.prems"(3) skip_quoted_shorter [OF sk1] unfolding s cs by simp
      next
        case False
        then obtain x out' where x: "simple_escape e = Some x"
            and o: "process_loop es (left - 2) = Some out'" "out = x # out'"
          using "1.prems"(2) s cs bs left
          by (subst (asm) process_loop.simps) (auto split: option.splits)
        have "length out' \<le> left - 2"
          using "1.IH"(2) [OF s left bs cs False x sk o(1)] "1.prems"(3) s cs by simp
        then show ?thesis using o left skip_quoted_shorter [OF sk] "1.prems"(3) s cs by simp
      qed
    qed
  qed
qed

section \<open>The character of an escape\<close>

text \<open>The UTF-16 unit of four hexadecimal digits, the code point of an escape with the input after it, and UTF-8.\<close>

definition utf16_unit :: "string \<Rightarrow> nat option" where
  "utf16_unit s =
     (if 4 \<le> length s \<and> list_all is_xdigit (take 4 s) then Some (hex_val (take 4 s)) else None)"

definition escape_point :: "string \<Rightarrow> (nat \<times> string) option" where
  "escape_point s =
     (case utf16_unit s of
        None \<Rightarrow> None
      | Some u \<Rightarrow>
          if u < 0xD800 \<or> 0xDFFF < u then Some (u, drop 4 s)
          else if u < 0xDC00 \<and> take 2 (drop 4 s) = [CHR 0x5C, CHR ''u''] then
            (case utf16_unit (drop 6 s) of
               None \<Rightarrow> None
             | Some l \<Rightarrow>
                 if 0xDC00 \<le> l \<and> l \<le> 0xDFFF
                 then Some (0x10000 + (u - 0xD800) * 1024 + (l - 0xDC00), drop 10 s) else None)
          else None)"

definition utf8_bytes :: "nat \<Rightarrow> string" where
  "utf8_bytes cp =
     (if cp < 0x80 then [byte cp]
      else if cp < 0x800 then [byte (0xC0 + cp div 64), byte (0x80 + cp mod 64)]
      else if cp < 0x10000 then [byte (0xE0 + cp div 4096), byte (0x80 + cp div 64 mod 64), byte (0x80 + cp mod 64)]
      else [byte (0xF0 + cp div 262144), byte (0x80 + cp div 4096 mod 64), byte (0x80 + cp div 64 mod 64),
            byte (0x80 + cp mod 64)])"

lemma hex_char_xdigit:
  "hex_char_to_int c = (case xdigit_val c of None \<Rightarrow> -1 | Some n \<Rightarrow> int n)"
  by (auto simp: hex_char_to_int_def xdigit_val_def Let_def)

lemma xdigit_less: "xdigit_val c = Some n \<Longrightarrow> n < 16"
  by (auto simp: xdigit_val_def Let_def split: if_splits)

lemma or_digits:
  assumes "b < 16" and "c < 16" and "d < (16 :: nat)"
  shows "push_bit 12 a OR push_bit 8 b OR push_bit 4 c OR d = ((a * 16 + b) * 16 + c) * 16 + d"
proof -
  have "push_bit 4 c OR d = c * 16 + d" using or_shifted [of d 4 c] assms by simp
  moreover have "push_bit 8 b OR (c * 16 + d) = b * 256 + (c * 16 + d)"
    using or_shifted [of "c * 16 + d" 8 b] assms by simp
  moreover have "push_bit 12 a OR (b * 256 + (c * 16 + d)) = a * 4096 + (b * 256 + (c * 16 + d))"
    using or_shifted [of "b * 256 + (c * 16 + d)" 12 a] assms by simp
  ultimately show ?thesis by (simp add: or.assoc)
qed

lemma parse_utf16_hex_unit: "parse_utf16_hex s = utf16_unit s"
proof (cases s rule: parse_utf16_hex.cases)
  case (1 a b c d t)
  show ?thesis
  proof (cases "list_all is_xdigit [a, b, c, d]")
    case True
    then obtain x y z w where v: "xdigit_val a = Some x" "xdigit_val b = Some y" "xdigit_val c = Some z" "xdigit_val d = Some w"
      by (auto simp: is_xdigit_def)
    then have "y < 16" "z < 16" "w < 16" using xdigit_less by blast+
    from or_digits [OF this, of x] show ?thesis
      by (simp add: 1 utf16_unit_def hex_val_def is_xdigit_def hex_char_xdigit v)
  next
    case False
    then show ?thesis
      by (auto simp: 1 utf16_unit_def is_xdigit_def hex_char_xdigit Let_def)
  qed
qed (auto simp: utf16_unit_def)

lemma utf16_unit_less: "utf16_unit s = Some u \<Longrightarrow> u < 0x10000"
  using parse_utf16_hexE [of s u] parse_utf16_hex_unit by metis

lemma utf8_bits:
  "cp < 0x800 \<Longrightarrow> [byte ((drop_bit 6 cp AND 0x1F) OR 0xC0), byte ((cp AND 0x3F) OR 0x80)]
     = [byte (0xC0 + cp div 64), byte (0x80 + cp mod 64)]"
  "cp < 0x10000 \<Longrightarrow> [byte ((drop_bit 12 cp AND 0x0F) OR 0xE0), byte ((drop_bit 6 cp AND 0x3F) OR 0x80), byte ((cp AND 0x3F) OR 0x80)]
     = [byte (0xE0 + cp div 4096), byte (0x80 + cp div 64 mod 64), byte (0x80 + cp mod 64)]"
  "cp < 0x200000 \<Longrightarrow> [byte ((drop_bit 18 cp AND 0x07) OR 0xF0), byte ((drop_bit 12 cp AND 0x3F) OR 0x80),
      byte ((drop_bit 6 cp AND 0x3F) OR 0x80), byte ((cp AND 0x3F) OR 0x80)]
     = [byte (0xF0 + cp div 262144), byte (0x80 + cp div 4096 mod 64), byte (0x80 + cp div 64 mod 64), byte (0x80 + cp mod 64)]"
  by (simp_all add: bits_arith drop_bit_eq_div add.commute)

lemma pair_bits:
  assumes "0xD800 \<le> u" and "u < 0xDC00" and "0xDC00 \<le> l" and "l \<le> 0xDFFF"
  shows "(push_bit 10 ((u - 0xD800) AND 0x3FF) OR ((l - 0xDC00) AND 0x3FF)) + 0x010000
    = 0x10000 + (u - 0xD800) * 1024 + (l - (0xDC00 :: nat))"
  using assms or_shifted [of "l - 0xDC00" 10 "u - 0xD800"] by (simp add: bits_arith)

lemma escape_bytes: "parse_utf16 s = map_option (\<lambda>(cp, r). (utf8_bytes cp, r)) (escape_point s)"
proof (cases "utf16_unit s")
  case None
  then show ?thesis by (simp add: parse_utf16_def escape_point_def parse_utf16_hex_unit)
next
  case (Some u)
  note lt = utf16_unit_less [OF Some]
  note unf = parse_utf16_def escape_point_def parse_utf16_hex_unit Some option.case
  consider "u < 0xD800 \<or> 0xDFFF < u" | "0xD800 \<le> u" "u < 0xDC00" | "0xDC00 \<le> u" "u \<le> 0xDFFF" by linarith
  then show ?thesis
  proof cases
    case 1
    then show ?thesis using utf8_bits(1,2) [of u] lt by (auto simp: unf utf8_bytes_def)
  next
    case 2
    show ?thesis
    proof (cases "take 2 (drop 4 s) = [CHR 0x5C, CHR ''u'']")
      case False
      then show ?thesis using 2 by (auto simp: unf split: list.split)
    next
      case True
      then obtain t where t: "drop 4 s = CHR 0x5C # CHR ''u'' # t"
        by (metis append_take_drop_id append_Cons append_Nil)
      then have d: "drop 6 s = t" "drop 10 s = drop 4 t"
        using drop_drop [of 2 4 s] drop_drop [of 4 6 s] by simp_all
      show ?thesis
      proof (cases "utf16_unit t")
        case None
        then show ?thesis using 2 by (simp add: unf t d)
      next
        case l: (Some l)
        let ?cp = "0x10000 + (u - 0xD800) * 1024 + (l - (0xDC00 :: nat))"
        show ?thesis
        proof (cases "0xDC00 \<le> l \<and> l \<le> 0xDFFF")
          case True
          then have "?cp < 0x200000" "\<not> ?cp < 0x10000" using 2 by auto
          then have "utf8_bytes ?cp = [byte ((drop_bit 18 ?cp AND 0x07) OR 0xF0), byte ((drop_bit 12 ?cp AND 0x3F) OR 0x80),
              byte ((drop_bit 6 ?cp AND 0x3F) OR 0x80), byte ((?cp AND 0x3F) OR 0x80)]"
            by (subst utf8_bits(3)) (simp_all add: utf8_bytes_def)
          moreover have "parse_utf16 s = Some (let cp = (push_bit 10 ((u - 0xD800) AND 0x3FF) OR ((l - 0xDC00) AND 0x3FF)) + 0x010000
              in ([byte ((drop_bit 18 cp AND 0x07) OR 0xF0), byte ((drop_bit 12 cp AND 0x3F) OR 0x80),
                byte ((drop_bit 6 cp AND 0x3F) OR 0x80), byte ((cp AND 0x3F) OR 0x80)], drop 4 t))"
            using True 2 l by (simp add: parse_utf16_def parse_utf16_hex_unit Some t Let_def)
          moreover have p: "(push_bit 10 ((u - 0xD800) AND 0x3FF) OR ((l - 0xDC00) AND 0x3FF)) + 0x010000 = ?cp"
            using True 2 by (intro pair_bits) simp_all
          moreover have "escape_point s = Some (?cp, drop 4 t)"
            using True 2 l by (simp add: escape_point_def Some t d)
          ultimately show ?thesis by (simp only: p Let_def option.map prod.case)
        next
          case False
          then show ?thesis using 2 by (auto simp: unf t d l)
        qed
      qed
    qed
  next
    case 3
    then show ?thesis by (simp add: unf)
  qed
qed

section \<open>Properties of the text layer\<close>

text \<open>
  C33. Strings survive being written and read back: for every byte string \<open>s\<close> (control
  characters, quotes, backslashes and non-ASCII bytes included), with slashes escaped or
  not, \<^verbatim>\<open>get_quoted_string\<close> applied to what \<^verbatim>\<open>json_serialize_string\<close> writes returns \<open>s\<close> and
  stops exactly after the closing quote, as soon as the two buffers can be allocated.
\<close>

theorem string_roundtrip:
  assumes "mok (length (json_serialize_string esc s (length s)) - 1)" and "mok (length s + 1)"
  shows "get_quoted_string mok (json_serialize_string esc s (length s) @ r) = Some (s, r)"
  by (rule get_quoted_serialized [OF assms])

theorem string_roundtrip_witness:
  "get_quoted_string (\<lambda>n. n < 100) (json_serialize_string True ''a/b'' 3 @ '', 1'') = Some (''a/b'', '', 1'')"
proof -
  have "length (json_serialize_string True ''a/b'' 3) - 1 < 100"
    by (simp add: json_serialize_string_def serialize_char_def numeral_3_eq_3)
  then show ?thesis using string_roundtrip [of "\<lambda>n. n < 100" True "''a/b''" "'', 1''"]
    by (simp add: numeral_3_eq_3)
qed

text \<open>
  C36. A \<^verbatim>\<open>\uXXXX\<close> escape is written as the UTF-8 bytes of its character: \<^verbatim>\<open>parse_utf16\<close>
  returns the encoding of the code point of the escape, or of the surrogate pair, and the input
  after it, and fails exactly on four characters that are not hexadecimal digits and on
  surrogates without their partner. \<^verbatim>\<open>verify_utf8_sequence\<close> accepts what it wrote, and the
  escape is longer than its translation, so the output never overtakes the input.
\<close>

theorem utf16_escape_is_utf8:
  "parse_utf16 s = map_option (\<lambda>(cp, r). (utf8_bytes cp, r)) (escape_point s)
   \<and> (\<forall>out r. parse_utf16 s = Some (out, r) \<longrightarrow>
        verify_utf8_sequence (out @ t) = Some (length out) \<and> length out + length r < length s)"
  using escape_bytes [of s] escape_verifies by blast

theorem utf16_escape_is_utf8_witness:
  "parse_utf16 ''20ac!'' = Some ([CHR 0xE2, CHR 0x82, CHR 0xAC], ''!'')
   \<and> verify_utf8_sequence ([CHR 0xE2, CHR 0x82, CHR 0xAC] @ ''x'') = Some 3"
proof -
  have "escape_point ''20ac!'' = Some (0x20AC, ''!'')"
    by (simp add: escape_point_def utf16_unit_def hex_val_def is_xdigit_def xdigit_val_def)
  moreover have "utf8_bytes 0x20AC = [CHR 0xE2, CHR 0x82, CHR 0xAC]" by (simp add: utf8_bytes_def byte_def char_of_def bit_0)
  ultimately have p: "parse_utf16 ''20ac!'' = Some ([CHR 0xE2, CHR 0x82, CHR 0xAC], ''!'')"
    using utf16_escape_is_utf8 [of "''20ac!''" "''x''"] by simp
  from utf16_escape_is_utf8 [of "''20ac!''" "''x''", THEN conjunct2, rule_format, OF p] show ?thesis
    using p by simp
qed

text \<open>
  \<^verbatim>\<open>process_string\<close> never writes past its buffer: for the length that
  \<^verbatim>\<open>get_quoted_string\<close> passes (the bytes between the quotes \<^verbatim>\<open>skip_quotes\<close> found), the
  decoded string has at most that many bytes, so with its NUL it fits the
  \<^verbatim>\<open>input_len + 1\<close> bytes allocated.
\<close>

theorem process_string_in_bounds:
  assumes "skip_quotes s = Some r" and "process_string mok (tl s) (length s - length r - 2) = Some out"
  shows "length out \<le> length s - length r - 2 \<and> mok (length s - length r - 1)"
proof -
  obtain cs where s: "s = CHR 0x22 # cs" and sk: "skip_quoted cs = Some r"
    using assms(1) by (auto simp: skip_quotes_def split: list.splits if_splits)
  have "length r < length cs" by (rule skip_quoted_shorter [OF sk])
  then have "length s - length r - 2 = length cs - length r - 1"
    and eq: "Suc (length cs - Suc (length r)) = length s - length r - 1" by (simp_all add: s)
  moreover have "process_loop cs (length s - length r - 2) = Some out"
    using assms(2) by (auto simp: process_string_def s split: if_splits option.splits)
  moreover have "mok (length s - length r - 1)"
    using assms(2) eq by (auto simp: process_string_def s split: if_splits)
  ultimately show ?thesis using process_loop_fits [OF sk] by auto
qed

theorem process_string_in_bounds_witness:
  "length (''a'' @ [CHR 0x22]) \<le> (4 :: nat)"
proof -
  let ?s = "json_serialize_string True [CHR ''a'', CHR 0x22] 2 @ '':''"
  have len: "length ?s = 6"
    by (simp add: json_serialize_string_def serialize_char_def numeral_2_eq_2)
  have "skip_quotes ?s = Some '':''"
    by (simp add: json_serialize_string_def serialize_char_def numeral_2_eq_2 skip_quotes_def)
  moreover have "process_string (\<lambda>_. True) (tl ?s) 3 = Some [CHR ''a'', CHR 0x22]"
    using process_serialized [of True "[CHR ''a'', CHR 0x22]" "CHR 0x22 # '':''"]
    by (simp add: process_string_def json_serialize_string_def serialize_char_def numeral_2_eq_2 numeral_3_eq_3)
  ultimately show ?thesis
    using process_string_in_bounds [of ?s "'':''" "\<lambda>_. True" "[CHR ''a'', CHR 0x22]"] len by simp
qed

end
