(* ===== verification/Parson_Value.thy ===== *)
theory Parson_Value
  imports Parson_Object Parson_Text Float64
begin

text \<open>
  JSON values of \<^verbatim>\<open>include/parson.c\<close>: construction, the typed getters, arrays, and the setters on
  objects and dotted paths. A pointer that may be \<^verbatim>\<open>NULL\<close> is an \<open>option\<close>. Ownership is a tree, so
  \<^verbatim>\<open>parent\<close> and \<^verbatim>\<open>wrapping_value\<close> are not stored; where the code tests \<^verbatim>\<open>value->parent\<close>, the
  argument \<open>attached\<close> says whether the value already has an owner. Freeing has no result here.
  A status is a boolean, \<open>True\<close> for \<^verbatim>\<open>JSONSuccess\<close>.
\<close>

section \<open>Values\<close>

datatype 'v json_array = JSON_Array (elems: "'v list") (capacity: nat)

datatype json =
    JObject "json json_object"
  | JArray "json json_array"
  | JString string
  | JNumber f64
  | JBoolean bool
  | JNull

datatype JSON_Value_Type =
    JSONError | JSONNull | JSONString | JSONNumber | JSONObject | JSONArray | JSONBoolean

fun json_value_get_type :: "json option \<Rightarrow> JSON_Value_Type" where
  "json_value_get_type None = JSONError"
| "json_value_get_type (Some (JObject _)) = JSONObject"
| "json_value_get_type (Some (JArray _)) = JSONArray"
| "json_value_get_type (Some (JString _)) = JSONString"
| "json_value_get_type (Some (JNumber _)) = JSONNumber"
| "json_value_get_type (Some (JBoolean _)) = JSONBoolean"
| "json_value_get_type (Some JNull) = JSONNull"

fun json_value_get_object :: "json option \<Rightarrow> json json_object option" where
  "json_value_get_object (Some (JObject obj)) = Some obj"
| "json_value_get_object _ = None"

fun json_value_get_array :: "json option \<Rightarrow> json json_array option" where
  "json_value_get_array (Some (JArray a)) = Some a"
| "json_value_get_array _ = None"

fun json_value_get_string_desc :: "json option \<Rightarrow> string option" where
  "json_value_get_string_desc (Some (JString s)) = Some s"
| "json_value_get_string_desc _ = None"

text \<open>The \<^verbatim>\<open>const char *\<close>: readers see the bytes before the first NUL.\<close>

definition json_value_get_string :: "json option \<Rightarrow> string option" where
  "json_value_get_string v = map_option cstr (json_value_get_string_desc v)"

definition json_value_get_string_len :: "json option \<Rightarrow> nat" where
  "json_value_get_string_len v =
     (case json_value_get_string_desc v of None \<Rightarrow> 0 | Some s \<Rightarrow> length s)"

fun json_value_get_number :: "json option \<Rightarrow> f64" where
  "json_value_get_number (Some (JNumber x)) = x"
| "json_value_get_number _ = f64_zero"

fun json_value_get_boolean :: "json option \<Rightarrow> int" where
  "json_value_get_boolean (Some (JBoolean b)) = (if b then 1 else 0)"
| "json_value_get_boolean _ = -1"

section \<open>Construction\<close>

definition json_array_make :: "(nat \<Rightarrow> bool) \<Rightarrow> 'v json_array option" where
  "json_array_make mok = (if mok 32 then Some (JSON_Array [] 0) else None)"

definition json_value_init_object :: "(nat \<Rightarrow> bool) \<Rightarrow> json option" where
  "json_value_init_object mok = (if mok 32 then map_option JObject (json_object_make mok) else None)"

definition json_value_init_array :: "(nat \<Rightarrow> bool) \<Rightarrow> json option" where
  "json_value_init_array mok = (if mok 32 then map_option JArray (json_array_make mok) else None)"

definition json_value_init_string_no_copy :: "(nat \<Rightarrow> bool) \<Rightarrow> string \<Rightarrow> json option" where
  "json_value_init_string_no_copy mok s = (if mok 32 then Some (JString s) else None)"

definition parson_strndup :: "(nat \<Rightarrow> bool) \<Rightarrow> string \<Rightarrow> nat \<Rightarrow> string option" where
  "parson_strndup mok s n = (if mok (n + 1) then Some (take n s) else None)"

definition json_value_init_string_with_len :: "(nat \<Rightarrow> bool) \<Rightarrow> string option \<Rightarrow> nat \<Rightarrow> json option" where
  "json_value_init_string_with_len mok str len =
     (case str of
        None \<Rightarrow> None
      | Some s \<Rightarrow>
          if \<not> is_valid_utf8 s len then None
          else (case parson_strndup mok s len of
                  None \<Rightarrow> None
                | Some copy \<Rightarrow> json_value_init_string_no_copy mok copy))"

definition json_value_init_string :: "(nat \<Rightarrow> bool) \<Rightarrow> string option \<Rightarrow> json option" where
  "json_value_init_string mok str =
     (case str of
        None \<Rightarrow> None
      | Some s \<Rightarrow> json_value_init_string_with_len mok (Some (cstr s)) (length (cstr s)))"

definition json_value_init_number :: "(nat \<Rightarrow> bool) \<Rightarrow> f64 \<Rightarrow> json option" where
  "json_value_init_number mok x =
     (if is_number_invalid x then None else if mok 32 then Some (JNumber x) else None)"

definition json_value_init_boolean :: "(nat \<Rightarrow> bool) \<Rightarrow> int \<Rightarrow> json option" where
  "json_value_init_boolean mok b = (if mok 32 then Some (JBoolean (b \<noteq> 0)) else None)"

definition json_value_init_null :: "(nat \<Rightarrow> bool) \<Rightarrow> json option" where
  "json_value_init_null mok = (if mok 32 then Some JNull else None)"

section \<open>Reading objects and arrays\<close>

definition json_object_get_value :: "json json_object option \<Rightarrow> string \<Rightarrow> json option outcome" where
  "json_object_get_value obj name =
     (case obj of None \<Rightarrow> Ret None | Some ob \<Rightarrow> json_object_getn_value ob name (length name))"

definition json_object_get_string :: "json json_object option \<Rightarrow> string \<Rightarrow> string option outcome" where
  "json_object_get_string obj name =
     obind (json_object_get_value obj name) (\<lambda>v. Ret (json_value_get_string v))"

definition json_object_get_string_len :: "json json_object option \<Rightarrow> string \<Rightarrow> nat outcome" where
  "json_object_get_string_len obj name =
     obind (json_object_get_value obj name) (\<lambda>v. Ret (json_value_get_string_len v))"

definition json_object_get_number :: "json json_object option \<Rightarrow> string \<Rightarrow> f64 outcome" where
  "json_object_get_number obj name =
     obind (json_object_get_value obj name) (\<lambda>v. Ret (json_value_get_number v))"

definition json_object_get_object ::
    "json json_object option \<Rightarrow> string \<Rightarrow> json json_object option outcome" where
  "json_object_get_object obj name =
     obind (json_object_get_value obj name) (\<lambda>v. Ret (json_value_get_object v))"

definition json_object_get_array ::
    "json json_object option \<Rightarrow> string \<Rightarrow> json json_array option outcome" where
  "json_object_get_array obj name =
     obind (json_object_get_value obj name) (\<lambda>v. Ret (json_value_get_array v))"

definition json_object_get_boolean :: "json json_object option \<Rightarrow> string \<Rightarrow> int outcome" where
  "json_object_get_boolean obj name =
     obind (json_object_get_value obj name) (\<lambda>v. Ret (json_value_get_boolean v))"

text \<open>\<^verbatim>\<open>strchr(name, '.')\<close>: what precedes the first dot and what follows it.\<close>

definition at_dot :: "string \<Rightarrow> (string \<times> string) option" where
  "at_dot name =
     (let p = takeWhile (\<lambda>c. c \<noteq> CHR ''.'') name
      in if length p = length name then None else Some (p, drop (Suc (length p)) name))"

lemma at_dot_shorter: "at_dot name = Some (p, r) \<Longrightarrow> length r < length name"
  using length_takeWhile_le [of "\<lambda>c. c \<noteq> CHR ''.''" name]
  by (auto simp: at_dot_def Let_def split: if_splits)

function json_object_dotget_value :: "json json_object option \<Rightarrow> string \<Rightarrow> json option outcome" where
  "json_object_dotget_value obj name =
     (case at_dot name of
        None \<Rightarrow> json_object_get_value obj name
      | Some (p, rest) \<Rightarrow>
          obind (case obj of None \<Rightarrow> Ret None | Some ob \<Rightarrow> json_object_getn_value ob name (length p))
            (\<lambda>v. json_object_dotget_value (json_value_get_object v) rest))"
  by pat_completeness auto
termination
  by (relation "measure (\<lambda>(obj, name). length name)") (auto dest: at_dot_shorter)

declare json_object_dotget_value.simps [simp del]

definition json_object_has_value :: "json json_object option \<Rightarrow> string \<Rightarrow> bool outcome" where
  "json_object_has_value obj name = obind (json_object_get_value obj name) (\<lambda>v. Ret (v \<noteq> None))"

definition json_object_has_value_of_type ::
    "json json_object option \<Rightarrow> string \<Rightarrow> JSON_Value_Type \<Rightarrow> bool outcome" where
  "json_object_has_value_of_type obj name ty =
     obind (json_object_get_value obj name) (\<lambda>v. Ret (v \<noteq> None \<and> json_value_get_type v = ty))"

definition json_array_get_count :: "'v json_array option \<Rightarrow> nat" where
  "json_array_get_count a = (case a of None \<Rightarrow> 0 | Some ar \<Rightarrow> length (elems ar))"

definition json_array_get_value :: "json json_array option \<Rightarrow> nat \<Rightarrow> json option" where
  "json_array_get_value a index =
     (case a of
        None \<Rightarrow> None
      | Some ar \<Rightarrow> if json_array_get_count a \<le> index then None else Some (elems ar ! index))"

definition json_array_get_string :: "json json_array option \<Rightarrow> nat \<Rightarrow> string option" where
  "json_array_get_string a index = json_value_get_string (json_array_get_value a index)"

definition json_array_get_string_len :: "json json_array option \<Rightarrow> nat \<Rightarrow> nat" where
  "json_array_get_string_len a index = json_value_get_string_len (json_array_get_value a index)"

definition json_array_get_number :: "json json_array option \<Rightarrow> nat \<Rightarrow> f64" where
  "json_array_get_number a index = json_value_get_number (json_array_get_value a index)"

definition json_array_get_object :: "json json_array option \<Rightarrow> nat \<Rightarrow> json json_object option" where
  "json_array_get_object a index = json_value_get_object (json_array_get_value a index)"

definition json_array_get_array :: "json json_array option \<Rightarrow> nat \<Rightarrow> json json_array option" where
  "json_array_get_array a index = json_value_get_array (json_array_get_value a index)"

definition json_array_get_boolean :: "json json_array option \<Rightarrow> nat \<Rightarrow> int" where
  "json_array_get_boolean a index = json_value_get_boolean (json_array_get_value a index)"

section \<open>Changing arrays\<close>

definition json_array_resize ::
    "(nat \<Rightarrow> bool) \<Rightarrow> 'v json_array \<Rightarrow> nat \<Rightarrow> 'v json_array option outcome" where
  "json_array_resize mok a new_capacity =
     (if new_capacity = 0 then Ret None
      else if \<not> mok (new_capacity * 8) then Ret None
      else if new_capacity < length (elems a) then UB
      else Ret (Some (JSON_Array (elems a) new_capacity)))"

definition json_array_store :: "'v json_array \<Rightarrow> 'v \<Rightarrow> 'v json_array option outcome" where
  "json_array_store a v =
     (if capacity a \<le> length (elems a) then UB else Ret (Some (JSON_Array (elems a @ [v]) (capacity a))))"

definition json_array_add ::
    "(nat \<Rightarrow> bool) \<Rightarrow> 'v json_array \<Rightarrow> 'v \<Rightarrow> 'v json_array option outcome" where
  "json_array_add mok a v =
     (if capacity a \<le> length (elems a)
      then obind (json_array_resize mok a (max (capacity a * 2) STARTING_CAPACITY)) (\<lambda>r. case r of
             None \<Rightarrow> Ret None
           | Some a' \<Rightarrow> json_array_store a' v)
      else json_array_store a v)"

text \<open>The result of the operations below is the status and the array as it is then.\<close>

definition kept :: "'a \<Rightarrow> 'a option outcome \<Rightarrow> (bool \<times> 'a) outcome" where
  "kept a m = obind m (\<lambda>r. Ret (case r of None \<Rightarrow> (False, a) | Some a' \<Rightarrow> (True, a')))"

definition json_array_append_value ::
    "(nat \<Rightarrow> bool) \<Rightarrow> json json_array \<Rightarrow> json option \<Rightarrow> bool \<Rightarrow> (bool \<times> json json_array) outcome" where
  "json_array_append_value mok a value attached =
     (case value of
        None \<Rightarrow> Ret (False, a)
      | Some v \<Rightarrow> if attached then Ret (False, a) else kept a (json_array_add mok a v))"

definition json_array_append_string where
  "json_array_append_string mok a str = json_array_append_value mok a (json_value_init_string mok str) False"

definition json_array_append_string_with_len where
  "json_array_append_string_with_len mok a str len =
     json_array_append_value mok a (json_value_init_string_with_len mok str len) False"

definition json_array_append_number where
  "json_array_append_number mok a x = json_array_append_value mok a (json_value_init_number mok x) False"

definition json_array_append_boolean where
  "json_array_append_boolean mok a b = json_array_append_value mok a (json_value_init_boolean mok b) False"

definition json_array_append_null where
  "json_array_append_null mok a = json_array_append_value mok a (json_value_init_null mok) False"

definition json_array_replace_value ::
    "json json_array \<Rightarrow> nat \<Rightarrow> json option \<Rightarrow> bool \<Rightarrow> bool \<times> json json_array" where
  "json_array_replace_value a ix value attached =
     (case value of
        None \<Rightarrow> (False, a)
      | Some v \<Rightarrow>
          if attached \<or> length (elems a) \<le> ix then (False, a)
          else (True, JSON_Array ((elems a)[ix := v]) (capacity a)))"

definition json_array_replace_string where
  "json_array_replace_string mok a i str = json_array_replace_value a i (json_value_init_string mok str) False"

definition json_array_replace_string_with_len where
  "json_array_replace_string_with_len mok a i str len =
     json_array_replace_value a i (json_value_init_string_with_len mok str len) False"

definition json_array_replace_number where
  "json_array_replace_number mok a i x = json_array_replace_value a i (json_value_init_number mok x) False"

definition json_array_replace_boolean where
  "json_array_replace_boolean mok a i b = json_array_replace_value a i (json_value_init_boolean mok b) False"

definition json_array_replace_null where
  "json_array_replace_null mok a i = json_array_replace_value a i (json_value_init_null mok) False"

definition json_array_remove :: "json json_array \<Rightarrow> nat \<Rightarrow> bool \<times> json json_array" where
  "json_array_remove a ix =
     (if length (elems a) \<le> ix then (False, a)
      else (True, JSON_Array (take ix (elems a) @ drop (Suc ix) (elems a)) (capacity a)))"

definition json_array_clear :: "json json_array \<Rightarrow> bool \<times> json json_array" where
  "json_array_clear a = (True, JSON_Array [] (capacity a))"

section \<open>Changing objects\<close>

definition set_optional ::
    "(nat \<Rightarrow> bool) \<Rightarrow> json json_object \<Rightarrow> string \<Rightarrow> json option \<Rightarrow> (bool \<times> json json_object) outcome" where
  "set_optional mok obj name value =
     (case value of None \<Rightarrow> Ret (False, obj) | Some v \<Rightarrow> json_object_set_value mok obj name v False)"

definition json_object_set_string where
  "json_object_set_string mok obj name str = set_optional mok obj name (json_value_init_string mok str)"

definition json_object_set_string_with_len where
  "json_object_set_string_with_len mok obj name str len =
     set_optional mok obj name (json_value_init_string_with_len mok str len)"

definition json_object_set_number where
  "json_object_set_number mok obj name x = set_optional mok obj name (json_value_init_number mok x)"

definition json_object_set_boolean where
  "json_object_set_boolean mok obj name b = set_optional mok obj name (json_value_init_boolean mok b)"

definition json_object_set_null where
  "json_object_set_null mok obj name = set_optional mok obj name (json_value_init_null mok)"

text \<open>An update of a nested object through its pointer: the value stored under \<open>key\<close> becomes \<open>v\<close>.\<close>

definition write_back :: "json json_object \<Rightarrow> string \<Rightarrow> json \<Rightarrow> json json_object outcome" where
  "write_back obj key v =
     obind (json_object_get_cell_ix obj key (length key) (hash_string key (length key)))
       (\<lambda>(cell_ix, found). if found then replace_value obj cell_ix v else UB)"

function json_object_dotset_value ::
    "(nat \<Rightarrow> bool) \<Rightarrow> json json_object \<Rightarrow> string \<Rightarrow> json \<Rightarrow> bool \<Rightarrow> (bool \<times> json json_object) outcome" where
  "json_object_dotset_value mok obj name v attached =
     (case at_dot name of
        None \<Rightarrow> json_object_set_value mok obj name v attached
      | Some (p, rest) \<Rightarrow>
          obind (json_object_getn_value obj name (length p)) (\<lambda>temp_value. case temp_value of
            Some tv \<Rightarrow>
              (case tv of
                 JObject temp_object \<Rightarrow>
                   obind (json_object_dotset_value mok temp_object rest v attached) (\<lambda>(ok, temp_object').
                     obind (write_back obj p (JObject temp_object')) (\<lambda>obj'. Ret (ok, obj')))
               | _ \<Rightarrow> Ret (False, obj))
          | None \<Rightarrow>
              (case json_value_get_object (json_value_init_object mok) of
                 None \<Rightarrow> Ret (False, obj)
               | Some new_object \<Rightarrow>
                   obind (json_object_dotset_value mok new_object rest v attached) (\<lambda>(ok, new_object').
                     if \<not> ok then Ret (False, obj)
                     else if \<not> mok (length p + 1) then Ret (False, obj)
                     else kept obj (json_object_add mok obj p (JObject new_object'))))))"
  by pat_completeness auto
termination
  by (relation "measure (\<lambda>(mok, obj, name, v, attached). length name)") (auto dest: at_dot_shorter)

declare json_object_dotset_value.simps [simp del]

definition dotset_optional where
  "dotset_optional mok obj name value =
     (case value of None \<Rightarrow> Ret (False, obj) | Some v \<Rightarrow> json_object_dotset_value mok obj name v False)"

definition json_object_dotset_string where
  "json_object_dotset_string mok obj name str = dotset_optional mok obj name (json_value_init_string mok str)"

definition json_object_dotset_string_with_len where
  "json_object_dotset_string_with_len mok obj name str len =
     dotset_optional mok obj name (json_value_init_string_with_len mok str len)"

definition json_object_dotset_number where
  "json_object_dotset_number mok obj name x = dotset_optional mok obj name (json_value_init_number mok x)"

definition json_object_dotset_boolean where
  "json_object_dotset_boolean mok obj name b = dotset_optional mok obj name (json_value_init_boolean mok b)"

definition json_object_dotset_null where
  "json_object_dotset_null mok obj name = dotset_optional mok obj name (json_value_init_null mok)"

definition json_object_remove :: "json json_object \<Rightarrow> string \<Rightarrow> (bool \<times> json json_object) outcome" where
  "json_object_remove obj name = kept obj (json_object_remove_internal obj name)"

function json_object_dotremove_internal ::
    "json json_object \<Rightarrow> string \<Rightarrow> (bool \<times> json json_object) outcome" where
  "json_object_dotremove_internal obj name =
     (case at_dot name of
        None \<Rightarrow> kept obj (json_object_remove_internal obj name)
      | Some (p, rest) \<Rightarrow>
          obind (json_object_getn_value obj name (length p)) (\<lambda>temp_value.
            case json_value_get_object temp_value of
              None \<Rightarrow> Ret (False, obj)
            | Some temp_object \<Rightarrow>
                obind (json_object_dotremove_internal temp_object rest) (\<lambda>(ok, temp_object').
                  obind (write_back obj p (JObject temp_object')) (\<lambda>obj'. Ret (ok, obj')))))"
  by pat_completeness auto
termination
  by (relation "measure (\<lambda>(obj, name). length name)") (auto dest: at_dot_shorter)

declare json_object_dotremove_internal.simps [simp del]

end
