(* ===== verification/Parson_Parser.thy ===== *)
theory Parson_Parser
  imports Parson_Value
begin

text \<open>
  The recursive descent parser of \<^verbatim>\<open>include/parson.c\<close>. The input is the list of bytes before the
  NUL; a parse function returns the value and the input that is left, \<open>None\<close> where the code
  returns \<^verbatim>\<open>NULL\<close>. The recursion is on the nesting still allowed: \<open>parse_at (n + 1)\<close> is
  \<^verbatim>\<open>parse_value\<close> at nesting \<^verbatim>\<open>MAX_NESTING - n\<close>. The two loops carry a bound on their number of
  rounds; one more than the length of the input is enough (\<open>UB\<close>, the value at bound 0, is proved
  unreachable).
\<close>

definition MAX_NESTING :: nat where "MAX_NESTING = 2048"

type_synonym 'a parsed = "('a \<times> string) option outcome"

section \<open>Scalars\<close>

definition starts_with :: "string \<Rightarrow> string \<Rightarrow> bool" where
  "starts_with p s = (take (length p) s = p)"

text \<open>\<^verbatim>\<open>is_decimal\<close>: no leading zero before another digit, no hexadecimal marker.\<close>

definition is_decimal :: "string \<Rightarrow> nat \<Rightarrow> bool" where
  "is_decimal s n =
     (if 1 < n \<and> s ! 0 = CHR ''0'' \<and> s ! 1 \<noteq> CHR ''.'' then False
      else if 2 < n \<and> take 2 s = ''-0'' \<and> s ! 2 \<noteq> CHR ''.'' then False
      else list_all (\<lambda>c. c \<noteq> CHR ''x'' \<and> c \<noteq> CHR ''X'') (take n s))"

definition parse_string_value :: "(nat \<Rightarrow> bool) \<Rightarrow> string \<Rightarrow> json parsed" where
  "parse_string_value mok s =
     (case get_quoted_string mok s of
        None \<Rightarrow> Ret None
      | Some (str, r) \<Rightarrow> Ret (map_option (\<lambda>v. (v, r)) (json_value_init_string_no_copy mok str)))"

definition parse_boolean_value :: "(nat \<Rightarrow> bool) \<Rightarrow> string \<Rightarrow> json parsed" where
  "parse_boolean_value mok s =
     (if starts_with ''true'' s
      then Ret (map_option (\<lambda>v. (v, drop 4 s)) (json_value_init_boolean mok 1))
      else if starts_with ''false'' s
      then Ret (map_option (\<lambda>v. (v, drop 5 s)) (json_value_init_boolean mok 0))
      else Ret None)"

definition parse_number_value :: "(nat \<Rightarrow> bool) \<Rightarrow> string \<Rightarrow> json parsed" where
  "parse_number_value mok s =
     (case strtod s of ((number, range_error), n) \<Rightarrow>
        if range_error \<and> (case number of Inf _ \<Rightarrow> True | _ \<Rightarrow> False) then Ret None
        else if \<not> is_decimal s n then Ret None
        else Ret (map_option (\<lambda>v. (v, drop n s)) (json_value_init_number mok number)))"

definition parse_null_value :: "(nat \<Rightarrow> bool) \<Rightarrow> string \<Rightarrow> json parsed" where
  "parse_null_value mok s =
     (if starts_with ''null'' s then Ret (map_option (\<lambda>v. (v, drop 4 s)) (json_value_init_null mok))
      else Ret None)"

section \<open>Objects and arrays\<close>

text \<open>\<^verbatim>\<open>**string == c\<close>.\<close>

definition at_char :: "char \<Rightarrow> string \<Rightarrow> bool" where
  "at_char c s = (s \<noteq> [] \<and> hd s = c)"

text \<open>
  One round of the loop of \<^verbatim>\<open>parse_object_value\<close>: \<open>pv\<close> is \<^verbatim>\<open>parse_value\<close> one level deeper. The
  result says whether the loop goes on.
\<close>

definition object_member ::
    "(nat \<Rightarrow> bool) \<Rightarrow> (string \<Rightarrow> json parsed) \<Rightarrow> json json_object \<Rightarrow> string
     \<Rightarrow> (bool \<times> json json_object) parsed" where
  "object_member mok pv obj s =
     (case get_quoted_string mok s of
        None \<Rightarrow> Ret None
      | Some (new_key, r) \<Rightarrow>
          if length new_key \<noteq> length (cstr new_key) then Ret None
          else if \<not> at_char (CHR '':'') (skip_ws r) then Ret None
          else obind (pv (tl (skip_ws r))) (\<lambda>p. case p of
                 None \<Rightarrow> Ret None
               | Some (new_value, r2) \<Rightarrow>
                   obind (json_object_add mok obj new_key new_value) (\<lambda>a. case a of
                     None \<Rightarrow> Ret None
                   | Some obj' \<Rightarrow>
                       let r3 = skip_ws r2
                       in if \<not> at_char (CHR '','') r3 then Ret (Some ((False, obj'), r3))
                          else let r4 = skip_ws (tl r3)
                               in Ret (Some ((\<not> at_char (CHR ''}'') r4, obj'), r4)))))"

fun object_members ::
    "nat \<Rightarrow> (nat \<Rightarrow> bool) \<Rightarrow> (string \<Rightarrow> json parsed) \<Rightarrow> json json_object \<Rightarrow> string
     \<Rightarrow> json json_object parsed" where
  "object_members 0 mok pv obj s = UB"
| "object_members (Suc rounds) mok pv obj s =
     (if s = [] then Ret (Some (obj, s))
      else obind (object_member mok pv obj s) (\<lambda>m. case m of
             None \<Rightarrow> Ret None
           | Some ((more, obj'), r) \<Rightarrow>
               if more then object_members rounds mok pv obj' r else Ret (Some (obj', r))))"

definition parse_object_value ::
    "(nat \<Rightarrow> bool) \<Rightarrow> (string \<Rightarrow> json parsed) \<Rightarrow> string \<Rightarrow> json parsed" where
  "parse_object_value mok pv s =
     (case json_value_get_object (json_value_init_object mok) of
        None \<Rightarrow> Ret None
      | Some output_object \<Rightarrow>
          if \<not> at_char (CHR ''{'') s then Ret None
          else let r = skip_ws (tl s)
               in if at_char (CHR ''}'') r then Ret (Some (JObject output_object, tl r))
                  else obind (object_members (Suc (length s)) mok pv output_object r) (\<lambda>m. case m of
                         None \<Rightarrow> Ret None
                       | Some (obj, r') \<Rightarrow>
                           if at_char (CHR ''}'') (skip_ws r') then Ret (Some (JObject obj, tl (skip_ws r')))
                           else Ret None))"

definition array_item ::
    "(nat \<Rightarrow> bool) \<Rightarrow> (string \<Rightarrow> json parsed) \<Rightarrow> json json_array \<Rightarrow> string
     \<Rightarrow> (bool \<times> json json_array) parsed" where
  "array_item mok pv ja s =
     obind (pv s) (\<lambda>p. case p of
       None \<Rightarrow> Ret None
     | Some (new_value, r2) \<Rightarrow>
         obind (json_array_add mok ja new_value) (\<lambda>a. case a of
           None \<Rightarrow> Ret None
         | Some ja' \<Rightarrow>
             let r3 = skip_ws r2
             in if \<not> at_char (CHR '','') r3 then Ret (Some ((False, ja'), r3))
                else let r4 = skip_ws (tl r3)
                     in Ret (Some ((\<not> at_char (CHR '']'') r4, ja'), r4))))"

fun array_items ::
    "nat \<Rightarrow> (nat \<Rightarrow> bool) \<Rightarrow> (string \<Rightarrow> json parsed) \<Rightarrow> json json_array \<Rightarrow> string
     \<Rightarrow> json json_array parsed" where
  "array_items 0 mok pv ja s = UB"
| "array_items (Suc rounds) mok pv ja s =
     (if s = [] then Ret (Some (ja, s))
      else obind (array_item mok pv ja s) (\<lambda>m. case m of
             None \<Rightarrow> Ret None
           | Some ((more, ja'), r) \<Rightarrow>
               if more then array_items rounds mok pv ja' r else Ret (Some (ja', r))))"

text \<open>The array is trimmed to its length when it is complete.\<close>

definition parse_array_value ::
    "(nat \<Rightarrow> bool) \<Rightarrow> (string \<Rightarrow> json parsed) \<Rightarrow> string \<Rightarrow> json parsed" where
  "parse_array_value mok pv s =
     (case json_value_get_array (json_value_init_array mok) of
        None \<Rightarrow> Ret None
      | Some output_array \<Rightarrow>
          if \<not> at_char (CHR ''['') s then Ret None
          else let r = skip_ws (tl s)
               in if at_char (CHR '']'') r then Ret (Some (JArray output_array, tl r))
                  else obind (array_items (Suc (length s)) mok pv output_array r) (\<lambda>m. case m of
                         None \<Rightarrow> Ret None
                       | Some (ja, r') \<Rightarrow>
                           if \<not> at_char (CHR '']'') (skip_ws r') then Ret None
                           else obind (json_array_resize mok ja (length (elems ja))) (\<lambda>t. case t of
                                  None \<Rightarrow> Ret None
                                | Some ja' \<Rightarrow> Ret (Some (JArray ja', tl (skip_ws r'))))))"

section \<open>Values\<close>

definition parse_step :: "(nat \<Rightarrow> bool) \<Rightarrow> (string \<Rightarrow> json parsed) \<Rightarrow> string \<Rightarrow> json parsed" where
  "parse_step mok pv str =
     (case skip_ws str of
        [] \<Rightarrow> Ret None
      | c # t \<Rightarrow>
          if c = CHR ''{'' then parse_object_value mok pv (c # t)
          else if c = CHR ''['' then parse_array_value mok pv (c # t)
          else if c = CHR 0x22 then parse_string_value mok (c # t)
          else if c = CHR ''f'' \<or> c = CHR ''t'' then parse_boolean_value mok (c # t)
          else if c = CHR ''-'' \<or> isdigit c then parse_number_value mok (c # t)
          else if c = CHR ''n'' then parse_null_value mok (c # t)
          else Ret None)"

primrec parse_at :: "nat \<Rightarrow> (nat \<Rightarrow> bool) \<Rightarrow> string \<Rightarrow> json parsed" where
  "parse_at 0 mok = (\<lambda>s. Ret None)"
| "parse_at (Suc k) mok = (\<lambda>s. parse_step mok (parse_at k mok) s)"

definition parse_value :: "(nat \<Rightarrow> bool) \<Rightarrow> string \<Rightarrow> nat \<Rightarrow> json parsed" where
  "parse_value mok s nesting = parse_at (Suc MAX_NESTING - nesting) mok s"

text \<open>\<^verbatim>\<open>json_parse_string\<close>: a byte order mark is skipped, and what follows the value is not looked at.\<close>

definition json_parse_string :: "(nat \<Rightarrow> bool) \<Rightarrow> string \<Rightarrow> json option outcome" where
  "json_parse_string mok str =
     (let s = cstr str;
          s' = (if starts_with [CHR 0xEF, CHR 0xBB, CHR 0xBF] s then drop 3 s else s)
      in obind (parse_value mok s' 0) (\<lambda>r. Ret (map_option fst r)))"

section \<open>Comments\<close>

text \<open>\<^verbatim>\<open>strstr\<close>: the text before the first occurrence of the token and the text from it on.\<close>

fun strstr :: "string \<Rightarrow> string \<Rightarrow> (string \<times> string) option" where
  "strstr tok s =
     (if starts_with tok s then Some ([], s)
      else case s of [] \<Rightarrow> None | c # cs \<Rightarrow> map_option (\<lambda>(a, b). (c # a, b)) (strstr tok cs))"

declare strstr.simps [simp del]

lemma strstr_split: "strstr tok s = Some (a, b) \<Longrightarrow> s = a @ b \<and> starts_with tok b"
proof (induction tok s arbitrary: a b rule: strstr.induct)
  case (1 tok s)
  then show ?case
    by (subst (asm) strstr.simps) (auto split: if_splits list.splits)
qed

definition blank :: "nat \<Rightarrow> string" where
  "blank n = replicate n (CHR '' '')"

function remove_comments_from :: "bool \<Rightarrow> bool \<Rightarrow> string \<Rightarrow> string \<Rightarrow> string \<Rightarrow> string" where
  "remove_comments_from in_string escaped start_token end_token s =
     (case s of
        [] \<Rightarrow> []
      | c # cs \<Rightarrow>
          if c = CHR 0x5C \<and> \<not> escaped
          then c # remove_comments_from in_string True start_token end_token cs
          else if c = CHR 0x22 \<and> \<not> escaped
          then c # remove_comments_from (\<not> in_string) False start_token end_token cs
          else if \<not> in_string \<and> start_token \<noteq> [] \<and> starts_with start_token s
          then (let n = length start_token
                in case strstr end_token (drop n s) of
                     None \<Rightarrow> blank n @ drop n s
                   | Some (a, b) \<Rightarrow>
                       blank (n + length a + length end_token)
                       @ remove_comments_from in_string False start_token end_token
                           (drop (length end_token) b))
          else c # remove_comments_from in_string False start_token end_token cs)"
  by pat_completeness auto
termination
proof (relation "measure (\<lambda>(i, e, st, et, s). length s)", goal_cases)
  case (4 i e st et s c cs n x a b)
  then have "drop n s = a @ b" using strstr_split by (metis prod.collapse)
  then have "length b \<le> length s - n" by (metis length_append length_drop le_add2)
  moreover have "0 < n" "0 < length s" using 4 by auto
  ultimately have "length b < length s" by linarith
  then show ?case by (simp add: less_imp_diff_less)
qed auto

declare remove_comments_from.simps [simp del]

definition remove_comments :: "string \<Rightarrow> string \<Rightarrow> string \<Rightarrow> string" where
  "remove_comments s start_token end_token =
     (if start_token = [] \<or> end_token = [] then s
      else remove_comments_from False False start_token end_token s)"

definition json_parse_string_with_comments :: "(nat \<Rightarrow> bool) \<Rightarrow> string \<Rightarrow> json option outcome" where
  "json_parse_string_with_comments mok str =
     (case parson_strndup mok (cstr str) (length (cstr str)) of
        None \<Rightarrow> Ret None
      | Some copy \<Rightarrow>
          obind (parse_value mok
                   (remove_comments (remove_comments copy ''/*'' ''*/'') ''//'' [CHR 0x0A]) 0)
            (\<lambda>r. Ret (map_option fst r)))"

section \<open>Well-formed values\<close>

text \<open>
  What the parser builds, with at most \<open>d\<close> levels: consistent objects with keys free of NUL,
  arrays within their capacity, finite numbers.
\<close>

primrec well_formed :: "nat \<Rightarrow> json \<Rightarrow> bool" where
  "well_formed 0 v = False"
| "well_formed (Suc d) v =
     (case v of
        JObject obj \<Rightarrow> obj_ok obj \<and> list_all no_nul (names obj) \<and> list_all (well_formed d) (item_values obj)
      | JArray a \<Rightarrow> length (elems a) \<le> capacity a \<and> list_all (well_formed d) (elems a)
      | JNumber x \<Rightarrow> \<not> is_number_invalid x
      | _ \<Rightarrow> True)"

definition members_ok :: "nat \<Rightarrow> json json_object \<Rightarrow> bool" where
  "members_ok d obj = (obj_ok obj \<and> list_all no_nul (names obj) \<and> list_all (well_formed d) (item_values obj))"

definition elems_ok :: "nat \<Rightarrow> json json_array \<Rightarrow> bool" where
  "elems_ok d a = (length (elems a) \<le> capacity a \<and> list_all (well_formed d) (elems a))"

declare well_formed.simps(2) [simp del]

lemma well_formed_cases [simp]:
  "well_formed (Suc d) (JObject obj) = members_ok d obj"
  "well_formed (Suc d) (JArray a) = elems_ok d a"
  "well_formed (Suc d) (JNumber x) = (\<not> is_number_invalid x)"
  "well_formed (Suc d) (JString s)" "well_formed (Suc d) (JBoolean b)" "well_formed (Suc d) JNull"
  by (simp_all add: members_ok_def elems_ok_def well_formed.simps(2))

text \<open>A parse function that never leaves its data, moves forward and keeps what it builds well formed.\<close>

definition parses :: "(json \<Rightarrow> bool) \<Rightarrow> (string \<Rightarrow> json parsed) \<Rightarrow> bool" where
  "parses P pv \<longleftrightarrow>
     (\<forall>s. \<exists>r. pv s = Ret r \<and> (\<forall>v t. r = Some (v, t) \<longrightarrow> P v \<and> length t \<le> length s))"

lemma parses_cases:
  assumes "parses P pv"
  obtains "pv s = Ret None" | v t where "pv s = Ret (Some (v, t))" "P v" "length t \<le> length s"
proof -
  obtain r where "pv s = Ret r" "\<forall>v t. r = Some (v, t) \<longrightarrow> P v \<and> length t \<le> length s"
    using assms unfolding parses_def by blast
  then show thesis using that by (cases r) auto
qed

lemma at_charD: "at_char c s \<Longrightarrow> s = c # tl s"
  by (cases s) (auto simp: at_char_def)

lemma get_quoted_shorter: "get_quoted_string mok s = Some (k, r) \<Longrightarrow> length r < length s"
  by (auto simp: get_quoted_string_def skip_quotes_def Let_def dest!: skip_quoted_shorter
      split: option.splits list.splits if_splits)

lemma no_nul_cstr_length: "length s = length (cstr s) \<Longrightarrow> no_nul s"
proof -
  assume "length s = length (cstr s)"
  then have "takeWhile (\<lambda>c. c \<noteq> CHR 0x00) s = s"
    by (metis cstr_def takeWhile_eq_take take_all_iff order_refl)
  then show "no_nul s" by (metis cstr_def cstr_no_nul)
qed

text \<open>Under any allocation failures, an addition either fails or appends.\<close>

lemma add_cases:
  assumes "obj_ok obj" and "mem_limited mok"
  obtains "json_object_add mok obj k v = Ret None"
  | obj' where "json_object_add mok obj k v = Ret (Some obj')" "obj_ok obj'"
      "items obj' = items obj @ [(k, v)]" "k \<notin> set (names obj)"
proof (cases "k \<in> set (names obj)")
  case True
  then show thesis using add_present [OF assms(1)] that(1)
    unfolding json_object_add_def numeral_2_eq_2 by blast
next
  case new: False
  show thesis
  proof (cases "length (names obj) < item_capacity obj \<or> can_grow mok obj")
    case True
    then show thesis using add_fuel_absent [OF assms new True, of 0 v] that(2) new
      unfolding json_object_add_def numeral_2_eq_2 by metis
  next
    case False
    then show thesis using add_fuel_fails [OF assms new, of 0 v] that(1)
      unfolding json_object_add_def numeral_2_eq_2 by auto
  qed
qed

lemma items_snoc:
  assumes "obj_ok obj" and "obj_ok obj'" and "items obj' = items obj @ [(k, v)]"
  shows "names obj' = names obj @ [k]" and "item_values obj' = item_values obj @ [v]"
proof -
  show "names obj' = names obj @ [k]"
    using arg_cong [OF assms(3), of "map fst"] assms(1,2) by (simp add: fst_items)
  have "map snd (items ob) = item_values ob" if "obj_ok ob" for ob :: "'a json_object"
    using obj_ok_fields(2) [OF that] by (simp add: items_def)
  then show "item_values obj' = item_values obj @ [v]"
    using arg_cong [OF assms(3), of "map snd"] assms(1,2) by simp
qed

lemma object_member_ok:
  assumes pv: "parses (well_formed d) pv" and lim: "mem_limited mok" and obj: "members_ok d obj"
  obtains "object_member mok pv obj s = Ret None"
  | more obj' r where "object_member mok pv obj s = Ret (Some ((more, obj'), r))" "members_ok d obj'"
      "length r < length s"
proof (cases "get_quoted_string mok s")
  case None
  then show thesis using that(1) by (simp add: object_member_def)
next
  case (Some kr)
  obtain k r where kr: "kr = (k, r)" by (cases kr)
  have q: "get_quoted_string mok s = Some (k, r)" using Some kr by simp
  have shorter: "length r < length s" by (rule get_quoted_shorter [OF q])
  show thesis
  proof (cases "length k = length (cstr k) \<and> at_char (CHR '':'') (skip_ws r)")
    case False
    then show thesis using that(1) q by (auto simp: object_member_def)
  next
    case ok: True
    have nn: "no_nul k" using ok no_nul_cstr_length by blast
    have len1: "length (tl (skip_ws r)) \<le> length r" using length_skip_ws [of r] unfolding length_tl by linarith
    show thesis
    proof (cases "tl (skip_ws r)" rule: parses_cases [OF pv])
      case 1
      then show thesis using that(1) q ok by (simp add: object_member_def)
    next
      case (2 v t)
      have o: "obj_ok obj" using obj by (simp add: members_ok_def)
      show thesis
      proof (cases rule: add_cases [OF o lim, of k v])
        case 1
        then show thesis using that(1) q ok 2(1) by (simp add: object_member_def)
      next
        case (2 obj')
        have "members_ok d obj'"
          using obj nn 2(2) \<open>well_formed d v\<close> items_snoc [OF o 2(2,3)] by (simp add: members_ok_def)
        moreover have "length (skip_ws t) < length s"
          using length_skip_ws [of t] len1 shorter \<open>length t \<le> _\<close> by linarith
        moreover have "length (skip_ws (tl (skip_ws t))) \<le> length (skip_ws t)"
          by (rule order_trans [OF length_skip_ws]) simp
        ultimately show thesis
          using q ok 2(1) \<open>pv _ = Ret (Some (v, t))\<close>
          by (cases "at_char (CHR '','') (skip_ws t)")
            (auto simp: object_member_def Let_def intro: that(2))
      qed
    qed
  qed
qed

lemma object_members_ok:
  assumes pv: "parses (well_formed d) pv" and lim: "mem_limited mok"
  shows "members_ok d obj \<Longrightarrow> length s < rounds \<Longrightarrow>
    \<exists>m. object_members rounds mok pv obj s = Ret m
        \<and> (\<forall>obj' r. m = Some (obj', r) \<longrightarrow> members_ok d obj' \<and> length r \<le> length s)"
proof (induction rounds arbitrary: obj s)
  case (Suc rounds)
  show ?case
  proof (cases "s = []")
    case False
    show ?thesis
    proof (cases rule: object_member_ok [OF pv lim Suc.prems(1), of s])
      case 1
      then show ?thesis using False by simp
    next
      case (2 more obj' r)
      have "\<exists>m. object_members rounds mok pv obj' r = Ret m
        \<and> (\<forall>obj'' r'. m = Some (obj'', r') \<longrightarrow> members_ok d obj'' \<and> length r' \<le> length r)"
        using Suc.prems(2) 2(2,3) by (intro Suc.IH) auto
      then show ?thesis using 2 False by (cases more) fastforce+
    qed
  qed (use Suc.prems in auto)
qed simp

lemma array_resize_fits:
  "0 < c \<Longrightarrow> mok (c * 8) \<Longrightarrow> length (elems a) \<le> c \<Longrightarrow>
   json_array_resize mok a c = Ret (Some (JSON_Array (elems a) c))"
  by (simp add: json_array_resize_def)

lemma array_add_cases:
  assumes "elems_ok d a" and "well_formed d v"
  obtains "json_array_add mok a v = Ret None"
  | a' where "json_array_add mok a v = Ret (Some a')" "elems_ok d a'" "elems a' = elems a @ [v]"
proof (cases "capacity a \<le> length (elems a)")
  case False
  then show thesis using assms
    by (intro that(2) [of "JSON_Array (elems a @ [v]) (capacity a)"])
      (auto simp: json_array_add_def json_array_store_def elems_ok_def)
next
  case True
  let ?c = "max (capacity a * 2) STARTING_CAPACITY"
  have eq: "capacity a = length (elems a)" using True assms(1) by (simp add: elems_ok_def)
  then have c: "length (elems a) < ?c" by (simp add: STARTING_CAPACITY_def)
  show thesis
  proof (cases "mok (?c * 8)")
    case False
    then show thesis using True c by (intro that(1)) (auto simp: json_array_add_def json_array_resize_def)
  next
    case mem: True
    have "json_array_add mok a v = Ret (Some (JSON_Array (elems a @ [v]) ?c))"
      using True c array_resize_fits [of ?c mok a] mem
      by (auto simp: json_array_add_def json_array_store_def STARTING_CAPACITY_def)
    then show thesis using assms c
      by (intro that(2) [of "JSON_Array (elems a @ [v]) ?c"]) (simp_all add: elems_ok_def del: max_less_iff_conj)
  qed
qed

lemma array_item_ok:
  assumes pv: "parses (well_formed d) pv" and a: "elems_ok d a"
  obtains "array_item mok pv a s = Ret None"
  | more a' r where "array_item mok pv a s = Ret (Some ((more, a'), r))" "elems_ok d a'"
      "length r \<le> length s" "more \<Longrightarrow> length r < length s" "elems a' \<noteq> []"
proof (cases s rule: parses_cases [OF pv])
  case 1
  then show thesis using that(1) by (simp add: array_item_def)
next
  case (2 v t)
  show thesis
  proof (cases rule: array_add_cases [OF a 2(2), of mok])
    case 1
    then show thesis using that(1) 2(1) by (simp add: array_item_def)
  next
    case (2 a')
    have l: "length (skip_ws t) \<le> length s" using length_skip_ws [of t] \<open>length t \<le> _\<close> by linarith
    have "length (skip_ws (tl (skip_ws t))) < length s" if "at_char (CHR '','') (skip_ws t)"
      using l at_charD [OF that] length_skip_ws [of "tl (skip_ws t)"]
      by (metis length_Cons order_le_less_trans order_less_le_trans lessI)
    then show thesis
      using 2 l \<open>pv _ = Ret (Some (v, t))\<close>
      by (cases "at_char (CHR '','') (skip_ws t)")
        (auto simp: array_item_def Let_def less_imp_le intro: that(2))
  qed
qed

lemma array_items_ok:
  assumes pv: "parses (well_formed d) pv"
  shows "elems_ok d a \<Longrightarrow> length s < rounds \<Longrightarrow>
    \<exists>m. array_items rounds mok pv a s = Ret m
        \<and> (\<forall>a' r. m = Some (a', r) \<longrightarrow> elems_ok d a' \<and> length r \<le> length s)"
proof (induction rounds arbitrary: a s)
  case (Suc rounds)
  show ?case
  proof (cases "s = []")
    case False
    show ?thesis
    proof (cases rule: array_item_ok [OF pv Suc.prems(1), of mok s])
      case 1
      then show ?thesis using False by simp
    next
      case (2 more a' r)
      show ?thesis
      proof (cases more)
        case True
        then have "\<exists>m. array_items rounds mok pv a' r = Ret m
          \<and> (\<forall>a'' r'. m = Some (a'', r') \<longrightarrow> elems_ok d a'' \<and> length r' \<le> length r)"
          using Suc.prems(2) 2 by (intro Suc.IH) auto
        then show ?thesis using 2 True False by fastforce
      next
        case False
        then show ?thesis using 2 \<open>s \<noteq> []\<close> by simp
      qed
    qed
  qed (use Suc.prems in auto)
qed simp


lemma obj_ok_made: "json_object_make mok = Some obj \<Longrightarrow> obj_ok obj \<and> names obj = [] \<and> item_values obj = []"
  using empty_object(2) by (auto simp: json_object_make_def json_object_init_def Let_def split: if_splits)

lemma init_object_ok:
  "json_value_get_object (json_value_init_object mok) = Some obj \<Longrightarrow> members_ok d obj"
  by (cases "json_object_make mok :: json json_object option")
    (auto simp: json_value_init_object_def members_ok_def dest: obj_ok_made split: if_splits)

lemma init_array_ok:
  "json_value_get_array (json_value_init_array mok) = Some a \<Longrightarrow> elems_ok d a"
  by (auto simp: json_value_init_array_def json_array_make_def elems_ok_def split: if_splits)

lemma tl_le: "length r \<le> n \<Longrightarrow> length (tl r) \<le> n"
  by (cases r) auto

lemma skip_tl_le: "length r \<le> n \<Longrightarrow> length (skip_ws r) \<le> n" "length r \<le> n \<Longrightarrow> length (tl (skip_ws r)) \<le> n"
proof -
  show "length (skip_ws r) \<le> n" if "length r \<le> n" by (rule order_trans [OF length_skip_ws that])
  then show "length (tl (skip_ws r)) \<le> n" if "length r \<le> n" using that by (intro tl_le) blast
qed

lemma parse_object_ok:
  assumes pv: "parses (well_formed d) pv" and lim: "mem_limited mok"
  shows "parses (well_formed (Suc d)) (parse_object_value mok pv)"
  unfolding parses_def
proof
  fix s
  show "\<exists>m. parse_object_value mok pv s = Ret m
          \<and> (\<forall>v t. m = Some (v, t) \<longrightarrow> well_formed (Suc d) v \<and> length t \<le> length s)"
  proof (cases "json_value_get_object (json_value_init_object mok)")
    case None
    then show ?thesis by (simp add: parse_object_value_def)
  next
    case (Some obj)
    have obj: "members_ok d obj" by (rule init_object_ok [OF Some])
    let ?r = "skip_ws (tl s)"
    have le: "length ?r \<le> length s" by (intro skip_tl_le tl_le) simp
    then have "length ?r < Suc (length s)" by simp
    then obtain m where m: "object_members (Suc (length s)) mok pv obj ?r = Ret m"
        "\<And>obj' r. m = Some (obj', r) \<Longrightarrow> members_ok d obj' \<and> length r \<le> length ?r"
      using object_members_ok [OF pv lim obj] by blast
    have "case m of None \<Rightarrow> True | Some (obj', r) \<Rightarrow> members_ok d obj' \<and> length (tl (skip_ws r)) \<le> length s"
      using m(2) le skip_tl_le(2) by (auto split: option.splits simp del: length_tl intro: order_trans)
    then show ?thesis
      using Some obj m(1) tl_le [OF le]
      by (auto simp: parse_object_value_def Let_def simp del: object_members.simps length_tl split: option.splits)
  qed
qed

lemma parse_array_ok:
  assumes pv: "parses (well_formed d) pv"
  shows "parses (well_formed (Suc d)) (parse_array_value mok pv)"
  unfolding parses_def
proof
  fix s
  show "\<exists>m. parse_array_value mok pv s = Ret m
          \<and> (\<forall>v t. m = Some (v, t) \<longrightarrow> well_formed (Suc d) v \<and> length t \<le> length s)"
  proof (cases "json_value_get_array (json_value_init_array mok)")
    case None
    then show ?thesis by (simp add: parse_array_value_def)
  next
    case (Some a)
    have a: "elems_ok d a" by (rule init_array_ok [OF Some])
    let ?r = "skip_ws (tl s)"
    have le: "length ?r \<le> length s" by (intro skip_tl_le tl_le) simp
    then have "length ?r < Suc (length s)" by simp
    then obtain m where m: "array_items (Suc (length s)) mok pv a ?r = Ret m"
        "\<And>a' r. m = Some (a', r) \<Longrightarrow> elems_ok d a' \<and> length r \<le> length ?r"
      using array_items_ok [OF pv a] by blast
    have "case m of None \<Rightarrow> True | Some (a', r) \<Rightarrow> elems_ok d a' \<and> length (tl (skip_ws r)) \<le> length s"
      using m(2) le skip_tl_le(2) by (auto split: option.splits simp del: length_tl intro: order_trans)
    then show ?thesis
      using Some a m(1) tl_le [OF le]
      by (auto simp: parse_array_value_def Let_def json_array_resize_def elems_ok_def
          simp del: array_items.simps length_tl split: option.splits)
  qed
qed

lemma parse_scalars_ok:
  "parses (well_formed (Suc d)) (parse_string_value mok)"
  "parses (well_formed (Suc d)) (parse_boolean_value mok)"
  "parses (well_formed (Suc d)) (parse_number_value mok)"
  "parses (well_formed (Suc d)) (parse_null_value mok)"
  by (auto simp: parses_def parse_string_value_def parse_boolean_value_def parse_number_value_def
      parse_null_value_def json_value_init_string_no_copy_def json_value_init_boolean_def
      json_value_init_number_def json_value_init_null_def less_imp_le
      dest: get_quoted_shorter split: option.splits prod.splits)

lemma parse_step_ok:
  assumes "parses (well_formed d) pv" and "mem_limited mok"
  shows "parses (well_formed (Suc d)) (parse_step mok pv)"
  unfolding parses_def
proof
  fix s :: string
  define Q :: "json parsed \<Rightarrow> bool" where "Q m \<longleftrightarrow> (\<exists>r. m = Ret r
      \<and> (\<forall>v t. r = Some (v, t) \<longrightarrow> well_formed (Suc d) v \<and> length t \<le> length s))" for m
  note ps = parse_object_ok [OF assms] parse_array_ok [OF assms(1), of mok] parse_scalars_ok [of d mok]
  have "Q (parse_step mok pv s)"
  proof (cases "skip_ws s")
    case Nil
    then show ?thesis by (simp add: parse_step_def Q_def)
  next
    case (Cons c t)
    then have le: "length (c # t) \<le> length s" using length_skip_ws [of s] by simp
    have all: "Q (p (c # t))" if "parses (well_formed (Suc d)) p" for p
      using that le unfolding parses_def Q_def by (meson order_trans)
    have "Q (Ret None)" by (simp add: Q_def)
    then show ?thesis
      unfolding parse_step_def Cons list.case using ps [THEN all] by presburger
  qed
  then show "\<exists>r. parse_step mok pv s = Ret r
          \<and> (\<forall>v t. r = Some (v, t) \<longrightarrow> well_formed (Suc d) v \<and> length t \<le> length s)"
    by (simp add: Q_def)
qed

lemma parse_at_ok:
  assumes "mem_limited mok"
  shows "parses (well_formed k) (parse_at k mok)"
proof (induction k)
  case 0
  then show ?case by (simp add: parses_def)
next
  case (Suc k)
  then show ?case using parse_step_ok [OF _ assms] by simp
qed

lemma json_parse_string_ok:
  assumes "mem_limited mok"
  shows "\<exists>r. json_parse_string mok str = Ret r
             \<and> (\<forall>v. r = Some v \<longrightarrow> well_formed (Suc MAX_NESTING) v)"
proof -
  have p: "parses (well_formed (Suc MAX_NESTING)) (parse_at (Suc MAX_NESTING) mok)"
    by (rule parse_at_ok [OF assms])
  obtain s where s: "json_parse_string mok str
      = obind (parse_at (Suc MAX_NESTING) mok s) (\<lambda>r. Ret (map_option fst r))"
    by (simp add: json_parse_string_def parse_value_def Let_def)
  show ?thesis unfolding s
    by (cases s rule: parses_cases [OF p]) (simp_all del: parse_at.simps)
qed

section \<open>Properties of the parser\<close>

lemma minus_strtod:
  assumes "s = [] \<or> hd s \<notin> set ''.iInN'' \<and> \<not> isdigit (hd s)"
  shows "strtod (CHR ''-'' # s) = ((f64_zero, False), 0)"
proof -
  have sp: "\<not> isspace CHR ''-''" by (simp add: isspace_def)
  have "\<not> istarts ''infinity'' s \<and> \<not> istarts ''inf'' s \<and> \<not> istarts ''nan'' s \<and> \<not> istarts ''0x'' s"
  proof (cases s)
    case (Cons c t)
    then have c: "c \<notin> set ''.iInN''" "\<not> isdigit c" using assms by auto
    have upper: "(of_char c :: nat) \<noteq> of_char (CHR ''I'')" "(of_char c :: nat) \<noteq> of_char (CHR ''N'')"
      using c(1) by (simp_all only: of_char_eq_iff) auto
    moreover have low: "of_char c + (32 :: nat) = of_char x \<and> 65 \<le> (of_char c :: nat)" if "tolower c = x" "c \<noteq> x" for x
    proof -
      have "x = char_of (of_char c + (32 :: nat))" "(of_char c :: nat) \<le> 90" "65 \<le> (of_char c :: nat)"
        using that by (auto simp: tolower_def split: if_splits)
      then show ?thesis by simp
    qed
    moreover have "c \<noteq> CHR ''0''" using c(2) by (auto simp: isdigit_def)
    ultimately have "tolower c \<noteq> CHR ''i''" "tolower c \<noteq> CHR ''n''" "tolower c \<noteq> CHR ''0''"
      using c low [of "CHR ''i''"] low [of "CHR ''n''"] low [of "CHR ''0''"]
      by auto
    then show ?thesis using Cons by (simp add: istarts_def)
  qed (simp_all add: istarts_def)
  moreover have "strtod_decimal True s = ((f64_zero, False), 0)"
    using assms by (cases s) (auto simp: strtod_decimal_def scan_significand_def)
  ultimately show ?thesis using sp by (simp add: strtod_def strtod_unsigned_def Let_def)
qed

lemma parse_nested_fails:
  assumes "pv (CHR ''['' # t) = Ret None"
  shows "parse_step mok pv (CHR ''['' # CHR ''['' # t) = Ret None"
proof -
  have sp: "skip_ws (CHR ''['' # u) = CHR ''['' # u" for u by (simp add: isspace_def)
  have "array_items (Suc n) mok pv ja (CHR ''['' # t) = Ret None" for n ja
    using assms by (simp add: array_item_def)
  then have "parse_array_value mok pv (CHR ''['' # CHR ''['' # t) = Ret None"
    by (simp add: parse_array_value_def at_char_def sp Let_def del: array_items.simps split: option.splits)
  then show ?thesis by (simp add: parse_step_def sp)
qed

text \<open>
  C20. Whatever bytes \<^verbatim>\<open>json_parse_string\<close> is given, and whichever allocations fail, it returns:
  it never reads or writes outside an array, an object table or a string, the loops end within
  their bounds, and a value it returns is well formed to the nesting limit (every object table
  consistent with distinct NUL-free keys, every array within its capacity, every number
  finite, at most 2049 levels).
\<close>

theorem json_parse_safe:
  assumes "mem_limited mok"
  shows "\<exists>r. json_parse_string mok str = Ret r
             \<and> (\<forall>v. r = Some v \<longrightarrow> well_formed (Suc MAX_NESTING) v)"
  using json_parse_string_ok [OF assms] .

theorem json_parse_safe_witness:
  "\<exists>r. json_parse_string (\<lambda>m. m < 64) ''[[[{,'' = Ret r"
proof -
  have "mem_limited (\<lambda>m. m < 64)" by (simp add: mem_limited_def)
  then show ?thesis using json_parse_safe by blast
qed

text \<open>
  C37. The nesting limit is enforced: more than 2049 opening brackets in a row are refused,
  whatever follows them (2049 levels are accepted, see the round trip).
\<close>

theorem nesting_limit:
  assumes "MAX_NESTING + 1 < n"
  shows "json_parse_string mok (replicate n (CHR ''['') @ s) = Ret None"
proof -
  have step: "parse_at k mok (replicate (Suc k) (CHR ''['') @ s') = Ret None" for k s'
  proof (induction k arbitrary: s')
    case (Suc k)
    have "parse_at k mok (CHR ''['' # replicate k (CHR ''['') @ s') = Ret None" using Suc.IH [of s'] by simp
    then show ?case using parse_nested_fails [of "parse_at k mok" "replicate k (CHR ''['') @ s'" mok] by simp
  qed simp
  obtain m where m: "n = Suc (Suc MAX_NESTING) + m" 
    using assms le_Suc_ex [of "Suc (Suc MAX_NESTING)" n] by auto
  have sw: "\<not> starts_with [CHR 0xEF, CHR 0xBB, CHR 0xBF] (CHR ''['' # t)" for t by (simp add: starts_with_def)
  have "cstr (replicate n (CHR ''['') @ s) = replicate (Suc (Suc MAX_NESTING)) (CHR ''['') @ cstr (replicate m (CHR ''['') @ s)"
    unfolding cstr_def m replicate_add append_assoc by (rule takeWhile_append2) auto
  then show ?thesis
    using step [of "Suc MAX_NESTING" "cstr (replicate m (CHR ''['') @ s)"] sw
    by (simp add: json_parse_string_def parse_value_def Let_def del: parse_at.simps)
qed

theorem nesting_limit_witness:
  "json_parse_string (\<lambda>_. True) (replicate 2050 (CHR ''['') @ replicate 2050 (CHR '']'')) = Ret None"
  by (rule nesting_limit) (simp add: MAX_NESTING_def)

text \<open>
  A minus sign that starts no number is read as the number 0: \<^verbatim>\<open>strtod\<close> converts nothing,
  \<^verbatim>\<open>is_decimal\<close> accepts the empty text, and what follows the value is not looked at, so
  \<^verbatim>\<open>json_parse_string\<close> accepts inputs such as \<open>-\<close> and \<open>-abc\<close>, which are not JSON.
\<close>

theorem lone_minus_is_zero:
  assumes "s = [] \<or> hd s \<notin> set ''.iInN'' \<and> \<not> isdigit (hd s)" and "mok 32"
  shows "json_parse_string mok (CHR ''-'' # s) = Ret (Some (JNumber f64_zero))"
proof -
  have "cstr s = [] \<or> hd (cstr s) \<notin> set ''.iInN'' \<and> \<not> isdigit (hd (cstr s))"
    using assms(1) by (cases s) (auto simp: cstr_def)
  then have n: "strtod (CHR ''-'' # cstr s) = ((f64_zero, False), 0)" by (rule minus_strtod)
  have c: "cstr (CHR ''-'' # s) = CHR ''-'' # cstr s" by (simp add: cstr_def)
  have "\<not> starts_with [CHR 0xEF, CHR 0xBB, CHR 0xBF] (CHR ''-'' # cstr s)" by (simp add: starts_with_def)
  then show ?thesis
    using n assms(2)
    by (simp add: json_parse_string_def parse_value_def Let_def c parse_step_def isspace_def
        parse_number_value_def is_decimal_def json_value_init_number_def is_number_invalid_def f64_zero_def)
qed

theorem lone_minus_is_zero_witness:
  "json_parse_string (\<lambda>_. True) ''-abc'' = Ret (Some (JNumber f64_zero))"
  using lone_minus_is_zero [of "''abc''" "\<lambda>_. True"] by (simp add: isdigit_def)

end
