(* ===== verification/Float64_Print.thy ===== *)
theory Float64_Print
  imports Float64 Complex_Main
begin

text \<open>
  Seventeen digits are enough: \<^verbatim>\<open>strtod\<close> reads what \<^verbatim>\<open>"%1.17g"\<close> writes of any finite \<^verbatim>\<open>double\<close>
  as that same \<^verbatim>\<open>double\<close>. The value of a text is compared with the value printed in the reals.
\<close>

section \<open>The finite doubles\<close>

text \<open>Significand and exponent of a binary64 number: normal, or with the least exponent.\<close>

definition is_double :: "f64 \<Rightarrow> bool" where
  "is_double x =
     (case x of
        Finite s m e \<Rightarrow> m < 2 ^ 53 \<and> -1074 \<le> e \<and> e \<le> 971 \<and> (2 ^ 52 \<le> m \<or> e = -1074)
      | _ \<Rightarrow> False)"

lemma is_double_finite: "is_double x \<Longrightarrow> \<not> is_number_invalid x"
  by (cases x) (simp_all add: is_double_def is_number_invalid_def)

section \<open>Rounding to the nearest\<close>

lemma div_near_unique:
  assumes "0 < b" and "\<bar>real M - real a / real b\<bar> < 1 / 2"
  shows "div_near a b = M"
proof -
  let ?d = "a div b" and ?r = "a mod b"
  have a: "real a = real ?d * real b + real ?r" by (simp flip: of_nat_mult of_nat_add)
  have r: "real ?r < real b" "0 \<le> real ?r" using assms(1) by simp_all
  have q: "real a / real b = real ?d + real ?r / real b" using assms(1) by (subst a) (simp add: field_simps)
  show ?thesis
  proof (cases "2 * ?r < b")
    case True
    then have "real ?r / real b < 1 / 2" using assms(1) by (simp add: field_simps flip: of_nat_mult)
    moreover have "0 \<le> real ?r / real b" by simp
    ultimately have "\<bar>real M - real ?d\<bar> < 1" using assms(2) unfolding q by linarith
    then have "M = ?d" by linarith
    then show ?thesis using True by (simp add: div_near_def Let_def)
  next
    case False
    then have "1 / 2 \<le> real ?r / real b" using assms(1) by (simp add: field_simps flip: of_nat_mult)
    moreover have "real ?r / real b < 1" using r assms(1) by simp
    ultimately have m: "0 < real M - real ?d" "real M - real ?d < 3 / 2" using assms(2) unfolding q by linarith+
    then have M: "M = ?d + 1" by linarith
    moreover have "2 * ?r \<noteq> b"
    proof
      assume "2 * ?r = b"
      then have "real b = 2 * real ?r" by linarith
      then have "real ?r / real b = 1 / 2" using assms(1) by simp
      then show False using assms(2) unfolding q M by simp
    qed
    ultimately show ?thesis using False by (simp add: div_near_def Let_def)
  qed
qed

lemma div_near_error:
  assumes "0 < b"
  shows "\<bar>real (div_near a b) - real a / real b\<bar> \<le> 1 / 2"
proof -
  let ?d = "a div b" and ?r = "a mod b"
  have a: "real a = real ?d * real b + real ?r" by (simp flip: of_nat_mult of_nat_add)
  have q: "real a / real b = real ?d + real ?r / real b" using assms by (subst a) (simp add: field_simps)
  have r: "real ?r / real b < 1" "0 \<le> real ?r / real b" using assms by simp_all
  show ?thesis
  proof (cases "2 * ?r < b \<or> 2 * ?r = b \<and> even ?d")
    case True
    then have "2 * real ?r \<le> real b" by linarith
    then have "real ?r / real b \<le> 1 / 2" using assms by (simp add: field_simps)
    then show ?thesis using True r by (simp add: div_near_def Let_def q)
  next
    case False
    then have "real b \<le> 2 * real ?r" by linarith
    then have "1 / 2 \<le> real ?r / real b" using assms by (simp add: field_simps)
    then show ?thesis using False r assms by (simp add: div_near_def Let_def q)
  qed
qed

lemma scale_down_real:
  assumes "0 < q" and "scale_down p q e = (a, b)"
  shows "0 < b" and "real a / real b = real p / real q / 2 powi e"
  using assms by (auto simp: scale_down_def power_int_def field_simps split: if_splits)

lemma bitlen_real:
  assumes "0 < n"
  shows "2 powi (int (bitlen n) - 1) \<le> real n" and "real n < 2 powi int (bitlen n)"
proof -
  have "int (bitlen n) - 1 = int (bitlen n - 1)" using bitlen_bounds(1) [OF assms] by simp
  then have "(2 :: real) powi (int (bitlen n) - 1) = real (2 ^ (bitlen n - 1))" by (simp only: power_int_of_nat) simp
  moreover have "real (2 ^ (bitlen n - 1)) \<le> real n" using bitlen_bounds(2) [OF assms] of_nat_le_iff by blast
  ultimately show "2 powi (int (bitlen n) - 1) \<le> real n" by simp
  have "real n < real (2 ^ bitlen n)" using bitlen_bounds(3) [OF assms] of_nat_less_iff by blast
  then show "real n < 2 powi int (bitlen n)" by (simp add: power_int_of_nat)
qed

lemma powi_step: "(2 :: real) powi (t + 1) = 2 * 2 powi t"
  by (simp add: power_int_add_1)

lemma ulp_exponent_real:
  assumes "0 < p" and "0 < q"
  obtains t where "2 powi t \<le> real p / real q" "real p / real q < 2 powi (t + 1)"
    "ulp_exponent p q = max (-1074) (t - 52)"
proof -
  define d where "d = int (bitlen p) - int (bitlen q)"
  have pos: "0 < real p" "0 < real q" using assms by simp_all
  note bp = bitlen_real [OF assms(1)] and bq = bitlen_real [OF assms(2)]
  have "2 powi (d - 1) = (2 powi (int (bitlen p) - 1) :: real) / 2 powi int (bitlen q)"
    unfolding d_def by (subst power_int_diff [symmetric]) (simp_all add: algebra_simps)
  also have "\<dots> \<le> real p / real q"
    using bp bq pos by (intro frac_le) simp_all
  finally have lo: "2 powi (d - 1) \<le> real p / real q" .
  have "real p / real q < 2 powi int (bitlen p) / 2 powi (int (bitlen q) - 1)"
    using bp bq pos by (intro frac_less) simp_all
  also have "\<dots> = 2 powi (d + 1)"
    unfolding d_def by (subst power_int_diff [symmetric]) (simp_all add: algebra_simps)
  finally have hi: "real p / real q < 2 powi (d + 1)" .
  obtain a b where ab: "scale_down p q d = (a, b)" by (cases "scale_down p q d")
  note s = scale_down_real [OF assms(2) ab]
  have "b \<le> a \<longleftrightarrow> 1 \<le> real a / real b" using s(1) by simp
  also have "\<dots> \<longleftrightarrow> 2 powi d \<le> real p / real q" unfolding s(2) by (subst le_divide_eq_1_pos) simp_all
  finally have top: "b \<le> a \<longleftrightarrow> 2 powi d \<le> real p / real q" .
  show thesis
  proof (cases "b \<le> a")
    case True
    then show thesis using top hi that [of d] by (simp add: ulp_exponent_def ab d_def [symmetric] Let_def)
  next
    case False
    then show thesis using top lo that [of "d - 1"] by (simp add: ulp_exponent_def ab d_def [symmetric] Let_def)
  qed
qed

lemma abs_scaled: "0 < u \<Longrightarrow> \<bar>x - v / u\<bar> = \<bar>x * u - v\<bar> / (u :: real)"
proof -
  assume u: "0 < u"
  then have "x - v / u = (x * u - v) / u" by (simp add: diff_divide_distrib)
  then show ?thesis using u by (simp add: abs_divide)
qed

text \<open>
  A fraction close enough to a double rounds to it: within half a unit of the last place, and
  within a quarter of it below a power of two, where the spacing halves.
\<close>

lemma rounds_to:
  assumes "is_double (Finite s m e)" and "0 < p" and "0 < q"
    and near: "\<bar>real p / real q - real m * 2 powi e\<bar> < 2 powi e / 2"
    and below: "m = 2 ^ 52 \<Longrightarrow> real m * 2 powi e - real p / real q < 2 powi e / 4"
    and "0 < m"
  shows "round_f64 s p q = Finite s m e"
proof -
  let ?v = "real p / real q" and ?u = "(2 :: real) powi e"
  have u: "0 < ?u" by simp
  have m: "m < 2 ^ 53" "-1074 \<le> e" "e \<le> 971" "2 ^ 52 \<le> m \<or> e = -1074"
    using assms(1) by (simp_all add: is_double_def)
  obtain t where t: "2 powi t \<le> ?v" "?v < 2 powi (t + 1)" "ulp_exponent p q = max (-1074) (t - 52)"
    by (rule ulp_exponent_real [OF assms(2,3)])
  have top: "2 powi (e + 53) = 2 ^ 53 * ?u" "2 powi (e + 52) = 2 ^ 52 * ?u"
    by (simp_all add: power_int_add)
  have "real m + 1 \<le> 2 ^ 53" using m(1) by (metis Suc_eq_plus1 Suc_leI numeral_power_eq_of_nat_cancel_iff of_nat_1 of_nat_add of_nat_le_iff)
  then have "(real m + 1) * ?u \<le> 2 ^ 53 * ?u" using u by (intro mult_right_mono) simp_all
  then have "real m * ?u + ?u \<le> 2 ^ 53 * ?u" by (simp only: distrib_right mult_1)
  then have "?v < 2 powi (e + 53)" using near u unfolding top by linarith
  then have "2 powi t < (2 :: real) powi (e + 53)" using t(1) by linarith
  then have te: "t \<le> e + 52" using power_int_increasing [of "e + 53" t "2 :: real"] by (cases "e + 53 \<le> t") simp_all
  show ?thesis
  proof (cases "2 powi (e + 52) \<le> ?v \<or> e = -1074")
    case True
    have x: "ulp_exponent p q = e"
    proof (cases "e = -1074")
      case False
      then have "2 powi (e + 52) < (2 :: real) powi (t + 1)" using True t(2) by linarith
      then have "e + 52 \<le> t"
        using power_int_increasing [of "t + 1" "e + 52" "2 :: real"] by (cases "t + 1 \<le> e + 52") simp_all
      then show ?thesis using te m t(3) by simp
    qed (use te t(3) in simp)
    obtain a b where ab: "scale_down p q e = (a, b)" by (cases "scale_down p q e")
    note s = scale_down_real [OF assms(3) ab]
    have "\<bar>real m - ?v / ?u\<bar> = \<bar>real m * ?u - ?v\<bar> / ?u" by (rule abs_scaled [OF u])
    also have "\<dots> < 1 / 2" using near u by (simp add: pos_divide_less_eq abs_minus_commute)
    finally have "div_near a b = m" by (intro div_near_unique s(1)) (simp add: s(2))
    then show ?thesis using assms(2,3) m by (simp add: round_f64_def x ab Let_def)
  next
    case False
    then have low: "?v < 2 ^ 52 * ?u" and e: "-1074 < e" "2 ^ 52 \<le> m" using m unfolding top by simp_all
    have "m < 2 ^ 52 + 1"
    proof (rule ccontr)
      assume "\<not> m < 2 ^ 52 + 1"
      then have "real (2 ^ 52 + 1) \<le> real m" by (simp only: not_less of_nat_le_iff)
      then have "2 ^ 52 + 1 \<le> real m" by simp
      then have "(2 ^ 52 + 1) * ?u \<le> real m * ?u" using u by (intro mult_right_mono) simp_all
      then have "2 ^ 52 * ?u + ?u \<le> real m * ?u" by (simp only: distrib_right mult_1)
      moreover have "real m * ?u - ?v < ?u / 2" using near unfolding abs_less_iff by linarith
      ultimately show False using low u by linarith
    qed
    then have m52: "m = 2 ^ 52" using e(2) by simp
    have half: "2 * 2 powi (e - 1) = ?u" using powi_step [of "e - 1"] by simp
    have "2 ^ 52 * ?u - ?v < ?u / 2" using near abs_ge_minus_self [of "?v - real m * ?u"] unfolding m52 by simp
    then have "4503599627370496 * ?u - ?v < ?u / 2" by simp
    then have "2251799813685248 * ?u \<le> ?v" using u by linarith
    then have "2 ^ 51 * ?u \<le> ?v" by simp
    moreover have "2 powi (e + 51) = 2 ^ 51 * ?u" by (simp add: power_int_add)
    ultimately have "2 powi (e + 51) < (2 :: real) powi (t + 1)" using t(2) by linarith
    then have "e + 51 \<le> t"
      using power_int_increasing [of "t + 1" "e + 51" "2 :: real"] by (cases "t + 1 \<le> e + 51") simp_all
    moreover have "2 powi t < (2 :: real) powi (e + 52)" using t(1) low unfolding top by linarith
    then have "t < e + 52" using power_int_increasing [of "e + 52" t "2 :: real"] by (cases "e + 52 \<le> t") simp_all
    ultimately have x: "ulp_exponent p q = e - 1" using t(3) e by simp
    obtain a b where ab: "scale_down p q (e - 1) = (a, b)" by (cases "scale_down p q (e - 1)")
    note s = scale_down_real [OF assms(3) ab]
    have h: "0 < (2 :: real) powi (e - 1)" by simp
    have "\<bar>2 ^ 53 - ?v / 2 powi (e - 1)\<bar> = \<bar>2 ^ 53 * 2 powi (e - 1) - ?v\<bar> / 2 powi (e - 1)" by (rule abs_scaled [OF h])
    also have "2 ^ 53 * 2 powi (e - 1) = 2 ^ 52 * ?u" unfolding half [symmetric] by simp
    also have "\<bar>2 ^ 52 * ?u - ?v\<bar> = 2 ^ 52 * ?u - ?v" using low by simp
    also have "(2 ^ 52 * ?u - ?v) / 2 powi (e - 1) < 1 / 2"
      using below [OF m52] h unfolding m52 half [symmetric] by (simp add: pos_divide_less_eq)
    finally have "div_near a b = 2 ^ 53" by (intro div_near_unique s(1)) (simp add: s(2))
    then show ?thesis using assms(2,3) m e by (simp add: round_f64_def x ab Let_def m52)
  qed
qed

section \<open>Seventeen digits\<close>

text \<open>The relative error of seventeen digits is below the spacing of the doubles.\<close>

lemma seventeen_enough:
  assumes d: "is_double (Finite s m e)" and "0 < m" and "0 < p" and "0 < q"
    and "2 * 10 ^ 16 * \<bar>real p / real q - real m * 2 powi e\<bar> \<le> real m * 2 powi e"
  shows "round_f64 s p q = Finite s m e"
proof (rule rounds_to [OF d assms(3,4) _ _ assms(2)])
  let ?u = "(2 :: real) powi e"
  have u: "0 < ?u" by simp
  have eq53: "(2 :: real) ^ 53 = 9007199254740992" by simp
  have err: "20000000000000000 * \<bar>real p / real q - real m * ?u\<bar> \<le> real m * ?u" using assms(5) by simp
  have "real m < 2 ^ 53" using d by (simp add: is_double_def)
  then have "real m * ?u < 2 ^ 53 * ?u" using u by (intro mult_strict_right_mono) simp_all
  then have "real m * ?u < 9007199254740992 * ?u" unfolding eq53 .
  moreover have "z < u' / 2" if "w < 9007199254740992 * u'" "20000000000000000 * z \<le> w" "0 < u'" for w z u' :: real
    using that by linarith
  ultimately show "\<bar>real p / real q - real m * ?u\<bar> < ?u / 2" using err u by blast
  show "real m * ?u - real p / real q < ?u / 4" if "m = 2 ^ 52"
  proof -
    have "w - v < u' / 4" if "20000000000000000 * \<bar>v - w\<bar> \<le> w" "w = 4503599627370496 * u'" "0 < u'" for v w u' :: real
    proof -
      have "20000000000000000 * (w - v) \<le> w" using that(1) abs_ge_minus_self [of "v - w"] by simp
      then show ?thesis using that(2,3) by simp
    qed
    moreover have "real m * ?u = 4503599627370496 * ?u" unfolding that by simp
    ultimately show ?thesis using err u by blast
  qed
qed

lemma declen_real:
  assumes "0 < n"
  shows "10 powi (int (declen n) - 1) \<le> real n" and "real n < 10 powi int (declen n)"
proof -
  have pos: "0 < declen n" using assms by (subst declen.simps) simp
  have "\<not> n < 10 ^ (declen n - 1)" using declen_le_iff [of n "declen n - 1"] pos by linarith
  then have "real (10 ^ (declen n - 1)) \<le> real n" by (subst of_nat_le_iff) simp
  moreover have "int (declen n) - 1 = int (declen n - 1)" using pos by simp
  then have "(10 :: real) powi (int (declen n) - 1) = real (10 ^ (declen n - 1))" by (simp only: power_int_of_nat) simp
  ultimately show "10 powi (int (declen n) - 1) \<le> real n" by simp
  have "real n < real (10 ^ declen n)" using declen_le_iff [of n "declen n"] by (subst of_nat_less_iff) simp
  then show "real n < 10 powi int (declen n)" by (simp add: power_int_of_nat)
qed

lemma dec_exponent_real:
  assumes "0 < p" and "0 < q"
  shows "10 powi dec_exponent p q \<le> real p / real q" and "real p / real q < 10 powi (dec_exponent p q + 1)"
proof -
  have pos: "0 < real p" "0 < real q" using assms by simp_all
  have "10 powi dec_exponent p q \<le> real p / real q \<and> real p / real q < 10 powi (dec_exponent p q + 1)"
  proof (cases "q \<le> p")
    case True
    let ?n = "p div q"
    have "0 < ?n" using True assms by (simp add: div_greater_zero_iff)
    note b = declen_real [OF this]
    have "?n * q \<le> p" by simp
    then have "real ?n * real q \<le> real p" by (simp flip: of_nat_mult)
    then have "real ?n \<le> real p / real q" using pos by (simp add: le_divide_eq)
    moreover have "p < (?n + 1) * q" using assms(2) by (simp add: dividend_less_div_times)
    then have "real p < real ((?n + 1) * q)" by (simp only: of_nat_less_iff)
    then have "real p < (real ?n + 1) * real q" by (simp only: of_nat_mult of_nat_add of_nat_1)
    then have "real p / real q < real ?n + 1" using pos by (simp only: pos_divide_less_eq)
    moreover have "real ?n + 1 \<le> 10 ^ declen ?n"
      using declen_le_iff [of ?n "declen ?n"] by (metis Suc_eq_plus1 Suc_leI le_refl of_nat_1 of_nat_add of_nat_le_iff of_nat_numeral of_nat_power)
    ultimately show ?thesis using b(1) True by (simp add: dec_exponent_def power_int_of_nat)
  next
    case False
    define c where "c = (q + p - 1) div p"
    have "2 * p \<le> q + p - 1 + (p - 1) + 1" using False by simp
    have "c * p \<le> q + p - 1" unfolding c_def by simp
    then have cq: "(c - 1) * p < q" using assms(1) by (cases c) (simp_all add: False assms(2))
    have "q + p - 1 < (c + 1) * p" unfolding c_def using dividend_less_div_times [OF assms(1), of "q + p - 1"] by (simp add: add_mult_distrib)
    then have qc: "q \<le> c * p" by (simp add: algebra_simps)
    have c: "0 < c - 1"
    proof (rule ccontr)
      assume "\<not> 0 < c - 1"
      then have "c \<le> 1" by simp
      then have "c * p \<le> 1 * p" by (rule mult_le_mono1)
      then have "c * p \<le> p" by (simp only: mult_1)
      then show False using qc False by linarith
    qed
    note b = declen_real [OF c]
    define L where "L = int (declen (c - 1))"
    have "real ((c - 1) * p) < real q" using cq by (simp only: of_nat_less_iff)
    then have "real (c - 1) < real q / real p" using pos by (simp add: less_divide_eq)
    then have up: "10 powi (L - 1) < real q / real p" using b(1) unfolding L_def by linarith
    have "c - 1 < 10 ^ declen (c - 1)" using declen_le_iff [of "c - 1" "declen (c - 1)"] by simp
    then have "c \<le> 10 ^ declen (c - 1)" by linarith
    then have "real c \<le> real (10 ^ declen (c - 1))" by (simp only: of_nat_le_iff)
    then have cl: "real c \<le> 10 powi L" unfolding L_def by (simp add: power_int_of_nat)
    have "real q \<le> real (c * p)" using qc by (simp only: of_nat_le_iff)
    then have "real q / real p \<le> real c" using pos by (simp add: divide_le_eq)
    then have lo: "real q / real p \<le> 10 powi L" using cl by linarith
    have i: "real p / real q = inverse (real q / real p)" by simp
    have m: "(10 :: real) powi (- L) = inverse (10 powi L)" "(10 :: real) powi (- L + 1) = inverse (10 powi (L - 1))"
      using power_int_minus [of "10 :: real" L] power_int_minus [of "10 :: real" "L - 1"] by simp_all
    have "inverse (10 powi L) \<le> inverse (real q / real p)"
      by (rule le_imp_inverse_le [OF lo]) (use pos in simp)
    moreover have "inverse (real q / real p) < inverse (10 powi (L - 1))"
      by (rule less_imp_inverse_less [OF up]) simp
    moreover have "dec_exponent p q = - L" using False by (simp add: dec_exponent_def c_def L_def)
    ultimately show ?thesis by (simp only: i m)
  qed
  then show "10 powi dec_exponent p q \<le> real p / real q" "real p / real q < 10 powi (dec_exponent p q + 1)" by blast+
qed

lemma digits17_real:
  assumes "0 < p" and "0 < q" and "digits17 p q = (d, x)"
  shows "10 ^ 16 \<le> d" and "d < 10 ^ 17"
    and "2 * 10 ^ 16 * \<bar>real d * 10 powi (x - 16) - real p / real q\<bar> \<le> real p / real q"
proof -
  define y where "y = dec_exponent p q"
  let ?v = "real p / real q"
  have v: "10 powi y \<le> ?v" "?v < 10 powi (y + 1)" unfolding y_def by (rule dec_exponent_real [OF assms(1,2)])+
  define a b where "a = (if y \<le> 16 then p * 10 ^ nat (16 - y) else p)"
    and "b = (if y \<le> 16 then q else q * 10 ^ nat (y - 16))"
  define n where "n = div_near a b"
  have b: "0 < b" using assms(2) by (simp add: b_def)
  have ab: "real a / real b = ?v * 10 powi (16 - y)"
    using assms(2) by (auto simp: a_def b_def power_int_def field_simps)
  have nn: "n = (if y \<le> 16 then div_near (p * 10 ^ nat (16 - y)) q else div_near p (q * 10 ^ nat (y - 16)))"
    by (simp add: n_def a_def b_def)
  have pw: "0 < (10 :: real) powi (16 - y)" "0 < (10 :: real) powi (y - 16)" by simp_all
  have one: "(10 :: real) powi (16 - y) * 10 powi (y - 16) = 1"
    using power_int_add [of "10 :: real" "16 - y" "y - 16"] by simp
  have "(10 :: real) powi y * 10 powi (16 - y) = 10 ^ 16"
    using power_int_add [of "10 :: real" y "16 - y"] by simp
  moreover have "(10 :: real) powi (y + 1) * 10 powi (16 - y) = 10 ^ 17"
    using power_int_add [of "10 :: real" "y + 1" "16 - y"] by simp
  ultimately have range: "10 ^ 16 \<le> real a / real b" "real a / real b < 10 ^ 17"
    using mult_right_mono [OF v(1), of "10 powi (16 - y)"] mult_strict_right_mono [OF v(2) pw(1)] unfolding ab by simp_all
  have err: "\<bar>real n - real a / real b\<bar> \<le> 1 / 2" unfolding n_def by (rule div_near_error [OF b])
  have "10000000000000000 \<le> real a / real b" "real a / real b < 100000000000000000" using range by simp_all
  then have "10000000000000000 \<le> n" "n \<le> 100000000000000000" using err by linarith+
  then have n: "10 ^ 16 \<le> n" "n \<le> 10 ^ 17" by simp_all
  have "\<bar>real n * 10 powi (y - 16) - ?v\<bar> = \<bar>(real n - real a / real b) * 10 powi (y - 16)\<bar>"
    unfolding ab using one by (simp add: left_diff_distrib mult.assoc)
  also have "\<dots> = \<bar>real n - real a / real b\<bar> * 10 powi (y - 16)" by (simp add: abs_mult)
  also have "\<dots> \<le> 1 / 2 * 10 powi (y - 16)" using err pw by (intro mult_right_mono) simp_all
  finally have "2 * 10 ^ 16 * \<bar>real n * 10 powi (y - 16) - ?v\<bar> \<le> 10 ^ 16 * 10 powi (y - 16)" by simp
  also have "\<dots> = 10 powi y" using power_int_add [of "10 :: real" 16 "y - 16"] by simp
  finally have close: "2 * 10 ^ 16 * \<bar>real n * 10 powi (y - 16) - ?v\<bar> \<le> ?v" using v(1) by linarith
  have dx: "(d, x) = (if n = 10 ^ 17 then (10 ^ 16, y + 1) else (n, y))"
    using assms(3) unfolding digits17_def y_def [symmetric] Let_def nn [symmetric] by simp
  show "10 ^ 16 \<le> d" "d < 10 ^ 17" using n dx by (auto split: if_splits)
  have "real d * 10 powi (x - 16) = real n * 10 powi (y - 16)"
  proof (cases "n = 10 ^ 17")
    case True
    have "(10 :: real) powi (y + 1 - 16) = 10 * 10 powi (y - 16)"
      using power_int_add_1 [of "10 :: real" "y - 16"] by (simp add: algebra_simps)
    then show ?thesis using dx True by simp
  qed (use dx in simp)
  then show "2 * 10 ^ 16 * \<bar>real d * 10 powi (x - 16) - ?v\<bar> \<le> ?v" using close by simp
qed

section \<open>Reading the text\<close>

lemma ratio_real:
  assumes "0 < base" and "ratio n base k = (p, q)"
  shows "0 < q" and "real p / real q = real n * real base powi k" and "0 < n \<Longrightarrow> 0 < p"
  using assms by (auto simp: ratio_def power_int_def field_simps split: if_splits)

lemma dec_val_append: "dec_val (s @ t) = dec_val s * 10 ^ length t + dec_val t"
proof (induction t rule: rev_induct)
  case (snoc c t)
  then show ?case by (simp flip: append_assoc)
qed (simp add: dec_val_def)

lemma dec_val_zeros: "dec_val (replicate k (CHR ''0'')) = 0"
  by (induction k) (simp_all add: dec_val_def digit_val_def flip: replicate_append_same)

lemma strip_zeros_split: "\<exists>k. b = strip_zeros b @ replicate k (CHR ''0'')"
proof -
  have "takeWhile (\<lambda>c. c = CHR ''0'') l = replicate (length (takeWhile (\<lambda>c. c = CHR ''0'') l)) (CHR ''0'')" for l
    by (intro replicate_eqI) (auto dest: set_takeWhileD)
  then have "rev b = replicate (length (takeWhile (\<lambda>c. c = CHR ''0'') (rev b))) (CHR ''0'') @ dropWhile (\<lambda>c. c = CHR ''0'') (rev b)"
    by (metis takeWhile_dropWhile_id)
  then show ?thesis unfolding strip_zeros_def by (metis rev_append rev_replicate rev_rev_ident)
qed

lemma strip_zeros_digits: "list_all isdigit b \<Longrightarrow> list_all isdigit (strip_zeros b)"
  using strip_zeros_split [of b] by (metis list_all_append)

text \<open>Dropping zeros at the end of the fraction keeps the value.\<close>

lemma stripped_value:
  "real (dec_val (a @ strip_zeros b)) * 10 powi (k - int (length (strip_zeros b)))
     = real (dec_val (a @ b)) * 10 powi (k - int (length b))"
proof -
  obtain n where b: "b = strip_zeros b @ replicate n (CHR ''0'')" using strip_zeros_split by blast
  let ?f = "strip_zeros b"
  have "length b = length ?f + n" using b by (metis length_append length_replicate)
  then have l: "k - int (length ?f) = (k - int (length b)) + int n" by simp
  have "dec_val (a @ b) = dec_val (a @ ?f) * 10 ^ n"
    by (subst b) (simp add: dec_val_append dec_val_zeros power_add algebra_simps)
  then show ?thesis unfolding l by (simp add: power_int_add power_int_of_nat)
qed

definition after_digits :: "string \<Rightarrow> bool" where
  "after_digits u = (case u of [] \<Rightarrow> True | c # _ \<Rightarrow> \<not> isdigit c \<and> c \<noteq> CHR ''.'')"

lemma ends_after: "ends_number r \<Longrightarrow> after_digits r"
  by (cases r) (simp_all add: ends_number_def after_digits_def)

lemma takeWhile_after: "list_all isdigit d \<Longrightarrow> after_digits u \<Longrightarrow> takeWhile isdigit (d @ u) = d"
  by (cases u) (auto simp: after_digits_def list_all_iff takeWhile_append2)

lemma scan_with_fraction:
  assumes "list_all isdigit a" and "a \<noteq> []" and "list_all isdigit b" and u: "after_digits u"
  shows "scan_significand isdigit (with_fraction a b @ u) = (a, strip_zeros b, length (with_fraction a b))"
proof (cases "strip_zeros b = []")
  case True
  have "after_digits []" by (simp add: after_digits_def)
  then have tw: "takeWhile isdigit a = a" using takeWhile_after [OF assms(1), of "[]"] by (simp only: append_Nil2)
  show ?thesis using True takeWhile_after [OF assms(1) u] u
    by (cases u) (simp_all add: tw scan_significand_def with_fraction_def Let_def after_digits_def)
next
  case False
  have "takeWhile isdigit (a @ CHR ''.'' # strip_zeros b @ u) = a"
    using assms(1) by (simp add: takeWhile_append2 list_all_iff isdigit_def)
  then show ?thesis using False assms(2) takeWhile_after [OF strip_zeros_digits [OF assms(3)] u]
    by (simp add: scan_significand_def with_fraction_def Let_def)
qed

lemma scan_print_exponent:
  assumes "ends_number r"
  shows "scan_exponent (CHR ''e'') (print_exponent x @ r) = (x, length (print_exponent x))"
proof -
  let ?n = "nat \<bar>x\<bar>"
  define ds where "ds = (if ?n < 10 then [CHR ''0''] else []) @ dec_str ?n"
  have d: "list_all isdigit ds" "ds \<noteq> []" using dec_str_digits [of ?n] by (auto simp: ds_def isdigit_def)
  have v: "dec_val ds = ?n" using dec_val_append [of "''0''" "dec_str ?n"] by (simp add: ds_def dec_val_def [of "''0''"] digit_val_def)
  have e: "print_exponent x = CHR ''e'' # (if x < 0 then CHR ''-'' else CHR ''+'') # ds"
    by (simp add: print_exponent_def ds_def)
  have "takeWhile isdigit (ds @ r) = ds" using takeWhile_digits [OF d(1) assms] .
  then show ?thesis using d(2) by (auto simp: scan_exponent_def e Let_def tolower_def v)
qed

lemma strtod_decimal_fraction:
  assumes "list_all isdigit a" and "a \<noteq> []" and "list_all isdigit b" and "ends_number r"
    and "E = print_exponent k \<or> E = [] \<and> k = 0"
  obtains p q where "strtod_decimal s (with_fraction a b @ E @ r)
      = (round_ratio s (p, q), length (with_fraction a b @ E))"
    "0 < q" "real p / real q = real (dec_val (a @ b)) * 10 powi (k - int (length b))" "0 < dec_val (a @ b) \<Longrightarrow> 0 < p"
proof -
  have "after_digits (E @ r)"
    using assms(5) ends_after [OF assms(4)] by (auto simp: print_exponent_def after_digits_def isdigit_def)
  note scan = scan_with_fraction [OF assms(1-3) this]
  have ex: "scan_exponent (CHR ''e'') (E @ r) = (k, length E)"
    using assms(5) scan_print_exponent [OF assms(4)] scan_exponent_none [OF assms(4)] by auto
  have n: "length (with_fraction a b) \<noteq> 0" using assms(2) by (simp add: with_fraction_def Let_def)
  obtain p q where pq: "ratio (dec_val (a @ strip_zeros b)) 10 (k - int (length (strip_zeros b))) = (p, q)"
    by (cases "ratio (dec_val (a @ strip_zeros b)) 10 (k - int (length (strip_zeros b)))")
  note r = ratio_real [OF _ pq]
  have v: "real p / real q = real (dec_val (a @ b)) * 10 powi (k - int (length b))"
    using r(2) stripped_value [of a b k] by simp
  show thesis
  proof (rule that [of p q])
    show "strtod_decimal s (with_fraction a b @ E @ r) = (round_ratio s (p, q), length (with_fraction a b @ E))"
      using n by (simp add: strtod_decimal_def scan ex pq)
    show "0 < q" using r(1) by simp
    show "0 < p" if "0 < dec_val (a @ b)"
    proof -
      have "0 < real p / real q" unfolding v using that by simp
      then show ?thesis by (cases "p = 0") simp_all
    qed
  qed (rule v)
qed

section \<open>The shape of a printed number\<close>

text \<open>
  Digits, a fraction and an exponent of at most three digits, without a leading zero unless a
  point follows.
\<close>

definition number_text :: "string \<Rightarrow> string \<Rightarrow> string \<Rightarrow> int \<Rightarrow> bool" where
  "number_text a b E k \<longleftrightarrow> list_all isdigit a \<and> a \<noteq> [] \<and> list_all isdigit b
     \<and> (E = print_exponent k \<and> \<bar>k\<bar> < 1000 \<or> E = [] \<and> k = 0)
     \<and> (hd a \<noteq> CHR ''0'' \<or> a = ''0'' \<and> (strip_zeros b \<noteq> [] \<or> E = []))
     \<and> length (with_fraction a b @ E) \<le> 23"

lemma strip_zeros_length: "length (strip_zeros b) \<le> length b"
  using strip_zeros_split [of b] by (metis length_append le_add1)

lemma with_fraction_length: "length (with_fraction a b) \<le> length a + 1 + length b"
  using strip_zeros_length [of b] by (simp add: with_fraction_def Let_def)

lemma print_exponent_length: "\<bar>x\<bar> < 1000 \<Longrightarrow> length (print_exponent x) \<le> 5"
proof -
  assume "\<bar>x\<bar> < 1000"
  then have "nat \<bar>x\<bar> < 10 ^ 3" by simp
  then have "0 < nat \<bar>x\<bar> \<Longrightarrow> length (dec_str (nat \<bar>x\<bar>)) \<le> 3" "nat \<bar>x\<bar> < 10 \<Longrightarrow> length (dec_str (nat \<bar>x\<bar>)) = 1"
    using declen_le_iff length_dec_str by (metis, subst dec_str.simps) simp
  then show ?thesis by (cases "x = 0") (auto simp: print_exponent_def)
qed

lemma print_g17_shape:
  assumes "0 < p" and "0 < q" and "digits17 p q = (d, x)" and "\<bar>x\<bar> < 1000"
  obtains a b E k where "print_g17_pos p q = with_fraction a b @ E" "number_text a b E k"
    "dec_val (a @ b) = d" "real d * 10 powi (k - int (length b)) = real d * 10 powi (x - 16)"
proof -
  let ?s = "dec_str d"
  note d = digits17_real(1,2) [OF assms(1-3)]
  have pos: "0 < d" using d(1) by (rule less_le_trans [rotated]) simp
  have "declen d \<le> 17" using declen_le_iff d(2) by blast
  moreover have "\<not> declen d \<le> 16" using declen_le_iff [of d 16] d(1) by linarith
  ultimately have len: "length ?s = 17" using length_dec_str [OF pos] by linarith
  have dig: "list_all isdigit ?s" "hd ?s \<noteq> CHR ''0''" by (rule dec_str_digits, rule dec_str_leading [OF pos])
  have part: "list_all isdigit (take n ?s)" "list_all isdigit (drop n ?s)" "dec_val (take n ?s @ drop n ?s) = d" for n
    using dig(1) by (auto simp: list_all_iff dest: in_set_takeD in_set_dropD)
  have cut: "take n ?s \<noteq> []" "hd (take n ?s) \<noteq> CHR ''0''" if "0 < n" for n
    using that len dig(2) by (auto simp: hd_take)
  consider "x < -4 \<or> 17 \<le> x" | "0 \<le> x" "x < 17" | "-4 \<le> x" "x < 0" by linarith
  then show thesis
  proof cases
    case 1
    have "length (with_fraction (take 1 ?s) (drop 1 ?s)) \<le> 18"
      using with_fraction_length [of "take 1 ?s" "drop 1 ?s"] len by simp
    then have "number_text (take 1 ?s) (drop 1 ?s) (print_exponent x) x"
      using part [of 1] cut [of 1] print_exponent_length [OF assms(4)] assms(4) by (simp add: number_text_def)
    then show thesis using 1 part(3) [of 1] len
      by (intro that [of "take 1 ?s" "drop 1 ?s" "print_exponent x" x]) (auto simp: print_g17_pos_def assms(3) Let_def)
  next
    case 2
    let ?n = "nat x + 1"
    have "length (with_fraction (take ?n ?s) (drop ?n ?s)) \<le> 18"
      using with_fraction_length [of "take ?n ?s" "drop ?n ?s"] len 2 by simp
    then have "number_text (take ?n ?s) (drop ?n ?s) [] 0"
      using part [of ?n] cut [of ?n] by (simp add: number_text_def)
    then show thesis using 2 part(3) [of ?n] len
      by (intro that [of "take ?n ?s" "drop ?n ?s" "[]" 0]) (auto simp: print_g17_pos_def assms(3) Let_def of_nat_diff)
  next
    case 3
    let ?b = "replicate (nat (- x) - 1) (CHR ''0'') @ ?s"
    have v: "dec_val ?b = d" by (simp add: dec_val_append dec_val_zeros)
    then have v0: "dec_val (''0'' @ ?b) = d" using dec_val_append [of "''0''" ?b] by (simp add: dec_val_def [of "''0''"] digit_val_def)
    have "strip_zeros ?b \<noteq> []"
    proof
      assume "strip_zeros ?b = []"
      then obtain k where "?b = replicate k (CHR ''0'')" using strip_zeros_split [of ?b] by auto
      then show False using v pos dec_val_zeros [of k] by simp
    qed
    moreover have "length ?b \<le> 20" using len 3 by simp
    then have "length (with_fraction ''0'' ?b) \<le> 23" using with_fraction_length [of "''0''" ?b] by simp
    ultimately have "number_text ''0'' ?b [] 0"
      using dig(1) by (auto simp: number_text_def isdigit_def list_all_iff)
    moreover have "0 - int (length ?b) = x - 16" using len 3 by (simp add: of_nat_diff)
    ultimately show thesis using 3 v0
      by (intro that [of "''0''" ?b "[]" 0]) (simp_all add: print_g17_pos_def assms(3) Let_def)
  qed
qed

lemma exponent_bounds:
  assumes "is_double (Finite s m e)" and "0 < m" and "ratio m 2 e = (p, q)" and "digits17 p q = (d, x)"
  shows "\<bar>x\<bar> < 1000"
proof -
  have m: "m < 2 ^ 53" "-1074 \<le> e" "e \<le> 971" using assms(1) by (simp_all add: is_double_def)
  note r = ratio_real [OF _ assms(3), simplified]
  have p: "0 < p" "0 < q" using r assms(2) by simp_all
  let ?y = "dec_exponent p q"
  note y = dec_exponent_real [OF p, unfolded r(2)]
  have "real m * 2 powi e < 2 ^ 53 * 2 powi e" using m(1) by (intro mult_strict_right_mono) simp_all
  also have "\<dots> \<le> 2 ^ 53 * 2 powi 971" using power_int_increasing [of e 971 "2 :: real"] m by simp
  also have "\<dots> < 10 powi 309" by simp
  finally have "10 powi ?y < (10 :: real) powi 309" using y(1) by linarith
  then have hi: "?y < 309" using power_int_increasing [of 309 ?y "10 :: real"] by (cases "309 \<le> ?y") simp_all
  have "(10 :: real) powi (-324) \<le> 1 * 2 powi (-1074)" by (simp add: power_int_minus)
  also have "\<dots> \<le> real m * 2 powi e"
    using power_int_increasing [of "-1074" e "2 :: real"] m assms(2) by (intro mult_mono) simp_all
  finally have "(10 :: real) powi (-324) < 10 powi (?y + 1)" using y(2) by linarith
  then have lo: "-324 < ?y + 1"
    using power_int_increasing [of "?y + 1" "-324" "10 :: real"] by (cases "?y + 1 \<le> -324") simp_all
  have "x = ?y \<or> x = ?y + 1" using assms(4) by (auto simp: digits17_def Let_def split: if_splits)
  then show ?thesis using hi lo by linarith
qed

section \<open>Printing and reading back\<close>

lemma strtod_unsigned_decimal:
  assumes "isdigit c" and "t = [] \<or> tolower (hd t) \<noteq> CHR ''x''"
  shows "strtod_unsigned s (c # t) = strtod_decimal s (c # t)"
proof -
  have "\<not> istarts ''0x'' (c # t)" using assms(2) by (cases t) (auto simp: istarts_def)
  then show ?thesis by (simp add: strtod_unsigned_def istarts_digit [OF assms(1)])
qed

lemma number_text_head:
  assumes "number_text a b E k" and "ends_number r"
  obtains c t where "with_fraction a b @ E = c # t" "isdigit c" "t @ r = [] \<or> tolower (hd (t @ r)) \<noteq> CHR ''x''"
    "c = CHR ''0'' \<Longrightarrow> t = [] \<or> hd t = CHR ''.''"
proof -
  have n: "list_all isdigit a" "a \<noteq> []" "E = print_exponent k \<or> E = []"
      "hd a \<noteq> CHR ''0'' \<or> a = ''0'' \<and> (strip_zeros b \<noteq> [] \<or> E = [])"
    using assms(1) by (auto simp: number_text_def)
  obtain c a' where a: "a = c # a'" using n(2) by (cases a) auto
  then have c: "isdigit c" and a': "list_all isdigit a'" using n(1) by simp_all
  let ?f = "if strip_zeros b = [] then [] else CHR ''.'' # strip_zeros b"
  let ?t = "a' @ ?f @ E"
  have w: "with_fraction a b @ E = c # ?t" by (simp add: with_fraction_def a Let_def)
  moreover have "?t @ r = [] \<or> tolower (hd (?t @ r)) \<noteq> CHR ''x''"
  proof (cases a')
    case Nil
    then show ?thesis using n(3) assms(2)
      by (cases r) (auto simp: print_exponent_def tolower_def ends_number_def)
  next
    case (Cons z zs)
    then show ?thesis using a' digit_not_letter [of z] by auto
  qed
  moreover have "c = CHR ''0'' \<Longrightarrow> ?t = [] \<or> hd ?t = CHR ''.''" using n(4) a by auto
  ultimately show thesis using c that by blast
qed

lemma sprintf_shape:
  assumes "is_double (Finite s m e)"
  obtains a b E k where "sprintf_g17 (Finite s m e) = (if s then [CHR ''-''] else []) @ with_fraction a b @ E"
    "number_text a b E k"
    "\<And>p q. 0 < q \<Longrightarrow> real p / real q = real (dec_val (a @ b)) * 10 powi (k - int (length b))
       \<Longrightarrow> round_f64 s p q = Finite s m e"
proof (cases "m = 0")
  case True
  have e: "e = -1074" using assms True by (simp add: is_double_def)
  show thesis
  proof (rule that [of "''0''" "[]" "[]" 0])
    show "number_text ''0'' [] [] 0" by (simp add: number_text_def isdigit_def with_fraction_def strip_zeros_def)
    show "sprintf_g17 (Finite s m e) = (if s then [CHR ''-''] else []) @ with_fraction ''0'' [] @ []"
      by (simp add: True with_fraction_def strip_zeros_def)
    show "round_f64 s p q = Finite s m e"
      if "0 < q" "real p / real q = real (dec_val (''0'' @ [])) * 10 powi (0 - int (length []))" for p q
      using that by (simp add: dec_val_def digit_val_def round_f64_def True e)
  qed
next
  case False
  then have m: "0 < m" by simp
  obtain p q where pq: "ratio m 2 e = (p, q)" by (cases "ratio m 2 e")
  obtain d x where dx: "digits17 p q = (d, x)" by (cases "digits17 p q")
  note r = ratio_real [OF _ pq, simplified]
  have pos: "0 < p" "0 < q" using r m by simp_all
  obtain a b E k where t: "print_g17_pos p q = with_fraction a b @ E" "number_text a b E k"
      "dec_val (a @ b) = d" "real d * 10 powi (k - int (length b)) = real d * 10 powi (x - 16)"
    by (rule print_g17_shape [OF pos dx exponent_bounds [OF assms m pq dx]])
  note d = digits17_real [OF pos dx]
  show thesis
  proof (rule that [OF _ t(2)])
    show "sprintf_g17 (Finite s m e) = (if s then [CHR ''-''] else []) @ with_fraction a b @ E"
      using m by (simp add: pq t(1))
    fix p' q' :: nat
    assume q': "0 < q'" and v: "real p' / real q' = real (dec_val (a @ b)) * 10 powi (k - int (length b))"
    then have v': "real p' / real q' = real d * 10 powi (x - 16)" using t(3,4) by simp
    have "0 < d" using d(1) by (rule less_le_trans [rotated]) simp
    then have "0 < real p' / real q'" unfolding v' by simp
    then have "0 < p'" by (cases "p' = 0") simp_all
    then show "round_f64 s p' q' = Finite s m e"
      using d(3) q' m by (intro seventeen_enough [OF assms]) (simp_all add: v' r(2))
  qed
qed

text \<open>\<^verbatim>\<open>strtod\<close> reads what was printed; whether it sets \<^verbatim>\<open>ERANGE\<close> for a subnormal is left open.\<close>

lemma strtod_prints:
  assumes "is_double x" and "ends_number r"
  shows "\<exists>range. strtod (sprintf_g17 x @ r) = ((x, range), length (sprintf_g17 x))"
proof -
  obtain s m e where x: "x = Finite s m e" using assms(1) by (cases x) (auto simp: is_double_def)
  obtain a b E k where t: "sprintf_g17 (Finite s m e) = (if s then [CHR ''-''] else []) @ with_fraction a b @ E"
      "number_text a b E k"
      "\<And>p q. 0 < q \<Longrightarrow> real p / real q = real (dec_val (a @ b)) * 10 powi (k - int (length b))
         \<Longrightarrow> round_f64 s p q = Finite s m e"
    using sprintf_shape assms(1) x by metis
  have n: "list_all isdigit a" "a \<noteq> []" "list_all isdigit b" "E = print_exponent k \<or> E = [] \<and> k = 0"
    using t(2) by (auto simp: number_text_def)
  obtain p q where d: "strtod_decimal s (with_fraction a b @ E @ r) = (round_ratio s (p, q), length (with_fraction a b @ E))"
      "0 < q" "real p / real q = real (dec_val (a @ b)) * 10 powi (k - int (length b))"
    by (rule strtod_decimal_fraction [OF n(1-3) assms(2) n(4)])
  obtain c u where h: "with_fraction a b @ E = c # u" "isdigit c" "u @ r = [] \<or> tolower (hd (u @ r)) \<noteq> CHR ''x''"
    by (rule number_text_head [OF t(2) assms(2)])
  have "strtod_unsigned s (c # u @ r) = ((x, erange (p, q) x), Suc (length u))"
    using d(1) strtod_unsigned_decimal [OF h(2,3), of s] t(3) [OF d(2,3)] h(1)
    by (simp add: round_ratio_def x Let_def flip: append_assoc)
  moreover have "\<not> isspace c" "c \<noteq> CHR ''-''" "c \<noteq> CHR ''+''" using digit_not_letter [OF h(2)] by simp_all
  moreover have "sprintf_g17 x = (if s then [CHR ''-''] else []) @ c # u" using t(1) h(1) x by simp
  ultimately show ?thesis by (cases s) (simp_all add: strtod_def Let_def isspace_def [of "CHR ''-''"])
qed

text \<open>The comment at \<^verbatim>\<open>PARSON_NUM_BUF_SIZE\<close> speaks of 25 bytes; with the NUL that is exact.\<close>

lemma sprintf_length: "is_double x \<Longrightarrow> length (sprintf_g17 x) \<le> 24"
proof -
  assume d: "is_double x"
  then obtain s m e where x: "x = Finite s m e" by (cases x) (auto simp: is_double_def)
  obtain a b E k where "sprintf_g17 (Finite s m e) = (if s then [CHR ''-''] else []) @ with_fraction a b @ E"
      "number_text a b E k"
    using sprintf_shape d x by metis
  then show ?thesis unfolding x number_text_def by (cases s) auto
qed

text \<open>What the text is made of.\<close>

lemma sprintf_chars:
  assumes "is_double x"
  shows "list_all (\<lambda>c. isdigit c \<or> c \<in> {CHR ''-'', CHR ''+'', CHR ''.'', CHR ''e''}) (sprintf_g17 x)"
proof -
  obtain s m e where x: "x = Finite s m e" using assms by (cases x) (auto simp: is_double_def)
  obtain a b E k where t: "sprintf_g17 (Finite s m e) = (if s then [CHR ''-''] else []) @ with_fraction a b @ E"
      "number_text a b E k"
    using sprintf_shape assms x by metis
  let ?P = "\<lambda>c. isdigit c \<or> c \<in> {CHR ''-'', CHR ''+'', CHR ''.'', CHR ''e''}"
  have P: "list_all isdigit l \<Longrightarrow> list_all ?P l" for l by (simp add: list_all_iff)
  have "list_all isdigit a" "list_all isdigit (strip_zeros b)" and E: "E = print_exponent k \<or> E = []"
    using t(2) strip_zeros_digits by (auto simp: number_text_def)
  then have "list_all ?P a" "list_all ?P (strip_zeros b)" using P by blast+
  then have "list_all ?P (with_fraction a b)" by (simp add: with_fraction_def Let_def)
  moreover have "list_all ?P (print_exponent k)"
    using P [OF dec_str_digits [of "nat \<bar>k\<bar>"]] by (simp add: print_exponent_def isdigit_def [of "CHR ''0''"])
  then have "list_all ?P E" using E by auto
  ultimately show ?thesis unfolding x t(1) by simp
qed

text \<open>A zero at the front, after the sign, is alone or before a point.\<close>

lemma sprintf_front:
  assumes "is_double x"
  obtains s c t where "sprintf_g17 x = (if s then [CHR ''-''] else []) @ c # t" "isdigit c"
    "c = CHR ''0'' \<Longrightarrow> t = [] \<or> hd t = CHR ''.''"
proof -
  obtain s m e where x: "x = Finite s m e" using assms by (cases x) (auto simp: is_double_def)
  obtain a b E k where t: "sprintf_g17 (Finite s m e) = (if s then [CHR ''-''] else []) @ with_fraction a b @ E"
      "number_text a b E k"
    using sprintf_shape assms x by metis
  have "ends_number []" by (simp add: ends_number_def)
  from number_text_head [OF t(2) this] obtain c u where "with_fraction a b @ E = c # u" "isdigit c"
      "c = CHR ''0'' \<Longrightarrow> u = [] \<or> hd u = CHR ''.''" by metis
  then show thesis using t(1) x that by metis
qed

section \<open>Rounding gives doubles\<close>

lemma round_is_double:
  assumes "0 < q" and "real p / real q < 2 powi 1000"
  shows "is_double (round_f64 s p q)"
proof (cases "p = 0")
  case True
  then show ?thesis by (simp add: round_f64_def is_double_def)
next
  case False
  then have p: "0 < p" by simp
  let ?v = "real p / real q"
  obtain t where t: "2 powi t \<le> ?v" "?v < 2 powi (t + 1)" "ulp_exponent p q = max (-1074) (t - 52)"
    by (rule ulp_exponent_real [OF p assms(1)])
  define e where "e = ulp_exponent p q"
  have "2 powi t < (2 :: real) powi 1000" using t(1) assms(2) by linarith
  then have "t < 1000" using power_int_increasing [of 1000 t "2 :: real"] by (cases "1000 \<le> t") simp_all
  then have e: "e \<le> 947" "-1074 \<le> e" "t + 1 \<le> e + 53" using t(3) by (simp_all add: e_def)
  obtain a b where ab: "scale_down p q e = (a, b)" by (cases "scale_down p q e")
  note s = scale_down_real [OF assms(1) ab]
  define m where "m = div_near a b"
  have err: "\<bar>real m - real a / real b\<bar> \<le> 1 / 2" unfolding m_def by (rule div_near_error [OF s(1)])
  have "2 powi (t + 1) \<le> (2 :: real) powi (e + 53)" using e(3) by (intro power_int_increasing) simp_all
  then have "?v < 9007199254740992 * 2 powi e" using t(2) by (simp add: power_int_add)
  then have "real a / real b < 9007199254740992" unfolding s(2) by (subst pos_divide_less_eq) simp_all
  then have "m \<le> 9007199254740992" using err by linarith
  then have hi: "m \<le> 2 ^ 53" by simp
  have lo: "2 ^ 52 \<le> m" if "e \<noteq> -1074"
  proof -
    have "t = e + 52" using that t(3) by (simp add: e_def max_def split: if_splits)
    then have "4503599627370496 * 2 powi e \<le> ?v" using t(1) by (simp add: power_int_add)
    then have "4503599627370496 \<le> real a / real b" unfolding s(2) by (subst pos_le_divide_eq) simp_all
    then have "4503599627370496 \<le> m" using err by linarith
    then show ?thesis by simp
  qed
  have "round_f64 s p q = (if m = 2 ^ 53 then Finite s (2 ^ 52) (e + 1) else Finite s m e)"
    using p e by (simp add: round_f64_def e_def [symmetric] ab m_def [symmetric] Let_def)
  then show ?thesis using hi lo e by (auto simp: is_double_def)
qed

lemma f64_of_nat_double: "n < 2 ^ 64 \<Longrightarrow> is_double (f64_of_nat n)"
proof -
  assume "n < 2 ^ 64"
  then have "real n < real (2 ^ 64)" by (simp only: of_nat_less_iff)
  also have "\<dots> \<le> 2 powi 1000" using power_int_increasing [of 64 1000 "2 :: real"] by simp
  finally show ?thesis unfolding f64_of_nat_def by (intro round_is_double) simp_all
qed

lemma f64_of_int_double: "\<bar>k\<bar> < 2 ^ 64 \<Longrightarrow> is_double (f64_of_int k)"
proof -
  assume "\<bar>k\<bar> < 2 ^ 64"
  then have "nat \<bar>k\<bar> < 2 ^ 64" by simp
  then have "real (nat \<bar>k\<bar>) < real (2 ^ 64)" by (simp only: of_nat_less_iff)
  also have "\<dots> \<le> 2 powi 1000" using power_int_increasing [of 64 1000 "2 :: real"] by simp
  finally show ?thesis unfolding f64_of_int_def by (intro round_is_double) simp_all
qed

end
