(* ===== verification/Parson_Serializer.thy ===== *)
theory Parson_Serializer
  imports Parson_Parser Float64_Print
begin

text \<open>
  \<^verbatim>\<open>json_serialize_to_buffer_r\<close> and its callers: the text of a JSON value, compact or pretty. The
  code runs the same function twice, once without a buffer to learn the size and once into
  the allocated buffer; both runs produce the text below, whose length is the value returned.
  \<open>esc\<close> is \<^verbatim>\<open>parson_escape_slashes\<close>. The float format is the default one; a custom number
  serialization function is not modelled.
\<close>

section \<open>Serialization\<close>

definition PARSON_INDENT_STR :: string where "PARSON_INDENT_STR = replicate 4 (CHR '' '')"

definition APPEND_INDENT :: "bool \<Rightarrow> nat \<Rightarrow> string" where
  "APPEND_INDENT pretty level = (if pretty then concat (replicate level PARSON_INDENT_STR) else [])"

definition newline :: "bool \<Rightarrow> string" where
  "newline pretty = (if pretty then [CHR 0x0A] else [])"

text \<open>
  The two loops are functions on the part of the arrays from index \<open>i\<close> on; a comma follows
  every entry but the last. Keys are written up to their first NUL.
\<close>

fun json_serialize_r :: "bool \<Rightarrow> bool \<Rightarrow> nat \<Rightarrow> json \<Rightarrow> string"
and array_entries :: "bool \<Rightarrow> bool \<Rightarrow> nat \<Rightarrow> json list \<Rightarrow> string"
and object_entries :: "bool \<Rightarrow> bool \<Rightarrow> nat \<Rightarrow> string list \<Rightarrow> json list \<Rightarrow> string" where
  "json_serialize_r esc pretty level (JArray (JSON_Array vs cap)) =
     [CHR ''[''] @ (if vs \<noteq> [] then newline pretty else []) @ array_entries esc pretty level vs
     @ (if vs \<noteq> [] then APPEND_INDENT pretty level else []) @ [CHR '']'']"
| "json_serialize_r esc pretty level (JObject (JSON_Object cs hs ks vs ixs ic cc)) =
     [CHR ''{''] @ (if ks \<noteq> [] then newline pretty else []) @ object_entries esc pretty level ks vs
     @ (if ks \<noteq> [] then APPEND_INDENT pretty level else []) @ [CHR ''}'']"
| "json_serialize_r esc pretty level (JString s) = json_serialize_string esc s (length s)"
| "json_serialize_r esc pretty level (JBoolean b) = (if b then ''true'' else ''false'')"
| "json_serialize_r esc pretty level (JNumber x) = sprintf_g17 x"
| "json_serialize_r esc pretty level JNull = ''null''"
| "array_entries esc pretty level [] = []"
| "array_entries esc pretty level (v # vs) =
     APPEND_INDENT pretty (level + 1) @ json_serialize_r esc pretty (level + 1) v
     @ (if vs \<noteq> [] then [CHR '',''] else []) @ newline pretty @ array_entries esc pretty level vs"
| "object_entries esc pretty level (k # ks) (v # vs) =
     APPEND_INDENT pretty (level + 1) @ json_serialize_string esc k (length (cstr k))
     @ [CHR '':''] @ (if pretty then [CHR '' ''] else []) @ json_serialize_r esc pretty (level + 1) v
     @ (if ks \<noteq> [] then [CHR '',''] else []) @ newline pretty @ object_entries esc pretty level ks vs"
| "object_entries esc pretty level _ _ = []"

text \<open>\<^verbatim>\<open>int\<close> results: a text of \<open>2^31\<close> bytes or more overflows the counter.\<close>

definition serialized :: "bool \<Rightarrow> bool \<Rightarrow> json option \<Rightarrow> string option outcome" where
  "serialized esc pretty v =
     (case v of
        None \<Rightarrow> Ret None
      | Some v \<Rightarrow> let txt = json_serialize_r esc pretty 0 v
                  in if length txt < 2 ^ 31 then Ret (Some txt) else UB)"

definition json_serialization_size :: "bool \<Rightarrow> json option \<Rightarrow> nat outcome" where
  "json_serialization_size esc v =
     obind (serialized esc False v) (\<lambda>r. Ret (case r of None \<Rightarrow> 0 | Some txt \<Rightarrow> length txt + 1))"

definition json_serialization_size_pretty :: "bool \<Rightarrow> json option \<Rightarrow> nat outcome" where
  "json_serialization_size_pretty esc v =
     obind (serialized esc True v) (\<lambda>r. Ret (case r of None \<Rightarrow> 0 | Some txt \<Rightarrow> length txt + 1))"

definition json_serialize_to_buffer :: "bool \<Rightarrow> json option \<Rightarrow> nat \<Rightarrow> string option outcome" where
  "json_serialize_to_buffer esc v buf_size_in_bytes =
     obind (json_serialization_size esc v) (\<lambda>needed.
       if needed = 0 \<or> buf_size_in_bytes < needed then Ret None else serialized esc False v)"

definition json_serialize_to_buffer_pretty :: "bool \<Rightarrow> json option \<Rightarrow> nat \<Rightarrow> string option outcome" where
  "json_serialize_to_buffer_pretty esc v buf_size_in_bytes =
     obind (json_serialization_size_pretty esc v) (\<lambda>needed.
       if needed = 0 \<or> buf_size_in_bytes < needed then Ret None else serialized esc True v)"

definition json_serialize_to_string :: "(nat \<Rightarrow> bool) \<Rightarrow> bool \<Rightarrow> json option \<Rightarrow> string option outcome" where
  "json_serialize_to_string mok esc v =
     obind (json_serialization_size esc v) (\<lambda>buf_size_bytes.
       if buf_size_bytes = 0 then Ret None
       else if \<not> mok buf_size_bytes then Ret None
       else json_serialize_to_buffer esc v buf_size_bytes)"

definition json_serialize_to_string_pretty ::
    "(nat \<Rightarrow> bool) \<Rightarrow> bool \<Rightarrow> json option \<Rightarrow> string option outcome" where
  "json_serialize_to_string_pretty mok esc v =
     obind (json_serialization_size_pretty esc v) (\<lambda>buf_size_bytes.
       if buf_size_bytes = 0 then Ret None
       else if \<not> mok buf_size_bytes then Ret None
       else json_serialize_to_buffer_pretty esc v buf_size_bytes)"

section \<open>What a value says\<close>

text \<open>A JSON value without the layout of its tables: the specification both directions are held to.\<close>

datatype jtree =
    TObject "(string \<times> jtree) list" | TArray "jtree list" | TString string | TNumber f64 | TBoolean bool | TNull

primrec json_abs :: "json \<Rightarrow> jtree" where
  "json_abs (JObject obj) = TObject (items (map_json_object json_abs obj))"
| "json_abs (JArray a) = TArray (elems (map_json_array json_abs a))"
| "json_abs (JString s) = TString s"
| "json_abs (JNumber x) = TNumber x"
| "json_abs (JBoolean b) = TBoolean b"
| "json_abs JNull = TNull"

lemma items_map: "items (map_json_object f obj) = map (\<lambda>(k, v). (k, f v)) (items obj)"
  by (cases obj) (simp add: items_def zip_map2)

lemma elems_map [simp]: "elems (map_json_array f a) = map f (elems a)"
  by (cases a) simp

text \<open>
  The values the round trip is stated for, of at most \<open>d\<close> levels: distinct keys without NUL and
  finite numbers.
\<close>

primrec printable :: "nat \<Rightarrow> json \<Rightarrow> bool" where
  "printable 0 v = False"
| "printable (Suc d) v =
     (case v of
        JObject obj \<Rightarrow> length (item_values obj) = length (names obj) \<and> distinct (names obj)
                       \<and> list_all no_nul (names obj) \<and> list_all (printable d) (item_values obj)
      | JArray a \<Rightarrow> list_all (printable d) (elems a)
      | JNumber x \<Rightarrow> is_double x
      | _ \<Rightarrow> True)"

declare printable.simps(2) [simp del]

lemma printable_cases [simp]:
  "printable (Suc d) (JObject obj) \<longleftrightarrow> length (item_values obj) = length (names obj) \<and> distinct (names obj)
     \<and> list_all no_nul (names obj) \<and> list_all (printable d) (item_values obj)"
  "printable (Suc d) (JArray a) \<longleftrightarrow> list_all (printable d) (elems a)"
  "printable (Suc d) (JNumber x) \<longleftrightarrow> is_double x"
  "printable (Suc d) (JString s)" "printable (Suc d) (JBoolean b)" "printable (Suc d) JNull"
  by (simp_all add: printable.simps(2))

section \<open>Text lemmas\<close>

lemma indent_spaces [simp]: "list_all isspace (APPEND_INDENT pretty level)" "list_all isspace (newline pretty)"
proof -
  have "list_all isspace (concat (replicate level PARSON_INDENT_STR))"
    by (induction level) (simp_all add: PARSON_INDENT_STR_def isspace_def list_all_iff)
  then show "list_all isspace (APPEND_INDENT pretty level)" by (simp add: APPEND_INDENT_def)
  show "list_all isspace (newline pretty)" by (simp add: newline_def isspace_def)
qed

lemma serialize_string_hd: "\<exists>t. json_serialize_string esc s n = CHR 0x22 # t"
  by (simp add: json_serialize_string_def)

text \<open>How a value starts: never with a space, a separator or a closing bracket.\<close>

definition starts_value :: "string \<Rightarrow> bool" where
  "starts_value s \<longleftrightarrow> s \<noteq> [] \<and> \<not> isspace (hd s) \<and> hd s \<noteq> CHR '']'' \<and> hd s \<noteq> CHR ''}'' \<and> hd s \<noteq> CHR '',''
     \<and> hd s \<noteq> CHR 0xEF"

lemma starts_value_append [simp]: "starts_value s \<Longrightarrow> starts_value (s @ t)"
  by (cases s) (simp_all add: starts_value_def)

lemma starts_value_skip: "starts_value s \<Longrightarrow> skip_ws s = s"
  by (cases s) (simp_all add: starts_value_def)

lemma starts_value_not_at:
  "starts_value s \<Longrightarrow> \<not> at_char (CHR '']'') s \<and> \<not> at_char (CHR ''}'') s"
  by (simp add: starts_value_def at_char_def)

lemma dec_str_starts: "\<exists>c t. dec_str n = c # t \<and> isdigit c"
  using dec_str_digits [of n] by (cases "dec_str n") auto

lemma double_starts:
  assumes "is_double x"
  obtains c t where "sprintf_g17 x = c # t" "c = CHR ''-'' \<or> isdigit c"
proof -
  obtain s c t where "sprintf_g17 x = (if s then [CHR ''-''] else []) @ c # t" "isdigit c"
    by (rule sprintf_front [OF assms])
  then show thesis using that by (cases s) auto
qed

lemma number_starts: "c = CHR ''-'' \<or> isdigit c \<Longrightarrow>
   \<not> isspace c \<and> c \<noteq> CHR '']'' \<and> c \<noteq> CHR ''}'' \<and> c \<noteq> CHR '','' \<and> c \<noteq> CHR 0xEF"
  by (auto simp: isdigit_def isspace_def)

lemma ser_starts_value:
  assumes "printable d v"
  shows "starts_value (json_serialize_r esc pretty level v)"
proof -
  obtain d' where d: "d = Suc d'" using assms by (cases d) auto
  show ?thesis
  proof (cases v)
    case (JObject obj)
    then show ?thesis by (cases obj) (simp add: starts_value_def isspace_def)
  next
    case (JArray a)
    then show ?thesis by (cases a) (simp add: starts_value_def isspace_def)
  next
    case (JNumber x)
    obtain c t where c: "sprintf_g17 x = c # t" "c = CHR ''-'' \<or> isdigit c"
      using assms double_starts [of x] unfolding JNumber d by auto
    then show ?thesis using JNumber number_starts [OF c(2)] by (simp add: starts_value_def)
  qed (simp_all add: starts_value_def isspace_def json_serialize_string_def)
qed

lemma parse_at_spaces: "list_all isspace w \<Longrightarrow> parse_at k mok (w @ s) = parse_at k mok s"
  by (cases k) (simp_all add: parse_step_def)

lemma ends_number_spaces: "list_all isspace w \<Longrightarrow> ends_number (w @ c # r)
    \<longleftrightarrow> w \<noteq> [] \<or> ends_number (c # r)"
proof (cases w)
  case (Cons a w')
  assume "list_all isspace w"
  then have "isspace a" using Cons by simp
  then have "ends_number (a # w' @ c # r)" by (auto simp: ends_number_def isspace_def isdigit_def tolower_def)
  then show ?thesis using Cons by simp
qed simp

lemma ends_number_separators [simp]:
  "ends_number (CHR '','' # r)" "ends_number (CHR '']'' # r)" "ends_number (CHR ''}'' # r)" "ends_number []"
  by (simp_all add: ends_number_def isdigit_def tolower_def)

lemma serves_mono: "serves mok n \<Longrightarrow> m \<le> n \<Longrightarrow> serves mok m"
  by (auto simp: serves_def)

section \<open>Reading back scalars\<close>

definition reads_back :: "(nat \<Rightarrow> bool) \<Rightarrow> (string \<Rightarrow> json parsed) \<Rightarrow> string \<Rightarrow> json \<Rightarrow> bool" where
  "reads_back mok pv txt v \<longleftrightarrow>
     (\<forall>r. ends_number r \<longrightarrow> (\<exists>v'. pv (txt @ r) = Ret (Some (v', r)) \<and> json_abs v' = json_abs v))"

lemma is_decimal_int:
  shows "is_decimal (dec_str n @ r) (length (dec_str n))"
    and "is_decimal (CHR ''-'' # dec_str n @ r) (Suc (length (dec_str n)))"
proof -
  have plain: "list_all (\<lambda>c. c \<noteq> CHR ''x'' \<and> c \<noteq> CHR ''X'') (dec_str n)"
    using dec_str_digits [of n] digit_not_letter by (auto simp: list_all_iff)
  obtain c t where ct: "dec_str n = c # t" "isdigit c" using dec_str_starts by blast
  have minus: "c \<noteq> CHR ''-''" using digit_not_letter [OF ct(2)] by simp
  have lead: "t = [] \<or> c \<noteq> CHR ''0''"
    using dec_str_leading [of n] ct by (cases "n = 0") auto
  then show "is_decimal (dec_str n @ r) (length (dec_str n))"
    and "is_decimal (CHR ''-'' # dec_str n @ r) (Suc (length (dec_str n)))"
    using plain ct(1) minus by (auto simp: is_decimal_def numeral_2_eq_2)
qed

lemma parse_number_int:
  assumes "n < 2 ^ 53" and "ends_number r" and "mok 32"
  shows "parse_number_value mok (dec_str n @ r) = Ret (Some (JNumber (round_f64 False n 1), r))"
    and "parse_number_value mok (CHR ''-'' # dec_str n @ r) = Ret (Some (JNumber (round_f64 True n 1), r))"
  using strtod_int [OF assms(2,1)] is_decimal_int [of n r] is_number_invalid_int [OF assms(1)] assms(3)
  by (simp_all add: parse_number_value_def json_value_init_number_def f64_of_nat_def)

lemma is_decimal_double:
  assumes "is_double x"
  shows "is_decimal (sprintf_g17 x @ r) (length (sprintf_g17 x))"
proof -
  obtain s c t where t: "sprintf_g17 x = (if s then [CHR ''-''] else []) @ c # t" "isdigit c"
      "c = CHR ''0'' \<Longrightarrow> t = [] \<or> hd t = CHR ''.''"
    by (rule sprintf_front [OF assms]) blast
  have "list_all (\<lambda>c. c \<noteq> CHR ''x'' \<and> c \<noteq> CHR ''X'') (sprintf_g17 x)"
    using sprintf_chars [OF assms] digit_not_letter by (fastforce simp: list_all_iff)
  moreover have "c \<noteq> CHR ''-''" using digit_not_letter [OF t(2)] by simp
  ultimately show ?thesis using t(3) unfolding is_decimal_def t(1)
    by (cases s; cases t) (auto simp: numeral_2_eq_2)
qed

lemma parse_number_double:
  assumes "is_double x" and "ends_number r" and "mok 32"
  shows "parse_number_value mok (sprintf_g17 x @ r) = Ret (Some (JNumber x, r))"
proof -
  obtain range where "strtod (sprintf_g17 x @ r) = ((x, range), length (sprintf_g17 x))"
    using strtod_prints [OF assms(1,2)] by blast
  moreover have "\<not> (case x of Inf _ \<Rightarrow> True | _ \<Rightarrow> False)" using assms(1) by (cases x) (simp_all add: is_double_def)
  ultimately show ?thesis using is_decimal_double [OF assms(1), of r] is_double_finite [OF assms(1)] assms(3)
    by (simp add: parse_number_value_def json_value_init_number_def)
qed

lemma reads_back_number:
  assumes "is_double x" and "mok 32"
  shows "reads_back mok (parse_step mok pv) (sprintf_g17 x) (JNumber x)"
  unfolding reads_back_def
proof (intro allI impI)
  fix r assume r: "ends_number r"
  obtain c t where ct: "sprintf_g17 x = c # t" "c = CHR ''-'' \<or> isdigit c" by (rule double_starts [OF assms(1)])
  have c: "\<not> isspace c" "c \<noteq> CHR ''{''" "c \<noteq> CHR ''[''" "c \<noteq> CHR 0x22" "c \<noteq> CHR ''f''" "c \<noteq> CHR ''t''"
    using ct(2) by (auto simp: isspace_def isdigit_def)
  have "parse_step mok pv (sprintf_g17 x @ r) = parse_number_value mok (sprintf_g17 x @ r)"
    using c ct(2) unfolding ct(1) by (simp add: parse_step_def)
  also have "\<dots> = Ret (Some (JNumber x, r))" by (rule parse_number_double [of x r mok, OF assms(1) r assms(2)])
  finally show "\<exists>v'. parse_step mok pv (sprintf_g17 x @ r) = Ret (Some (v', r)) \<and> json_abs v' = json_abs (JNumber x)"
    by simp
qed

lemma reads_back_literals:
  assumes "mok 32"
  shows "reads_back mok (parse_step mok pv) (if b then ''true'' else ''false'') (JBoolean b)"
    and "reads_back mok (parse_step mok pv) ''null'' JNull"
  using assms
  by (auto simp: reads_back_def parse_step_def isspace_def isdigit_def parse_boolean_value_def starts_with_def
      parse_null_value_def json_value_init_boolean_def json_value_init_null_def)

lemma reads_back_string:
  assumes "serves mok (length (json_serialize_string esc s (length s)) + 128)"
  shows "reads_back mok (parse_step mok pv) (json_serialize_string esc s (length s)) (JString s)"
proof -
  have m: "mok k" if "k \<le> length (json_serialize_string esc s (length s)) + 128" for k
    using assms that by (simp add: serves_def)
  have "length s \<le> length (json_serialize_string esc s (length s))"
  proof -
    have "length s \<le> length (concat (map (serialize_char esc) s))"
    proof (induction s)
      case (Cons c s)
      have "Suc 0 \<le> length (serialize_char esc c)" by (simp add: serialize_char_def)
      then show ?case using Cons by simp
    qed simp
    then show ?thesis by (simp add: json_serialize_string_def)
  qed
  then have "mok (length s + 1)" "mok (length (json_serialize_string esc s (length s)) - 1)" "mok 32"
    using m by simp_all
  then show ?thesis
    using get_quoted_serialized [of mok esc s] serialize_string_hd [of esc s "length s"]
    by (auto simp: reads_back_def parse_step_def isspace_def parse_string_value_def
        json_value_init_string_no_copy_def)
qed

section \<open>Reading back containers\<close>

text \<open>What follows an entry in the text.\<close>

definition after_entry :: "bool \<Rightarrow> bool \<Rightarrow> string \<Rightarrow> string" where
  "after_entry pretty more rest = (if more then [CHR '',''] else []) @ newline pretty @ rest"

lemma after_entry_ends: "ends_number (after_entry pretty more rest) \<longleftrightarrow> more \<or> pretty \<or> ends_number rest"
  by (auto simp: after_entry_def newline_def ends_number_def isdigit_def tolower_def split: list.splits)

lemma array_add_fits:
  assumes "serves mok (24 * n + 128)" and "length (elems a) < n" and "length (elems a) \<le> capacity a"
  obtains a' where "json_array_add mok a v = Ret (Some a')" "elems a' = elems a @ [v]"
    "length (elems a') \<le> capacity a'"
proof (cases "capacity a \<le> length (elems a)")
  case False
  then show thesis
    by (intro that [of "JSON_Array (elems a @ [v]) (capacity a)"])
      (simp_all add: json_array_add_def json_array_store_def)
next
  case True
  let ?c = "max (capacity a * 2) STARTING_CAPACITY"
  have eq: "capacity a = length (elems a)" using True assms(3) by simp
  then have c: "length (elems a) < ?c" by (simp add: STARTING_CAPACITY_def)
  have "?c * 8 \<le> 24 * n + 128" using assms(2) eq by (simp add: STARTING_CAPACITY_def max_def)
  then have "mok (?c * 8)" using assms(1) by (simp add: serves_def)
  then have "json_array_resize mok a ?c = Ret (Some (JSON_Array (elems a) ?c))"
    using c by (intro array_resize_fits) linarith+
  then have "json_array_add mok a v = Ret (Some (JSON_Array (elems a @ [v]) ?c))"
    using True c by (auto simp: json_array_add_def json_array_store_def STARTING_CAPACITY_def)
  then show thesis using c
    by (intro that [of "JSON_Array (elems a @ [v]) ?c"]) (simp_all del: max_less_iff_conj)
qed

lemma array_item_reads:
  assumes mem: "serves mok (24 * n + 128)" and n: "length (elems a) < n" and cap: "length (elems a) \<le> capacity a"
    and R: "reads_back mok pv body v" and r: "ends_number rest"
  obtains a' where "map json_abs (elems a') = map json_abs (elems a) @ [json_abs v]"
    "length (elems a') \<le> capacity a'"
    "array_item mok pv a (body @ rest)
      = (if at_char (CHR '','') (skip_ws rest)
         then Ret (Some ((\<not> at_char (CHR '']'') (skip_ws (tl (skip_ws rest))), a'), skip_ws (tl (skip_ws rest))))
         else Ret (Some ((False, a'), skip_ws rest)))"
proof -
  obtain v' where v': "pv (body @ rest) = Ret (Some (v', rest))" "json_abs v' = json_abs v"
    using R r unfolding reads_back_def by blast
  obtain a' where "json_array_add mok a v' = Ret (Some a')" "elems a' = elems a @ [v']"
      "length (elems a') \<le> capacity a'"
    by (rule array_add_fits [OF mem n cap])
  then show thesis using v' by (intro that [of a']) (simp_all add: array_item_def Let_def)
qed

lemma at_char_Cons [simp]: "at_char c (d # r) \<longleftrightarrow> d = c"
  by (auto simp: at_char_def)

lemma array_closes:
  assumes "serves mok (24 * n + 128)" and "length (elems a) \<le> n" and "elems a \<noteq> []" and "length (elems a) \<le> capacity a"
    and "array_items (Suc (length (CHR ''['' # s))) mok pv (JSON_Array [] 0) (skip_ws s) = Ret (Some (a, CHR '']'' # r))"
    and "\<not> at_char (CHR '']'') (skip_ws s)"
  shows "parse_step mok pv (CHR ''['' # s) = Ret (Some (JArray (JSON_Array (elems a) (length (elems a))), r))"
proof -
  have "mok 32" using assms(1) by (simp add: serves_def)
  then have init: "json_value_get_array (json_value_init_array mok) = Some (JSON_Array [] 0)"
    by (simp add: json_value_init_array_def json_array_make_def)
  have "mok (length (elems a) * 8)" using assms(1,2) by (simp add: serves_def)
  then have "json_array_resize mok a (length (elems a)) = Ret (Some (JSON_Array (elems a) (length (elems a))))"
    using assms(3) by (intro array_resize_fits) simp_all
  moreover have "parse_step mok pv (CHR ''['' # s) = parse_array_value mok pv (CHR ''['' # s)"
    by (simp add: parse_step_def isspace_def)
  ultimately show ?thesis
    using assms(5,6) by (simp add: parse_array_value_def init Let_def isspace_def del: array_items.simps)
qed

lemma length_array_entries: "length vs \<le> length (array_entries esc pretty level vs)"
  if "list_all (printable k) vs"
  using that
proof (induction vs)
  case (Cons v vs)
  then have "json_serialize_r esc pretty (level + 1) v \<noteq> []"
    using ser_starts_value [of k v esc pretty "level + 1"] by (auto simp: starts_value_def)
  then have "Suc 0 \<le> length (json_serialize_r esc pretty (level + 1) v)" by (cases "json_serialize_r esc pretty (level + 1) v") auto
  then show ?case using Cons by simp
qed simp

lemma array_entries_start:
  assumes "printable k v"
  shows "skip_ws (array_entries esc pretty level (v # vs) @ r)
           = json_serialize_r esc pretty (level + 1) v
             @ after_entry pretty (vs \<noteq> []) (array_entries esc pretty level vs @ r)"
  using starts_value_skip [OF starts_value_append [OF ser_starts_value [OF assms]], of esc pretty "level + 1"]
  by (simp add: after_entry_def)

lemma array_items_read:
  assumes mem: "serves mok (24 * n + 128)"
    and R: "\<And>v. v \<in> set vs \<Longrightarrow> reads_back mok pv (json_serialize_r esc pretty (level + 1) v) v"
    and r: "skip_ws r = CHR '']'' # r'" "pretty \<or> ends_number r"
  shows "vs \<noteq> [] \<Longrightarrow> list_all (printable k) vs \<Longrightarrow> length vs \<le> rounds \<Longrightarrow>
    length (elems a) + length vs \<le> n \<Longrightarrow> length (elems a) \<le> capacity a \<Longrightarrow>
    \<exists>a'. array_items rounds mok pv a (skip_ws (array_entries esc pretty level vs @ r))
           = Ret (Some (a', CHR '']'' # r'))
       \<and> map json_abs (elems a') = map json_abs (elems a) @ map json_abs vs
       \<and> length (elems a') \<le> capacity a'"
  using R
proof (induction vs arbitrary: a rounds)
  case (Cons v vs)
  let ?txt = "json_serialize_r esc pretty (level + 1) v"
  let ?rest = "array_entries esc pretty level vs @ r"
  have pr: "printable k v" using Cons.prems(2) by simp
  note start = array_entries_start [OF pr, of esc pretty level vs r]
  obtain m where m: "rounds = Suc m" using Cons.prems(3) by (cases rounds) auto
  have e: "ends_number (after_entry pretty (vs \<noteq> []) ?rest)" using r(2) by (auto simp: after_entry_ends)
  have n: "length (elems a) < n" using Cons.prems(4) by simp
  have R1: "reads_back mok pv ?txt v" using Cons.prems(6) [of v] by simp
  obtain a' where a': "map json_abs (elems a') = map json_abs (elems a) @ [json_abs v]"
      "length (elems a') \<le> capacity a'"
    and item: "array_item mok pv a (?txt @ after_entry pretty (vs \<noteq> []) ?rest)
      = (if at_char (CHR '','') (skip_ws (after_entry pretty (vs \<noteq> []) ?rest))
         then Ret (Some ((\<not> at_char (CHR '']'') (skip_ws (tl (skip_ws (after_entry pretty (vs \<noteq> []) ?rest)))), a'),
                    skip_ws (tl (skip_ws (after_entry pretty (vs \<noteq> []) ?rest)))))
         else Ret (Some ((False, a'), skip_ws (after_entry pretty (vs \<noteq> []) ?rest))))"
    by (rule array_item_reads [OF mem n Cons.prems(5) R1 e])
  have n': "length (elems a') = Suc (length (elems a))" using arg_cong [OF a'(1), of length] by simp
  have ne: "?txt @ after_entry pretty (vs \<noteq> []) ?rest \<noteq> []"
    using ser_starts_value [OF pr, of esc pretty "level + 1"] by (auto simp: starts_value_def)
  show ?case
  proof (cases vs)
    case Nil
    have "skip_ws (after_entry pretty False r) = CHR '']'' # r'" using r(1) by (simp add: after_entry_def)
    then have "array_item mok pv a (?txt @ after_entry pretty False r)
        = Ret (Some ((False, a'), CHR '']'' # r'))"
      using item Nil by (simp add: at_char_def)
    then show ?thesis using start ne a' m Nil by simp
  next
    case (Cons w ws)
    have pw: "printable k w" using Cons.prems(2) Cons by simp
    have skip: "skip_ws (after_entry pretty True ?rest) = CHR '','' # newline pretty @ ?rest"
      by (simp add: after_entry_def isspace_def)
    have sv: "starts_value (skip_ws ?rest)"
      using array_entries_start [OF pw, of esc pretty level ws r] ser_starts_value [OF pw, of esc pretty "level + 1"]
      unfolding Cons by simp
    have "array_item mok pv a (?txt @ after_entry pretty True ?rest)
        = Ret (Some ((True, a'), skip_ws ?rest))"
      using item Cons skip starts_value_not_at [OF sv] by (simp add: at_char_def)
    moreover have "\<exists>a''. array_items m mok pv a' (skip_ws ?rest) = Ret (Some (a'', CHR '']'' # r'))
       \<and> map json_abs (elems a'') = map json_abs (elems a') @ map json_abs vs
       \<and> length (elems a'') \<le> capacity a''"
      using Cons.prems a' n' m Cons by (intro Cons.IH) auto
    ultimately show ?thesis using start ne a'(1) m Cons by auto
  qed
qed simp

definition abs_items :: "json json_object \<Rightarrow> (string \<times> jtree) list" where
  "abs_items obj = map (\<lambda>(k, v). (k, json_abs v)) (items obj)"

lemma object_entries_start:
  assumes "no_nul k"
  shows "skip_ws (object_entries esc pretty level (k # ks) (v # vs) @ r)
           = json_serialize_string esc k (length k) @ CHR '':'' # (if pretty then [CHR '' ''] else [])
             @ json_serialize_r esc pretty (level + 1) v
             @ after_entry pretty (ks \<noteq> []) (object_entries esc pretty level ks vs @ r)"
proof -
  obtain t where "json_serialize_string esc k (length k) = CHR 0x22 # t" using serialize_string_hd by blast
  then show ?thesis using assms by (simp add: after_entry_def isspace_def)
qed

lemma object_member_reads:
  assumes mem: "serves mok (24 * n + 128)" and obj: "obj_ok obj" and new: "k \<notin> set (names obj)"
    and room: "length (names obj) < n" and key: "no_nul k"
    and small: "length (json_serialize_string esc k (length k)) \<le> n" "length k < n"
    and pv: "pv (w @ body @ rest) = Ret (Some (v', rest))"
  obtains obj' where "obj_ok obj'" "names obj' = names obj @ [k]" "abs_items obj' = abs_items obj @ [(k, json_abs v')]"
    "object_member mok pv obj (json_serialize_string esc k (length k) @ CHR '':'' # w @ body @ rest)
      = (if at_char (CHR '','') (skip_ws rest)
         then Ret (Some ((\<not> at_char (CHR ''}'') (skip_ws (tl (skip_ws rest))), obj'), skip_ws (tl (skip_ws rest))))
         else Ret (Some ((False, obj'), skip_ws rest)))"
proof -
  have m: "mok j" if "j \<le> 24 * n + 128" for j using mem that by (simp add: serves_def)
  have q: "get_quoted_string mok (json_serialize_string esc k (length k) @ CHR '':'' # w @ body @ rest)
             = Some (k, CHR '':'' # w @ body @ rest)"
    using small by (intro get_quoted_serialized m) linarith+
  have "0 < budget mok n obj" using mem room by (simp add: budget_def)
  then obtain obj' where o': "json_object_add mok obj k v' = Ret (Some obj')" "obj_ok obj'"
      "items obj' = items obj @ [(k, v')]" "names obj' = names obj @ [k]"
    using json_object_add_absent [OF obj new, of mok n v'] by metis
  have "skip_ws (CHR '':'' # w @ body @ rest) = CHR '':'' # w @ body @ rest" by (simp add: isspace_def)
  then show thesis
    using q o' pv key
    by (intro that [of obj']) (simp_all add: abs_items_def object_member_def at_char_def Let_def)
qed

lemma length_serialize_string: "length s + 2 \<le> length (json_serialize_string esc s (length s))"
proof -
  have "length s \<le> length (concat (map (serialize_char esc) s))"
  proof (induction s)
    case (Cons c s)
    have "Suc 0 \<le> length (serialize_char esc c)" by (simp add: serialize_char_def)
    then show ?case using Cons by simp
  qed simp
  then show ?thesis by (simp add: json_serialize_string_def)
qed

lemma object_members_read:
  assumes mem: "serves mok (24 * n + 128)"
    and R: "\<And>v. v \<in> set vs \<Longrightarrow> reads_back mok pv (json_serialize_r esc pretty (level + 1) v) v"
    and spaces: "\<And>s. pv (CHR '' '' # s) = pv s"
    and r: "skip_ws r = CHR ''}'' # r'" "pretty \<or> ends_number r"
  shows "ks \<noteq> [] \<Longrightarrow> length vs = length ks \<Longrightarrow> list_all no_nul ks \<Longrightarrow> distinct (names obj @ ks) \<Longrightarrow> obj_ok obj \<Longrightarrow>
    length ks \<le> rounds \<Longrightarrow> length (names obj) + length ks \<le> n \<Longrightarrow>
    list_all (\<lambda>k. length (json_serialize_string esc k (length k)) \<le> n) ks \<Longrightarrow>
    \<exists>obj'. object_members rounds mok pv obj (skip_ws (object_entries esc pretty level ks vs @ r))
             = Ret (Some (obj', CHR ''}'' # r'))
       \<and> abs_items obj' = abs_items obj @ zip ks (map json_abs vs)"
  using R
proof (induction ks arbitrary: vs obj rounds)
  case (Cons k ks)
  obtain v vs' where vs: "vs = v # vs'" using Cons.prems(2) by (cases vs) auto
  let ?txt = "json_serialize_r esc pretty (level + 1) v"
  let ?rest = "object_entries esc pretty level ks vs' @ r"
  let ?after = "after_entry pretty (ks \<noteq> []) ?rest"
  let ?w = "if pretty then [CHR '' ''] else []"
  let ?key = "json_serialize_string esc k (length k)"
  have key: "no_nul k" and new: "k \<notin> set (names obj)" and small: "length ?key \<le> n"
    and room: "length (names obj) < n" using Cons.prems(3,4,7,8) by auto
  note start = object_entries_start [OF key, of esc pretty level ks v vs' r]
  obtain m where m: "rounds = Suc m" using Cons.prems(6) by (cases rounds) auto
  have "ends_number ?after" using r(2) by (auto simp: after_entry_ends)
  then obtain v' where v': "pv (?txt @ ?after) = Ret (Some (v', ?after))" "json_abs v' = json_abs v"
    using Cons.prems(9) [of v] unfolding reads_back_def vs by auto
  moreover have "pv (?w @ s) = pv s" for s using spaces by simp
  ultimately have pv: "pv (?w @ ?txt @ ?after) = Ret (Some (v', ?after))" by simp
  have len: "length k < n" using length_serialize_string [of k esc] small by linarith
  obtain obj' where o': "obj_ok obj'" "names obj' = names obj @ [k]"
      "abs_items obj' = abs_items obj @ [(k, json_abs v')]"
    and mem': "object_member mok pv obj (?key @ CHR '':'' # ?w @ ?txt @ ?after)
      = (if at_char (CHR '','') (skip_ws ?after)
         then Ret (Some ((\<not> at_char (CHR ''}'') (skip_ws (tl (skip_ws ?after))), obj'), skip_ws (tl (skip_ws ?after))))
         else Ret (Some ((False, obj'), skip_ws ?after)))"
    by (rule object_member_reads [where w = "?w" and body = "?txt" and rest = "?after" and pv = pv and mok = mok,
          OF mem Cons.prems(5) new room key small len pv])
  have ne: "?key @ CHR '':'' # ?w @ ?txt @ ?after \<noteq> []" by simp
  show ?case
  proof (cases ks)
    case Nil
    have "skip_ws ?after = CHR ''}'' # r'" using r(1) Cons.prems(2) Nil vs by (simp add: after_entry_def)
    then have "object_member mok pv obj (?key @ CHR '':'' # ?w @ ?txt @ ?after)
        = Ret (Some ((False, obj'), CHR ''}'' # r'))"
      using mem' by (simp add: at_char_def)
    then show ?thesis using start ne o' v'(2) m Nil vs Cons.prems(2) by simp
  next
    case (Cons k2 ks2)
    obtain v2 vs2 where vs2: "vs' = v2 # vs2" using Cons.prems(2) Cons vs by (cases vs') auto
    have key2: "no_nul k2" using Cons.prems(3) Cons by simp
    have skip: "skip_ws ?after = CHR '','' # newline pretty @ ?rest"
      using Cons by (simp add: after_entry_def isspace_def)
    obtain t where "json_serialize_string esc k2 (length k2) = CHR 0x22 # t" using serialize_string_hd by blast
    then have "\<not> at_char (CHR ''}'') (skip_ws ?rest)"
      using object_entries_start [OF key2, of esc pretty level ks2 v2 vs2 r] unfolding Cons vs2
      by (simp add: at_char_def)
    then have "object_member mok pv obj (?key @ CHR '':'' # ?w @ ?txt @ ?after)
        = Ret (Some ((True, obj'), skip_ws ?rest))"
      using mem' skip by (simp add: at_char_def)
    moreover have "\<exists>obj''. object_members m mok pv obj' (skip_ws ?rest) = Ret (Some (obj'', CHR ''}'' # r'))
       \<and> abs_items obj'' = abs_items obj' @ zip ks (map json_abs vs')"
      using Cons.prems o' m Cons vs by (intro Cons.IH) auto
    ultimately show ?thesis using start ne o'(3) v'(2) m vs by auto
  qed
qed simp

section \<open>Reading back values\<close>

lemma length_value_in_array:
  "v \<in> set vs \<Longrightarrow> length (json_serialize_r esc pretty (level + 1) v) \<le> length (array_entries esc pretty level vs)"
  by (induction vs) auto

lemma length_value_in_object:
  "v \<in> set vs \<Longrightarrow> length vs = length ks \<Longrightarrow>
   length (json_serialize_r esc pretty (level + 1) v) \<le> length (object_entries esc pretty level ks vs)"
proof (induction ks arbitrary: vs)
  case (Cons k ks)
  obtain w ws where vs: "vs = w # ws" using Cons.prems(2) by (cases vs) auto
  show ?case
  proof (cases "v = w")
    case False
    then have "length (json_serialize_r esc pretty (level + 1) v) \<le> length (object_entries esc pretty level ks ws)"
      using Cons vs by simp
    then show ?thesis by (simp add: vs)
  qed (simp add: vs)
qed simp

lemma length_key_in_object:
  "length vs = length ks \<Longrightarrow> list_all no_nul ks \<Longrightarrow>
   length ks \<le> length (object_entries esc pretty level ks vs)
   \<and> list_all (\<lambda>k. length (json_serialize_string esc k (length k)) \<le> length (object_entries esc pretty level ks vs)) ks"
proof (induction ks arbitrary: vs)
  case (Cons k ks)
  obtain v vs' where vs: "vs = v # vs'" using Cons.prems(1) by (cases vs) auto
  have "length ks \<le> length (object_entries esc pretty level ks vs')
   \<and> list_all (\<lambda>k. length (json_serialize_string esc k (length k)) \<le> length (object_entries esc pretty level ks vs')) ks"
    using Cons vs by simp
  then show ?case using Cons.prems(2) vs by (auto simp: list_all_iff)
qed simp

lemma bracket_after_indent:
  assumes "c = CHR '']'' \<or> c = CHR ''}''"
  shows "skip_ws (APPEND_INDENT pretty level @ c # r) = c # r"
    and "pretty \<or> ends_number (APPEND_INDENT pretty level @ c # r)"
proof -
  have "\<not> isspace c" using assms by (auto simp: isspace_def)
  then show "skip_ws (APPEND_INDENT pretty level @ c # r) = c # r" by simp
  show "pretty \<or> ends_number (APPEND_INDENT pretty level @ c # r)"
    using assms by (auto simp: APPEND_INDENT_def)
qed

lemma array_reads_back:
  assumes mem: "serves mok (24 * length (json_serialize_r esc pretty level (JArray a)) + 128)"
    and R: "\<And>v. v \<in> set (elems a) \<Longrightarrow> reads_back mok pv (json_serialize_r esc pretty (level + 1) v) v"
    and pr: "list_all (printable k) (elems a)"
  shows "reads_back mok (parse_step mok pv) (json_serialize_r esc pretty level (JArray a)) (JArray a)"
  unfolding reads_back_def
proof (intro allI impI)
  fix r
  let ?txt = "json_serialize_r esc pretty level (JArray a)"
  obtain vs c where a: "a = JSON_Array vs c" by (cases a)
  have "mok 32" using mem by (simp add: serves_def)
  then have init: "json_value_get_array (json_value_init_array mok) = Some (JSON_Array [] 0)"
    by (simp add: json_value_init_array_def json_array_make_def)
  obtain t where head: "?txt = CHR ''['' # t" by (simp add: a)
  show "\<exists>v'. parse_step mok pv (?txt @ r) = Ret (Some (v', r)) \<and> json_abs v' = json_abs (JArray a)"
  proof (cases vs)
    case Nil
    then have "?txt = ''[]''" by (simp add: a)
    then show ?thesis using init Nil by (simp add: parse_step_def parse_array_value_def at_char_def a isspace_def)
  next
    case (Cons v ws)
    let ?entries = "array_entries esc pretty level vs @ APPEND_INDENT pretty level @ CHR '']'' # r"
    have pv: "printable k v" using pr Cons a by simp
    have tl: "skip_ws (tl (?txt @ r)) = skip_ws ?entries" by (simp add: a Cons)
    have len: "length vs \<le> length (array_entries esc pretty level vs)"
      using length_array_entries pr a by auto
    also have "\<dots> \<le> length ?txt" by (simp add: a)
    finally have len: "length vs \<le> length ?txt" .
    obtain a' where a': "array_items (Suc (length (?txt @ r))) mok pv (JSON_Array [] 0) (skip_ws ?entries)
          = Ret (Some (a', CHR '']'' # r))"
        "map json_abs (elems a') = map json_abs (elems (JSON_Array [] 0)) @ map json_abs vs"
        "length (elems a') \<le> capacity a'"
      using array_items_read [OF mem, of vs pv esc pretty level "APPEND_INDENT pretty level @ CHR '']'' # r" r k
          "Suc (length (?txt @ r))" "JSON_Array [] 0"] R pr len bracket_after_indent [of "CHR '']''" pretty level r]
      unfolding a by (auto simp: Cons)
    have n: "length (elems a') = length vs" using arg_cong [OF a'(2), of length] by simp
    then have ne: "elems a' \<noteq> []" using Cons by auto
    have no_end: "\<not> at_char (CHR '']'') (skip_ws ?entries)"
      using array_entries_start [OF pv, of esc pretty level ws] starts_value_not_at
        starts_value_append [OF ser_starts_value [OF pv, of esc pretty "level + 1"]]
      unfolding Cons by metis
    have "parse_step mok pv (CHR ''['' # t @ r) = Ret (Some (JArray (JSON_Array (elems a') (length (elems a'))), r))"
      using a'(1,3) n ne len no_end tl head by (intro array_closes [OF mem]) (simp_all del: array_items.simps)
    then show ?thesis using a'(2) head by (auto simp: a)
  qed
qed

lemma object_reads_back:
  assumes mem: "serves mok (24 * length (json_serialize_r esc pretty level (JObject obj)) + 128)"
    and R: "\<And>v. v \<in> set (item_values obj) \<Longrightarrow> reads_back mok pv (json_serialize_r esc pretty (level + 1) v) v"
    and spaces: "\<And>s. pv (CHR '' '' # s) = pv s"
    and pr: "printable (Suc k) (JObject obj)"
  shows "reads_back mok (parse_step mok pv) (json_serialize_r esc pretty level (JObject obj)) (JObject obj)"
  unfolding reads_back_def
proof (intro allI impI)
  fix r
  let ?txt = "json_serialize_r esc pretty level (JObject obj)"
  let ?empty = "JSON_Object [] [] [] [] [] 0 0 :: json json_object"
  obtain cs hs ks vs ixs ic cc where o: "obj = JSON_Object cs hs ks vs ixs ic cc" by (cases obj)
  have ks: "length vs = length ks" "distinct ks" "list_all no_nul ks" using pr by (simp_all add: o)
  have abs: "json_abs (JObject obj) = TObject (zip ks (map json_abs vs))"
    by (simp add: o items_def zip_map2)
  have "mok 32" "mok 72" using mem by (simp_all add: serves_def)
  then have init: "json_value_get_object (json_value_init_object mok) = Some ?empty"
    by (simp add: json_value_init_object_def json_object_make_def empty_object(1))
  obtain t where head: "?txt = CHR ''{'' # t" by (simp add: o)
  have step: "parse_step mok pv (?txt @ r) = parse_object_value mok pv (?txt @ r)"
    by (simp add: head parse_step_def isspace_def)
  have opens: "at_char (CHR ''{'') (?txt @ r)" by (simp add: head at_char_def)
  show "\<exists>v'. parse_step mok pv (?txt @ r) = Ret (Some (v', r)) \<and> json_abs v' = json_abs (JObject obj)"
  proof (cases ks)
    case Nil
    then have "?txt = ''{}''" by (simp add: o)
    then show ?thesis using init Nil ks(1) unfolding step abs
      by (simp add: parse_object_value_def isspace_def items_def)
  next
    case (Cons k0 ks0)
    then obtain v0 vs0 where vs: "vs = v0 # vs0" using ks(1) by (cases vs) auto
    let ?entries = "object_entries esc pretty level ks vs @ APPEND_INDENT pretty level @ CHR ''}'' # r"
    have tl: "skip_ws (tl (?txt @ r)) = skip_ws ?entries" by (simp add: o Cons)
    have le: "length (object_entries esc pretty level ks vs) \<le> length ?txt" by (simp add: o)
    note lens = length_key_in_object [OF ks(1,3), of esc pretty level]
    obtain obj' where o': "object_members (Suc (length (?txt @ r))) mok pv ?empty (skip_ws ?entries)
          = Ret (Some (obj', CHR ''}'' # r))"
        "abs_items obj' = abs_items ?empty @ zip ks (map json_abs vs)"
    proof -
      have "\<exists>obj'. object_members (Suc (length (?txt @ r))) mok pv ?empty (skip_ws ?entries)
          = Ret (Some (obj', CHR ''}'' # r)) \<and> abs_items obj' = abs_items ?empty @ zip ks (map json_abs vs)"
      proof (rule object_members_read [where mok = mok and pv = pv and n = "length ?txt"])
        show "list_all (\<lambda>k. length (json_serialize_string esc k (length k)) \<le> length ?txt) ks"
          using lens le by (auto simp: list_all_iff)
        show "length ks \<le> Suc (length (?txt @ r))" using lens le by simp
        show "length (names ?empty) + length ks \<le> length ?txt" using lens le by simp
      qed (use R ks bracket_after_indent [of "CHR ''}''" pretty level r] empty_object(2) Cons mem spaces in \<open>auto simp: o\<close>)
      then show thesis using that by blast
    qed
    obtain u where "json_serialize_string esc k0 (length k0) = CHR 0x22 # u" using serialize_string_hd by blast
    then have no_end: "\<not> at_char (CHR ''}'') (skip_ws ?entries)"
      using object_entries_start [of k0 esc pretty level ks0 v0 vs0] ks(3) unfolding Cons vs
      by (simp add: at_char_def)
    have "parse_object_value mok pv (?txt @ r) = Ret (Some (JObject obj', r))"
      unfolding parse_object_value_def init option.case Let_def tl o'(1)
      using opens no_end by (simp add: isspace_def)
    moreover have "json_abs (JObject obj') = json_abs (JObject obj)"
      using o'(2) unfolding abs by (simp add: abs_items_def items_map empty_object(3))
    ultimately show ?thesis unfolding step by blast
  qed
qed

lemma serialize_reads_back:
  assumes "printable k v" and "serves mok (24 * length (json_serialize_r esc pretty level v) + 128)"
  shows "reads_back mok (parse_at k mok) (json_serialize_r esc pretty level v) v"
  using assms
proof (induction k arbitrary: v level)
  case (Suc k)
  have "mok 32" using Suc.prems(2) by (simp add: serves_def)
  show ?case
  proof (cases v)
    case (JObject obj)
    have "reads_back mok (parse_at k mok) (json_serialize_r esc pretty (level + 1) w) w"
      if "w \<in> set (item_values obj)" for w
    proof (rule Suc.IH)
      show "printable k w" using Suc.prems(1) that JObject by (simp add: list_all_iff)
      have "length (json_serialize_r esc pretty (level + 1) w) \<le> length (json_serialize_r esc pretty level v)"
        using length_value_in_object [OF that, of "names obj" esc pretty level] Suc.prems(1)
        unfolding JObject by (cases obj) simp
      then show "serves mok (24 * length (json_serialize_r esc pretty (level + 1) w) + 128)"
        by (intro serves_mono [OF Suc.prems(2)]) simp
    qed
    moreover have "parse_at k mok (CHR '' '' # s) = parse_at k mok s" for s
      using parse_at_spaces [of "'' ''" k mok s] by (simp add: isspace_def)
    ultimately show ?thesis
      using object_reads_back [of mok esc pretty level obj "parse_at k mok" k] Suc.prems JObject by simp
  next
    case (JArray a)
    have "reads_back mok (parse_at k mok) (json_serialize_r esc pretty (level + 1) w) w"
      if "w \<in> set (elems a)" for w
    proof (rule Suc.IH)
      show "printable k w" using Suc.prems(1) that JArray by (simp add: list_all_iff)
      have "length (json_serialize_r esc pretty (level + 1) w) \<le> length (json_serialize_r esc pretty level v)"
        using length_value_in_array [OF that, of esc pretty level]
        unfolding JArray by (cases a) simp
      then show "serves mok (24 * length (json_serialize_r esc pretty (level + 1) w) + 128)"
        by (intro serves_mono [OF Suc.prems(2)]) simp
    qed
    then show ?thesis
      using array_reads_back [of mok esc pretty level a "parse_at k mok" k] Suc.prems JArray by simp
  next
    case (JString s)
    have "serves mok (length (json_serialize_string esc s (length s)) + 128)"
      using Suc.prems(2) JString by (intro serves_mono [OF Suc.prems(2)]) simp
    then show ?thesis using JString reads_back_string by simp
  next
    case (JNumber x)
    then show ?thesis using Suc.prems(1) reads_back_number [of x mok] \<open>mok 32\<close> by simp
  next
    case (JBoolean b)
    then show ?thesis using reads_back_literals(1) [of mok "parse_at k mok" b] \<open>mok 32\<close> by simp
  next
    case JNull
    then show ?thesis using reads_back_literals(2) [of mok "parse_at k mok"] \<open>mok 32\<close> by simp
  qed
qed simp

section \<open>Properties of the serializer\<close>

lemma serialize_string_no_nul: "no_nul (json_serialize_string esc s n)"
proof -
  have hex: "hex_digit k \<noteq> CHR 0x00" for k
  proof -
    have "list_all (\<lambda>k. ''0123456789abcdef'' ! k \<noteq> CHR 0x00) [0..<16]" by code_simp
    then show ?thesis by (simp add: hex_digit_def list_all_iff)
  qed
  have "no_nul (serialize_char esc c)" for c
    by (cases "c = CHR 0x00") (simp_all add: serialize_char_def hex)
  then have "no_nul (concat (map (serialize_char esc) l))" for l by (induction l) simp_all
  then show ?thesis by (simp add: json_serialize_string_def)
qed

lemma spaces_no_nul: "list_all isspace w \<Longrightarrow> no_nul w"
  by (induction w) (auto simp: isspace_def)

lemma double_no_nul: "is_double x \<Longrightarrow> no_nul (sprintf_g17 x)"
  using sprintf_chars [of x] by (auto simp: no_nul_def list_all_iff isdigit_def)

lemma serialize_no_nul:
  "printable d v \<Longrightarrow> no_nul (json_serialize_r esc pretty level v)"
  "list_all (printable d) vs \<Longrightarrow> no_nul (array_entries esc pretty level vs)"
  "list_all (printable d) vs \<Longrightarrow> no_nul (object_entries esc pretty level ks vs)"
proof (induction esc pretty level v and esc pretty level vs and esc pretty level ks vs
    arbitrary: d and d and d rule: json_serialize_r_array_entries_object_entries.induct)
  case (1 esc pretty level vs cap)
  then show ?case by (cases d) (auto simp: spaces_no_nul)
next
  case (2 esc pretty level cs hs ks vs ixs ic cc)
  then show ?case by (cases d) (auto simp: spaces_no_nul)
next
  case (5 esc pretty level x)
  then show ?case by (cases d) (auto simp: double_no_nul)
qed (auto simp: spaces_no_nul serialize_string_no_nul)

lemma parse_serialized:
  assumes pr: "printable (Suc MAX_NESTING) v"
    and mem: "serves mok (24 * length (json_serialize_r esc pretty 0 v) + 128)"
    and r: "ends_number r"
  shows "\<exists>v'. json_parse_string mok (json_serialize_r esc pretty 0 v @ r) = Ret (Some v')
              \<and> json_abs v' = json_abs v"
proof -
  let ?txt = "json_serialize_r esc pretty 0 v"
  have c: "cstr (?txt @ r) = ?txt @ cstr r"
    unfolding cstr_def using serialize_no_nul(1) [OF pr, of esc pretty 0]
    by (intro takeWhile_append2) (auto simp: no_nul_def list_all_iff)
  have "ends_number (cstr r)" using r by (cases r) (auto simp: ends_number_def cstr_def)
  then obtain v' where v': "parse_at (Suc MAX_NESTING) mok (?txt @ cstr r) = Ret (Some (v', cstr r))"
      "json_abs v' = json_abs v"
    using serialize_reads_back [OF pr mem] unfolding reads_back_def by blast
  have "starts_value (?txt @ cstr r)" using ser_starts_value [OF pr] by simp
  then have "\<not> starts_with [CHR 0xEF, CHR 0xBB, CHR 0xBF] (?txt @ cstr r)"
    by (cases "?txt @ cstr r") (auto simp: starts_value_def starts_with_def)
  then show ?thesis using v' by (simp add: json_parse_string_def parse_value_def c Let_def del: parse_at.simps)
qed

lemma written_text:
  assumes "length (json_serialize_r esc pretty 0 v) < 2 ^ 31" and "mok (length (json_serialize_r esc pretty 0 v) + 1)"
  shows "(if pretty then json_serialize_to_string_pretty mok esc (Some v) else json_serialize_to_string mok esc (Some v))
      = Ret (Some (json_serialize_r esc pretty 0 v))"
  using assms by (cases pretty)
    (simp_all add: json_serialize_to_string_pretty_def json_serialize_to_string_def json_serialization_size_pretty_def
      json_serialization_size_def json_serialize_to_buffer_pretty_def json_serialize_to_buffer_def serialized_def Let_def)

text \<open>
  C19. Reading back what was written: for a value of at most 2049 levels, of finite numbers and of
  objects whose keys are distinct and free of NUL, \<^verbatim>\<open>json_serialize_to_string\<close> and its pretty form,
  with slashes escaped or not, return a text that \<^verbatim>\<open>json_parse_string\<close> reads as a value with the
  same contents: the same members in the same order, the same elements, strings byte for byte, and
  every finite \<^verbatim>\<open>double\<close> exactly, fractions, exponents and subnormals included. Whatever follows
  the text in the input (as long as it does not continue a number) is ignored. The text stays below
  \<open>2^31\<close> bytes, and enough memory is 24 bytes per byte of text, and 128.
\<close>

theorem json_text_roundtrip:
  assumes "printable (Suc MAX_NESTING) v" and "length (json_serialize_r esc pretty 0 v) < 2 ^ 31"
    and "serves mok (24 * length (json_serialize_r esc pretty 0 v) + 128)"
  shows "\<exists>text. (if pretty then json_serialize_to_string_pretty mok esc (Some v) else json_serialize_to_string mok esc (Some v))
        = Ret (Some text)
      \<and> (\<forall>r. ends_number r \<longrightarrow>
            (\<exists>v'. json_parse_string mok (text @ r) = Ret (Some v') \<and> json_abs v' = json_abs v))"
proof -
  have "mok (length (json_serialize_r esc pretty 0 v) + 1)" using assms(3) by (simp add: serves_def)
  then have "(if pretty then json_serialize_to_string_pretty mok esc (Some v) else json_serialize_to_string mok esc (Some v))
        = Ret (Some (json_serialize_r esc pretty 0 v))"
    by (rule written_text [OF assms(2)])
  then show ?thesis using parse_serialized [OF assms(1,3)] by blast
qed

theorem json_text_roundtrip_witness:
  "\<exists>text. json_serialize_to_string (\<lambda>m. m < 2 ^ 34) True
        (Some (JArray (JSON_Array [JString ''a/b'', JNumber (Finite True (2 ^ 52) (-53))] 16))) = Ret (Some text)
     \<and> (\<exists>v'. json_parse_string (\<lambda>m. m < 2 ^ 34) (text @ '' !'') = Ret (Some v')
            \<and> json_abs v' = TArray [TString ''a/b'', TNumber (Finite True (2 ^ 52) (-53))])"
proof -
  let ?half = "Finite True (2 ^ 52) (-53)"
  let ?v = "JArray (JSON_Array [JString ''a/b'', JNumber ?half] 16)"
  have h: "is_double ?half" by (simp add: is_double_def)
  have two: "printable (Suc (Suc n)) ?v" for n using h by simp
  have "MAX_NESTING \<noteq> 0" by (simp add: MAX_NESTING_def)
  then have p: "printable (Suc MAX_NESTING) ?v" using two [of "MAX_NESTING - 1"] by simp
  have "length (json_serialize_r True False 0 ?v) = 9 + length (sprintf_g17 ?half)"
    by (simp add: json_serialize_string_def serialize_char_def APPEND_INDENT_def newline_def del: sprintf_g17.simps)
  then have len: "length (json_serialize_r True False 0 ?v) \<le> 33" using sprintf_length [OF h] by linarith
  have small: "24 * L + 128 < (2 :: nat) ^ 34" if "L \<le> 33" for L
  proof -
    have "24 * L + 128 \<le> 920" using that by linarith
    also have "\<dots> < (2 :: nat) ^ 34" by simp
    finally show ?thesis .
  qed
  have "serves (\<lambda>m. m < 2 ^ 34) (24 * length (json_serialize_r True False 0 ?v) + 128)"
    using small [OF len] by (rule serves_16G)
  moreover have "length (json_serialize_r True False 0 ?v) < 2 ^ 31" using len by (rule le_less_trans) simp
  ultimately obtain out where t: "json_serialize_to_string (\<lambda>m. m < 2 ^ 34) True (Some ?v) = Ret (Some out)"
      "\<And>r. ends_number r \<Longrightarrow> \<exists>v'. json_parse_string (\<lambda>m. m < 2 ^ 34) (out @ r) = Ret (Some v') \<and> json_abs v' = json_abs ?v"
    using json_text_roundtrip [OF p, of True False "\<lambda>m. m < 2 ^ 34"] unfolding if_False by blast
  have "ends_number '' !''" by (simp add: ends_number_def isdigit_def tolower_def)
  from t(2) [OF this] show ?thesis using t(1) by fastforce
qed

end
