(* ===== verification/Json_Parser.thy ===== *)
theory Json_Parser
  imports Parson_Serializer
begin

text \<open>
  The profile parser, \<^verbatim>\<open>src/policy-translator/json-deserializer/json-parser.c\<close>: from the bytes of the
  profile file to a \<open>SeccompProfile\<close>. A \<^verbatim>\<open>char **\<close> with its count is the list of the pointers,
  \<open>None\<close> for \<^verbatim>\<open>NULL\<close>. A result \<open>Inl e\<close> is the negative error code the function returns, by way of
  its cleanup label. Messages on \<^verbatim>\<open>stderr\<close> are left out.
\<close>

section \<open>The profile\<close>

record SeccompArgConstraint =
  arg_index :: "32 word"
  arg_value :: "64 word"
  arg_value_two :: "64 word"
  arg_op :: "string option"

record SeccompFilter =
  filter_caps :: "string option list"
  filter_arches :: "string option list"
  filter_min_kernel :: "string option"

record SeccompSyscallRule =
  rule_names :: "string option list"
  rule_action :: "string option"
  rule_include :: "SeccompFilter option"
  rule_exclude :: "SeccompFilter option"
  rule_args :: "SeccompArgConstraint list"
  rule_comment :: "string option"

record SeccompArchMap =
  map_architecture :: "string option"
  map_sub_architectures :: "string option list"

record SeccompProfile =
  profile_default_action :: "string option"
  profile_default_errno_ret :: int
  profile_arch_map :: "SeccompArchMap list"
  profile_syscalls :: "SeccompSyscallRule list"

text \<open>What \<^verbatim>\<open>memset(profile, 0, ...)\<close> leaves, at the start of \<^verbatim>\<open>parse_JSON\<close> and in \<^verbatim>\<open>free_profile\<close>.\<close>

definition zero_profile :: SeccompProfile where
  "zero_profile = \<lparr> profile_default_action = None, profile_default_errno_ret = 0,
                    profile_arch_map = [], profile_syscalls = [] \<rparr>"

definition free_profile :: "SeccompProfile \<Rightarrow> SeccompProfile" where
  "free_profile p = zero_profile"

section \<open>Error codes and results\<close>

definition ENOENT :: int where "ENOENT = 2"
definition EIO :: int where "EIO = 5"
definition ENOMEM :: int where "ENOMEM = 12"
definition EINVAL :: int where "EINVAL = 22"

text \<open>\<^verbatim>\<open>ret = -e; goto cleanup\<close>.\<close>

abbreviation cleanup :: "int \<Rightarrow> 'a proc" where
  "cleanup e \<equiv> Ret (Inl (- e))"

definition lift :: "'a outcome \<Rightarrow> 'a proc" where
  "lift m = obind m (\<lambda>x. Ret (Inr x))"

fun pmap :: "('a \<Rightarrow> 'b proc) \<Rightarrow> 'a list \<Rightarrow> 'b list proc" where
  "pmap f [] = Ret (Inr [])"
| "pmap f (x # xs) = pbind (f x) (\<lambda>y. pbind (pmap f xs) (\<lambda>ys. Ret (Inr (y # ys))))"

lemma pbind_Ret [simp]:
  "pbind (Ret (Inr x)) f = f x"
  "pbind (Ret (Inl e)) f = Ret (Inl e)"
  by (simp_all add: pbind_def)

lemma lift_simps [simp]: "lift (Ret x) = Ret (Inr x)" "lift UB = UB" "lift AssertFail = AssertFail"
  by (simp_all add: lift_def)

section \<open>The file\<close>

text \<open>
  What the C library answers for the file: whether it can be opened, whether the two seeks
  succeed, what \<^verbatim>\<open>ftell\<close> returns and the bytes \<^verbatim>\<open>fread\<close> delivers.
\<close>

record file_io =
  fopen_ok :: bool
  fseek_end_ok :: bool
  ftell_result :: int
  fseek_set_ok :: bool
  fread_bytes :: string

definition fileJSON_to_str :: "(nat \<Rightarrow> bool) \<Rightarrow> file_io option \<Rightarrow> int + string" where
  "fileJSON_to_str mok path =
     (case path of
        None \<Rightarrow> Inl (- EINVAL)
      | Some io \<Rightarrow>
          if \<not> fopen_ok io then Inl (- ENOENT)
          else if \<not> fseek_end_ok io then Inl (- EIO)
          else if ftell_result io < 0 then Inl (- EIO)
          else if \<not> fseek_set_ok io then Inl (- EIO)
          else let len = nat (ftell_result io)
               in if \<not> mok (len + 1) then Inl (- ENOMEM)
                  else let got = take len (fread_bytes io)
                       in if length got < len then Inl (- EIO) else Inr got)"

section \<open>Strings, numbers and arrays of strings\<close>

definition safe_strdup :: "(nat \<Rightarrow> bool) \<Rightarrow> string option \<Rightarrow> string option" where
  "safe_strdup mok src =
     (case src of None \<Rightarrow> None | Some s \<Rightarrow> if mok (length s + 1) then Some s else None)"

text \<open>\<^verbatim>\<open>calloc(n, sizeof(char *))\<close> filled with copies of the strings of a JSON array.\<close>

definition dup_strings :: "(nat \<Rightarrow> bool) \<Rightarrow> json json_array option \<Rightarrow> string option list" where
  "dup_strings mok a =
     map (\<lambda>i. safe_strdup mok (json_array_get_string a i)) [0..<json_array_get_count a]"

definition as_int :: "f64 \<Rightarrow> int outcome" where
  "as_int x = ub_unless (cast_int x)"

definition as_unsigned :: "f64 \<Rightarrow> 32 word outcome" where
  "as_unsigned x = obind (ub_unless (cast_uint x)) (\<lambda>k. Ret (word_of_int k))"

definition as_ull :: "f64 \<Rightarrow> 64 word outcome" where
  "as_ull x = obind (ub_unless (cast_ull x)) (\<lambda>k. Ret (word_of_int k))"

section \<open>Filters\<close>

text \<open>One of the two string arrays of a filter: \<open>None\<close> is the allocation failure.\<close>

definition filter_strings ::
    "(nat \<Rightarrow> bool) \<Rightarrow> json json_object option \<Rightarrow> string \<Rightarrow> string option list option outcome" where
  "filter_strings mok obj name =
     obind (json_object_get_array obj name) (\<lambda>a. Ret (
       if a = None \<or> json_array_get_count a = 0 then Some []
       else if \<not> mok (json_array_get_count a * 8) then None
       else Some (dup_strings mok a)))"

text \<open>\<^verbatim>\<open>NULL\<close> (\<open>None\<close>) for an absent filter and, alike, when memory runs out.\<close>

definition parse_filter ::
    "(nat \<Rightarrow> bool) \<Rightarrow> json json_object option \<Rightarrow> SeccompFilter option outcome" where
  "parse_filter mok obj =
     (if obj = None \<or> \<not> mok 40 then Ret None
      else obind (filter_strings mok obj ''caps'') (\<lambda>caps. case caps of
             None \<Rightarrow> Ret None
           | Some caps \<Rightarrow> obind (filter_strings mok obj ''arches'') (\<lambda>arches. case arches of
               None \<Rightarrow> Ret None
             | Some arches \<Rightarrow> obind (json_object_get_string obj ''minKernel'') (\<lambda>k.
                 Ret (Some \<lparr> filter_caps = caps, filter_arches = arches,
                             filter_min_kernel = safe_strdup mok k \<rparr>)))))"

text \<open>
  The loop over an array of objects: element \<open>i\<close> must be an object, or the whole profile is
  refused with \<^verbatim>\<open>EINVAL\<close>.
\<close>

definition each_element ::
    "(json json_object \<Rightarrow> 'a proc) \<Rightarrow> json json_array option \<Rightarrow> 'a list proc" where
  "each_element f a =
     pmap (\<lambda>i. case json_array_get_object a i of None \<Rightarrow> cleanup EINVAL | Some ob \<Rightarrow> f ob)
       [0..<json_array_get_count a]"

section \<open>Architectures\<close>

definition parse_arch_entry :: "(nat \<Rightarrow> bool) \<Rightarrow> json json_object \<Rightarrow> SeccompArchMap proc" where
  "parse_arch_entry mok arch_map_obj =
     pbind (lift (json_object_get_string (Some arch_map_obj) ''architecture'')) (\<lambda>architecture.
     pbind (lift (json_object_get_array (Some arch_map_obj) ''subArchitectures'')) (\<lambda>sub_arch_arr.
       let sub_arch_count = json_array_get_count sub_arch_arr
       in if 0 < sub_arch_count \<and> \<not> mok (sub_arch_count * 8) then cleanup ENOMEM
          else Ret (Inr \<lparr> map_architecture = safe_strdup mok architecture,
                          map_sub_architectures = dup_strings mok sub_arch_arr \<rparr>)))"

definition parse_arch_map ::
    "(nat \<Rightarrow> bool) \<Rightarrow> json json_object \<Rightarrow> SeccompArchMap list proc" where
  "parse_arch_map mok root_obj =
     pbind (lift (json_object_get_array (Some root_obj) ''archMap'')) (\<lambda>arch_map.
       let arch_map_count = json_array_get_count arch_map
       in if 0 < arch_map_count \<and> \<not> mok (arch_map_count * 24) then cleanup ENOMEM
          else each_element (parse_arch_entry mok) arch_map)"

section \<open>Rules\<close>

definition parse_arg :: "(nat \<Rightarrow> bool) \<Rightarrow> json json_object \<Rightarrow> SeccompArgConstraint proc" where
  "parse_arg mok arg_obj =
     pbind (lift (obind (json_object_get_number (Some arg_obj) ''index'') as_unsigned)) (\<lambda>index.
     pbind (lift (obind (json_object_get_number (Some arg_obj) ''value'') as_ull)) (\<lambda>value.
     pbind (lift (obind (json_object_get_number (Some arg_obj) ''value_two'') as_ull)) (\<lambda>value_two.
     pbind (lift (json_object_get_string (Some arg_obj) ''op'')) (\<lambda>op.
       Ret (Inr \<lparr> arg_index = index, arg_value = value, arg_value_two = value_two,
                  arg_op = safe_strdup mok op \<rparr>)))))"

definition parse_names ::
    "(nat \<Rightarrow> bool) \<Rightarrow> json json_object \<Rightarrow> string option list proc" where
  "parse_names mok syscall_obj =
     pbind (lift (json_object_get_array (Some syscall_obj) ''names'')) (\<lambda>names_arr.
       let names_count = json_array_get_count names_arr
       in if 0 < names_count \<and> \<not> mok (names_count * 8) then cleanup ENOMEM
          else Ret (Inr (dup_strings mok names_arr)))"

definition parse_args ::
    "(nat \<Rightarrow> bool) \<Rightarrow> json json_object \<Rightarrow> SeccompArgConstraint list proc" where
  "parse_args mok syscall_obj =
     pbind (lift (json_object_get_array (Some syscall_obj) ''args'')) (\<lambda>arg_arr.
       let args_count = json_array_get_count arg_arr
       in if 0 < args_count \<and> \<not> mok (args_count * 32) then cleanup ENOMEM
          else each_element (parse_arg mok) arg_arr)"

definition parse_rule :: "(nat \<Rightarrow> bool) \<Rightarrow> json json_object \<Rightarrow> SeccompSyscallRule proc" where
  "parse_rule mok syscall_obj =
     pbind (lift (json_object_get_string (Some syscall_obj) ''action'')) (\<lambda>action.
     pbind (lift (json_object_get_string (Some syscall_obj) ''comment'')) (\<lambda>comment.
     pbind (lift (obind (json_object_get_object (Some syscall_obj) ''include'') (parse_filter mok))) (\<lambda>inc.
     pbind (lift (obind (json_object_get_object (Some syscall_obj) ''exclude'') (parse_filter mok))) (\<lambda>exc.
     pbind (parse_names mok syscall_obj) (\<lambda>names.
     pbind (parse_args mok syscall_obj) (\<lambda>args.
       Ret (Inr \<lparr> rule_names = names, rule_action = safe_strdup mok action, rule_include = inc,
                  rule_exclude = exc, rule_args = args,
                  rule_comment = safe_strdup mok comment \<rparr>)))))))"

definition parse_syscalls ::
    "(nat \<Rightarrow> bool) \<Rightarrow> json json_object \<Rightarrow> SeccompSyscallRule list proc" where
  "parse_syscalls mok root_obj =
     pbind (lift (json_object_get_array (Some root_obj) ''syscalls'')) (\<lambda>syscall_arr.
       let syscalls_count = json_array_get_count syscall_arr
       in if 0 < syscalls_count \<and> \<not> mok (syscalls_count * 64) then cleanup ENOMEM
          else each_element (parse_rule mok) syscall_arr)"

section \<open>The whole profile\<close>

definition parse_root_object :: "(nat \<Rightarrow> bool) \<Rightarrow> json json_object \<Rightarrow> SeccompProfile proc" where
  "parse_root_object mok root_obj =
     pbind (lift (json_object_get_string (Some root_obj) ''defaultAction'')) (\<lambda>action.
     if safe_strdup mok action = None then cleanup EINVAL
     else pbind (lift (obind (json_object_get_number (Some root_obj) ''defaultErrnoRet'') as_int)) (\<lambda>errno_ret.
          pbind (parse_arch_map mok root_obj) (\<lambda>arch_map.
          pbind (parse_syscalls mok root_obj) (\<lambda>syscalls.
            Ret (Inr \<lparr> profile_default_action = safe_strdup mok action,
                       profile_default_errno_ret = errno_ret,
                       profile_arch_map = arch_map, profile_syscalls = syscalls \<rparr>)))))"

text \<open>From the root value on: it must be there, and be an object.\<close>

definition parse_root :: "(nat \<Rightarrow> bool) \<Rightarrow> json option \<Rightarrow> SeccompProfile proc" where
  "parse_root mok root_value =
     (case root_value of
        None \<Rightarrow> cleanup EINVAL
      | Some v \<Rightarrow> (case json_value_get_object (Some v) of
          None \<Rightarrow> cleanup EINVAL
        | Some root_obj \<Rightarrow> parse_root_object mok root_obj))"

text \<open>
  \<^verbatim>\<open>parse_JSON\<close>: the return code and the profile it leaves behind \<open>profile\<close>; \<open>None\<close> for the path or
  the profile pointer is \<^verbatim>\<open>NULL\<close>.
\<close>

definition parse_JSON ::
    "(nat \<Rightarrow> bool) \<Rightarrow> file_io option \<Rightarrow> SeccompProfile option
     \<Rightarrow> (int \<times> SeccompProfile option) outcome" where
  "parse_JSON mok file_path profile =
     (if file_path = None \<or> profile = None then Ret (- EINVAL, profile)
      else obind
        (case fileJSON_to_str mok file_path of
           Inl e \<Rightarrow> Ret (Inl e)
         | Inr string_JSON \<Rightarrow> obind (json_parse_string mok string_JSON) (parse_root mok))
        (\<lambda>r. Ret (case r of
           Inl e \<Rightarrow> (e, Some (free_profile (the profile)))
         | Inr p \<Rightarrow> (0, Some p))))"

end
