(* ===== verification/Ctx_Build.thy ===== *)
theory Ctx_Build
  imports Json_Parser
begin

text \<open>
  The filter builder, \<^verbatim>\<open>src/policy-translator/ctx-generator/ctx-build.c\<close>: from a profile and what is
  known of the running system to a libseccomp filter context. libseccomp is not part of the
  program: its constants and its functions are the fields of a record \<open>seccomp\<close> that the
  definitions take as an argument, the filter context is an abstract value \<open>'c\<close> that each
  call returns updated. Strings are NUL-free, so \<^verbatim>\<open>strcmp\<close> is equality; messages on \<^verbatim>\<open>stderr\<close>
  are left out, but a null pointer handed to \<^verbatim>\<open>%s\<close> is undefined behaviour and is kept.
\<close>

section \<open>The libseccomp interface\<close>

text \<open>The constants of \<^verbatim>\<open><seccomp.h>\<close> that the code names, by name; the record gives their numbers.\<close>

datatype scmp_act =
    ACT_ALLOW | ACT_ERRNO int | ACT_KILL | ACT_KILL_PROCESS | ACT_KILL_THREAD | ACT_TRAP
  | ACT_TRACE int | ACT_LOG | ACT_NOTIFY

datatype scmp_arch =
    ARCH_NATIVE | ARCH_X86 | ARCH_X86_64 | ARCH_X32 | ARCH_ARM | ARCH_AARCH64 | ARCH_MIPS
  | ARCH_MIPS64 | ARCH_MIPS64N32 | ARCH_MIPSEL | ARCH_MIPSEL64 | ARCH_MIPSEL64N32 | ARCH_PPC
  | ARCH_PPC64 | ARCH_PPC64LE | ARCH_S390 | ARCH_S390X | ARCH_PARISC | ARCH_PARISC64 | ARCH_RISCV64

datatype scmp_cmp = CMP_NE | CMP_LT | CMP_LE | CMP_EQ | CMP_GE | CMP_GT | CMP_MASKED_EQ

record scmp_arg_cmp =
  cmp_arg :: "32 word"
  cmp_op :: scmp_cmp
  cmp_datum_a :: "64 word"
  cmp_datum_b :: "64 word"

record 'c seccomp =
  SCMP_ACT :: "scmp_act \<Rightarrow> 32 word"
  SCMP_ARCH :: "scmp_arch \<Rightarrow> 32 word"
  NR_SCMP_ERROR :: int
  sizeof_arg_cmp :: nat
  seccomp_init :: "32 word \<Rightarrow> 'c option"
  seccomp_arch_add :: "'c \<Rightarrow> 32 word \<Rightarrow> int \<times> 'c"
  seccomp_syscall_resolve_name :: "string option \<Rightarrow> int"
  seccomp_rule_add :: "'c \<Rightarrow> 32 word \<Rightarrow> int \<Rightarrow> int \<times> 'c"
  seccomp_rule_add_array :: "'c \<Rightarrow> 32 word \<Rightarrow> int \<Rightarrow> scmp_arg_cmp list \<Rightarrow> int \<times> 'c"

definition EEXIST :: int where "EEXIST = 17"

section \<open>Names to constants\<close>

definition map_action_string :: "'c seccomp \<Rightarrow> string option \<Rightarrow> int \<Rightarrow> 32 word" where
  "map_action_string lib action_str default_errno_ret =
     SCMP_ACT lib (case action_str of
        None \<Rightarrow> ACT_ALLOW
      | Some s \<Rightarrow>
          if s = ''SCMP_ACT_ALLOW'' then ACT_ALLOW
          else if s = ''SCMP_ACT_ERRNO'' then ACT_ERRNO default_errno_ret
          else if s = ''SCMP_ACT_KILL'' then ACT_KILL
          else if s = ''SCMP_ACT_KILL_PROCESS'' then ACT_KILL_PROCESS
          else if s = ''SCMP_ACT_KILL_THREAD'' then ACT_KILL_THREAD
          else if s = ''SCMP_ACT_TRAP'' then ACT_TRAP
          else if s = ''SCMP_ACT_TRACE'' then ACT_TRACE 0
          else if s = ''SCMP_ACT_LOG'' then ACT_LOG
          else if s = ''SCMP_ACT_NOTIFY'' then ACT_NOTIFY
          else ACT_ALLOW)"

definition arch_of_string :: "string \<Rightarrow> scmp_arch" where
  "arch_of_string s =
     (if s = ''SCMP_ARCH_NATIVE'' then ARCH_NATIVE
      else if s = ''SCMP_ARCH_X86'' then ARCH_X86
      else if s = ''SCMP_ARCH_X86_64'' then ARCH_X86_64
      else if s = ''SCMP_ARCH_X32'' then ARCH_X32
      else if s = ''SCMP_ARCH_ARM'' then ARCH_ARM
      else if s = ''SCMP_ARCH_AARCH64'' then ARCH_AARCH64
      else if s = ''SCMP_ARCH_MIPS'' then ARCH_MIPS
      else if s = ''SCMP_ARCH_MIPS64'' then ARCH_MIPS64
      else if s = ''SCMP_ARCH_MIPS64N32'' then ARCH_MIPS64N32
      else if s = ''SCMP_ARCH_MIPSEL'' then ARCH_MIPSEL
      else if s = ''SCMP_ARCH_MIPSEL64'' then ARCH_MIPSEL64
      else if s = ''SCMP_ARCH_MIPSEL64N32'' then ARCH_MIPSEL64N32
      else if s = ''SCMP_ARCH_PPC'' then ARCH_PPC
      else if s = ''SCMP_ARCH_PPC64'' then ARCH_PPC64
      else if s = ''SCMP_ARCH_PPC64LE'' then ARCH_PPC64LE
      else if s = ''SCMP_ARCH_S390'' then ARCH_S390
      else if s = ''SCMP_ARCH_S390X'' then ARCH_S390X
      else if s = ''SCMP_ARCH_PARISC'' then ARCH_PARISC
      else if s = ''SCMP_ARCH_PARISC64'' then ARCH_PARISC64
      else if s = ''SCMP_ARCH_RISCV64'' then ARCH_RISCV64
      else ARCH_NATIVE)"

definition map_arch_string :: "'c seccomp \<Rightarrow> string option \<Rightarrow> 32 word" where
  "map_arch_string lib arch_str =
     SCMP_ARCH lib (case arch_str of None \<Rightarrow> ARCH_NATIVE | Some s \<Rightarrow> arch_of_string s)"

definition map_cmp_op_string :: "string option \<Rightarrow> scmp_cmp" where
  "map_cmp_op_string op_str =
     (case op_str of
        None \<Rightarrow> CMP_EQ
      | Some s \<Rightarrow>
          if s = ''SCMP_CMP_NE'' then CMP_NE
          else if s = ''SCMP_CMP_LT'' then CMP_LT
          else if s = ''SCMP_CMP_LE'' then CMP_LE
          else if s = ''SCMP_CMP_EQ'' then CMP_EQ
          else if s = ''SCMP_CMP_GE'' then CMP_GE
          else if s = ''SCMP_CMP_GT'' then CMP_GT
          else if s = ''SCMP_CMP_MASKED_EQ'' then CMP_MASKED_EQ
          else CMP_EQ)"

definition resolve_rule_action :: "'c seccomp \<Rightarrow> SeccompSyscallRule \<Rightarrow> int \<Rightarrow> int \<Rightarrow> 32 word" where
  "resolve_rule_action lib rule syscall_id default_errno_ret =
     (case rule_action rule of
        None \<Rightarrow> SCMP_ACT lib ACT_ALLOW
      | Some a \<Rightarrow>
          let mapped = map_action_string lib (Some a) default_errno_ret
          in if mapped = SCMP_ACT lib ACT_ALLOW then SCMP_ACT lib ACT_ALLOW
             else SCMP_ACT lib (ACT_TRACE 0))"

section \<open>The running system\<close>

text \<open>\<open>held_caps\<close> is \<open>None\<close> for the null pointer; its length is \<^verbatim>\<open>held_caps_count\<close>.\<close>

record SeccompRuntimeContext =
  current_arch :: "string option"
  held_caps :: "string option list option"
  kernel_major :: "32 word"
  kernel_minor :: "32 word"

definition zero_runtime_context :: SeccompRuntimeContext where
  "zero_runtime_context = \<lparr> current_arch = None, held_caps = None, kernel_major = 0, kernel_minor = 0 \<rparr>"

definition free_runtime_context :: "SeccompRuntimeContext \<Rightarrow> SeccompRuntimeContext" where
  "free_runtime_context ctx = zero_runtime_context"

text \<open>
  \<^verbatim>\<open>%u\<close> of \<^verbatim>\<open>sscanf\<close>: white space, a sign, digits. A number that \<^verbatim>\<open>unsigned int\<close> cannot hold, or a
  negated one, is undefined.
\<close>

definition scan_u :: "string \<Rightarrow> (nat \<times> string) option outcome" where
  "scan_u s =
     (let t = skip_ws s;
          neg = (t \<noteq> [] \<and> hd t = CHR ''-'');
          u = (if t \<noteq> [] \<and> (hd t = CHR ''-'' \<or> hd t = CHR ''+'') then tl t else t);
          ds = takeWhile isdigit u;
          v = dec_val ds
      in if ds = [] then Ret None
         else if 2 ^ 32 \<le> v \<or> (neg \<and> v \<noteq> 0) then UB
         else Ret (Some (v, dropWhile isdigit u)))"

text \<open>\<^verbatim>\<open>sscanf(s, "%u.%u", &a, &b)\<close>: the pair when the result is 2, \<open>None\<close> otherwise.\<close>

definition sscanf_u_dot_u :: "string \<Rightarrow> (nat \<times> nat) option outcome" where
  "sscanf_u_dot_u s =
     obind (scan_u s) (\<lambda>r. case r of
        None \<Rightarrow> Ret None
      | Some (a, t) \<Rightarrow>
          if t = [] \<or> hd t \<noteq> CHR ''.'' then Ret None
          else obind (scan_u (tl t)) (\<lambda>r. Ret (case r of
                 None \<Rightarrow> None
               | Some (b, _) \<Rightarrow> Some (a, b))))"

section \<open>Which rules apply\<close>

fun arch_in :: "string option list \<Rightarrow> string \<Rightarrow> bool" where
  "arch_in [] cur = False"
| "arch_in (None # arches) cur = arch_in arches cur"
| "arch_in (Some a # arches) cur = (if a = ''SCMP_ARCH_NATIVE'' then True
                                    else if a = cur then True else arch_in arches cur)"

definition arch_matches :: "string option list \<Rightarrow> SeccompRuntimeContext option \<Rightarrow> bool" where
  "arch_matches arches runtime_ctx =
     (if arches = [] then True
      else case Option.bind runtime_ctx current_arch of
             None \<Rightarrow> True
           | Some cur \<Rightarrow> arch_in arches cur)"

text \<open>The inner loop: \<^verbatim>\<open>strcmp\<close> with a null \<^verbatim>\<open>caps[i]\<close> is undefined.\<close>

fun cap_found :: "string option \<Rightarrow> string option list \<Rightarrow> bool outcome" where
  "cap_found cap [] = Ret False"
| "cap_found cap (None # held) = cap_found cap held"
| "cap_found cap (Some h # held) =
     (case cap of None \<Rightarrow> UB | Some c \<Rightarrow> if c = h then Ret True else cap_found cap held)"

fun all_caps_found :: "string option list \<Rightarrow> string option list \<Rightarrow> bool outcome" where
  "all_caps_found [] held = Ret True"
| "all_caps_found (cap # caps) held =
     obind (cap_found cap held) (\<lambda>found. if found then all_caps_found caps held else Ret False)"

definition caps_match :: "string option list \<Rightarrow> SeccompRuntimeContext option \<Rightarrow> bool outcome" where
  "caps_match caps runtime_ctx =
     (if caps = [] then Ret True
      else case Option.bind runtime_ctx held_caps of
             None \<Rightarrow> Ret False
           | Some held \<Rightarrow> all_caps_found caps held)"

definition kernel_matches :: "string option \<Rightarrow> SeccompRuntimeContext option \<Rightarrow> bool outcome" where
  "kernel_matches min_kernel runtime_ctx =
     (case min_kernel of
        None \<Rightarrow> Ret True
      | Some v \<Rightarrow>
          if v = [] then Ret True
          else case runtime_ctx of
                 None \<Rightarrow> Ret False
               | Some ctx \<Rightarrow> obind (sscanf_u_dot_u v) (\<lambda>r. Ret (case r of
                   None \<Rightarrow> False
                 | Some (req_major, req_minor) \<Rightarrow>
                     if word_of_nat req_major < kernel_major ctx then True
                     else if kernel_major ctx < word_of_nat req_major then False
                     else word_of_nat req_minor \<le> kernel_minor ctx)))"

text \<open>The three tests in the order both filters make them, each after the ones before it held.\<close>

definition filter_matches :: "SeccompFilter \<Rightarrow> SeccompRuntimeContext option \<Rightarrow> bool outcome" where
  "filter_matches f runtime_ctx =
     (if \<not> arch_matches (filter_arches f) runtime_ctx then Ret False
      else obind (caps_match (filter_caps f) runtime_ctx) (\<lambda>caps.
        if \<not> caps then Ret False else kernel_matches (filter_min_kernel f) runtime_ctx))"

definition rule_applies :: "SeccompSyscallRule option \<Rightarrow> SeccompRuntimeContext option \<Rightarrow> bool outcome" where
  "rule_applies rule runtime_ctx =
     (case rule of
        None \<Rightarrow> Ret False
      | Some r \<Rightarrow>
          obind (case rule_include r of None \<Rightarrow> Ret True | Some inc \<Rightarrow> filter_matches inc runtime_ctx) (\<lambda>inc.
          if \<not> inc then Ret False
          else obind (case rule_exclude r of None \<Rightarrow> Ret False | Some exc \<Rightarrow> filter_matches exc runtime_ctx) (\<lambda>exc.
            Ret (\<not> exc))))"

section \<open>Capabilities held\<close>

text \<open>The loop over the lines of the status file: the value of the first \<^verbatim>\<open>CapEff:\<close> line.\<close>

definition strtoull16 :: "string \<Rightarrow> 64 word" where
  "strtoull16 s =
     (let t = skip_ws s;
          neg = (t \<noteq> [] \<and> hd t = CHR ''-'');
          u = (if t \<noteq> [] \<and> (hd t = CHR ''-'' \<or> hd t = CHR ''+'') then tl t else t);
          w = (if istarts ''0x'' u \<and> 2 < length u \<and> is_xdigit (u ! 2) then drop 2 u else u);
          v = hex_val (takeWhile is_xdigit w)
      in if 2 ^ 64 \<le> v then - 1 else if neg then - word_of_nat v else word_of_nat v)"

function cap_eff_line :: "string \<Rightarrow> 64 word option" where
  "cap_eff_line s =
     (if s = [] then None
      else let line = fgets_line 512 s
           in if take 7 line = ''CapEff:'' then Some (strtoull16 (drop 7 line))
              else cap_eff_line (drop (length line) s))"
  by pat_completeness auto

termination
  by (relation "measure length") (use fgets_progress [of _ 512] in auto)

declare cap_eff_line.simps [simp del]

definition cap_name :: "nat \<Rightarrow> string" where
  "cap_name i = ''CAP_'' @ dec_str i"

text \<open>
  \<open>status\<close> is the content of \<^verbatim>\<open>/proc/self/status\<close>, \<open>None\<close> when it cannot be opened. The result is
  the return code and the context.
\<close>

definition build_held_caps ::
    "(nat \<Rightarrow> bool) \<Rightarrow> string option \<Rightarrow> SeccompRuntimeContext \<Rightarrow> int \<times> SeccompRuntimeContext" where
  "build_held_caps mok status ctx =
     (case status of
        None \<Rightarrow> (- EIO, ctx)
      | Some content \<Rightarrow> (case cap_eff_line content of
          None \<Rightarrow> (- EIO, ctx)
        | Some cap_eff \<Rightarrow>
            let bits = filter (bit cap_eff) [0..<64]
            in if bits = [] then (0, ctx)
               else if \<not> mok (length bits * 8) then (- ENOMEM, ctx\<lparr> held_caps := None \<rparr>)
               else if list_ex (\<lambda>i. \<not> mok (length (cap_name i) + 1)) bits
               then (- ENOMEM, ctx\<lparr> held_caps := None \<rparr>)
               else (0, ctx\<lparr> held_caps := Some (map (\<lambda>i. Some (cap_name i)) bits) \<rparr>)))"

definition arch_of_machine :: "string \<Rightarrow> string" where
  "arch_of_machine machine =
     (if machine = ''x86_64'' then ''SCMP_ARCH_X86_64''
      else if machine = ''i386'' \<or> machine = ''i486'' \<or> machine = ''i586'' \<or> machine = ''i686''
           then ''SCMP_ARCH_X86''
      else if machine = ''aarch64'' then ''SCMP_ARCH_AARCH64''
      else if machine = ''armv7l'' \<or> machine = ''armv6l'' then ''SCMP_ARCH_ARM''
      else if machine = ''ppc64le'' then ''SCMP_ARCH_PPC64LE''
      else if machine = ''ppc64'' then ''SCMP_ARCH_PPC64''
      else if machine = ''ppc'' then ''SCMP_ARCH_PPC''
      else if machine = ''s390x'' then ''SCMP_ARCH_S390X''
      else if machine = ''s390'' then ''SCMP_ARCH_S390''
      else if machine = ''riscv64'' then ''SCMP_ARCH_RISCV64''
      else if machine = ''mips'' then ''SCMP_ARCH_MIPS''
      else if machine = ''mips64'' then ''SCMP_ARCH_MIPS64''
      else ''SCMP_ARCH_NATIVE'')"

text \<open>\<open>uts\<close> is the machine and the release \<^verbatim>\<open>uname\<close> reports, \<open>None\<close> when it fails.\<close>

definition build_runtime_context ::
    "(nat \<Rightarrow> bool) \<Rightarrow> (string \<times> string) option \<Rightarrow> string option \<Rightarrow> SeccompRuntimeContext option
     \<Rightarrow> (int \<times> SeccompRuntimeContext option) outcome" where
  "build_runtime_context mok uts status ctx =
     (if ctx = None then Ret (- EINVAL, None)
      else case uts of
        None \<Rightarrow> Ret (- EIO, Some zero_runtime_context)
      | Some (machine, release) \<Rightarrow>
          let arch_str = arch_of_machine machine
          in if \<not> mok (length arch_str + 1) then Ret (- ENOMEM, Some zero_runtime_context)
             else obind (sscanf_u_dot_u release) (\<lambda>r.
               let (major, minor) = (case r of None \<Rightarrow> (0, 0) | Some mm \<Rightarrow> mm);
                   ctx1 = zero_runtime_context\<lparr> current_arch := Some arch_str,
                            kernel_major := word_of_nat major, kernel_minor := word_of_nat minor \<rparr>;
                   (ret, ctx2) = build_held_caps mok status ctx1
               in if ret \<noteq> 0 then Ret (ret, Some (free_runtime_context ctx2))
                  else Ret (0, Some ctx2)))"

section \<open>Building the filter\<close>

text \<open>\<^verbatim>\<open>%s\<close>: undefined for a null pointer.\<close>

definition printed :: "string option \<Rightarrow> 'a outcome \<Rightarrow> 'a outcome" where
  "printed s k = (if s = None then UB else k)"

definition UINT_MAX :: nat where "UINT_MAX = 2 ^ 32 - 1"

definition arg_cmp :: "SeccompArgConstraint \<Rightarrow> scmp_arg_cmp" where
  "arg_cmp a = \<lparr> cmp_arg = arg_index a, cmp_op = map_cmp_op_string (arg_op a),
                 cmp_datum_a = arg_value a, cmp_datum_b = arg_value_two a \<rparr>"

definition add_arg_rule ::
    "'c seccomp \<Rightarrow> (nat \<Rightarrow> bool) \<Rightarrow> 'c \<Rightarrow> 32 word \<Rightarrow> int \<Rightarrow> SeccompSyscallRule \<Rightarrow> int \<times> 'c" where
  "add_arg_rule lib mok ctx action syscall_id rule =
     (let n = length (rule_args rule)
      in if n = 0 \<or> UINT_MAX < n then (- EINVAL, ctx)
         else if \<not> mok (n * sizeof_arg_cmp lib) then (- ENOMEM, ctx)
         else seccomp_rule_add_array lib ctx action syscall_id (map arg_cmp (rule_args rule)))"

text \<open>
  A stretch of the builder: the context to go on with (\<open>Inr\<close>), or the context at a
  \<^verbatim>\<open>goto fail\<close> (\<open>Inl\<close>).
\<close>

type_synonym 'c building = "('c + 'c) outcome"

definition andthen :: "'c building \<Rightarrow> ('c \<Rightarrow> 'c building) \<Rightarrow> 'c building" where
  "andthen m f = obind m (\<lambda>r. case r of Inl c \<Rightarrow> Ret (Inl c) | Inr c \<Rightarrow> f c)"

fun building_all :: "('a \<Rightarrow> 'c \<Rightarrow> 'c building) \<Rightarrow> 'a list \<Rightarrow> 'c \<Rightarrow> 'c building" where
  "building_all f [] c = Ret (Inr c)"
| "building_all f (x # xs) c = andthen (f x c) (building_all f xs)"

definition add_arch :: "'c seccomp \<Rightarrow> string option \<Rightarrow> 'c \<Rightarrow> 'c building" where
  "add_arch lib name ctx =
     (case seccomp_arch_add lib ctx (map_arch_string lib name) of (rc, ctx') \<Rightarrow>
        if rc \<noteq> 0 \<and> rc \<noteq> - EEXIST then printed name (Ret (Inl ctx')) else Ret (Inr ctx'))"

definition add_arch_map :: "'c seccomp \<Rightarrow> SeccompArchMap \<Rightarrow> 'c \<Rightarrow> 'c building" where
  "add_arch_map lib m ctx =
     (let go = andthen (add_arch lib (map_architecture m) ctx)
                 (building_all (add_arch lib) (map_sub_architectures m))
      in if map_arch_string lib (map_architecture m) = SCMP_ARCH lib ARCH_NATIVE
         then printed (map_architecture m) go else go)"

definition add_syscall ::
    "'c seccomp \<Rightarrow> (nat \<Rightarrow> bool) \<Rightarrow> int \<Rightarrow> SeccompSyscallRule \<Rightarrow> string option \<Rightarrow> 'c \<Rightarrow> 'c building" where
  "add_syscall lib mok default_errno_ret rule name ctx =
     (let syscall_id = seccomp_syscall_resolve_name lib name
      in if syscall_id = NR_SCMP_ERROR lib then printed name (Ret (Inr ctx))
         else let action = resolve_rule_action lib rule syscall_id default_errno_ret;
                  (rc, ctx') = (if rule_args rule \<noteq> [] then add_arg_rule lib mok ctx action syscall_id rule
                                else seccomp_rule_add lib ctx action syscall_id)
              in if rc \<noteq> 0 then printed name (Ret (Inl ctx')) else Ret (Inr ctx'))"

definition add_rule ::
    "'c seccomp \<Rightarrow> (nat \<Rightarrow> bool) \<Rightarrow> int \<Rightarrow> SeccompRuntimeContext \<Rightarrow> SeccompSyscallRule \<Rightarrow> 'c \<Rightarrow> 'c building" where
  "add_rule lib mok default_errno_ret runtime_ctx rule ctx =
     obind (rule_applies (Some rule) (Some runtime_ctx)) (\<lambda>applies.
       if \<not> applies then Ret (Inr ctx)
       else building_all (add_syscall lib mok default_errno_ret rule) (rule_names rule) ctx)"

text \<open>
  What the builder returns: a context, \<^verbatim>\<open>NULL\<close>, or \<^verbatim>\<open>NULL\<close> after \<^verbatim>\<open>seccomp_release\<close> of the context
  built so far.
\<close>

datatype 'c built = Built 'c | Null | Released 'c

definition build_seccomp_context ::
    "'c seccomp \<Rightarrow> (nat \<Rightarrow> bool) \<Rightarrow> SeccompProfile option \<Rightarrow> SeccompRuntimeContext option
     \<Rightarrow> 'c built outcome" where
  "build_seccomp_context lib mok profile runtime_ctx =
     (case (profile, runtime_ctx) of
        (Some p, Some rt) \<Rightarrow>
          (case seccomp_init lib (map_action_string lib (profile_default_action p) (profile_default_errno_ret p)) of
             None \<Rightarrow> Ret Null
           | Some ctx \<Rightarrow>
               obind (andthen (building_all (add_arch_map lib) (profile_arch_map p) ctx)
                        (building_all (add_rule lib mok (profile_default_errno_ret p) rt) (profile_syscalls p)))
                 (\<lambda>r. Ret (case r of Inl c \<Rightarrow> Released c | Inr c \<Rightarrow> Built c)))
      | _ \<Rightarrow> Ret Null)"

end
