(* ===== verification/Parson_Tree.thy ===== *)
theory Parson_Tree
  imports Parson_Serializer
begin

text \<open>
  JSON values as trees: well-formed values (\<open>tidy\<close>), and what the typed getters of
  \<^verbatim>\<open>include/parson.c\<close> return on them, as lookups in the tree \<open>json_abs\<close> (collected in
  \<open>reads_tree\<close>). The clients of the parser (the profile parser, copies, dotted paths) are
  specified over these.
\<close>

section \<open>Reading a tree\<close>

definition t_get :: "jtree \<Rightarrow> string \<Rightarrow> jtree option" where
  "t_get t k = (case t of TObject kvs \<Rightarrow> map_of kvs k | _ \<Rightarrow> None)"

definition t_str :: "jtree option \<Rightarrow> string option" where
  "t_str t = (case t of Some (TString s) \<Rightarrow> Some (cstr s) | _ \<Rightarrow> None)"

definition t_num :: "jtree option \<Rightarrow> f64" where
  "t_num t = (case t of Some (TNumber x) \<Rightarrow> x | _ \<Rightarrow> f64_zero)"

definition t_list :: "jtree option \<Rightarrow> jtree list" where
  "t_list t = (case t of Some (TArray ts) \<Rightarrow> ts | _ \<Rightarrow> [])"

definition t_object :: "jtree option \<Rightarrow> jtree option" where
  "t_object t = (case t of Some (TObject kvs) \<Rightarrow> Some (TObject kvs) | _ \<Rightarrow> None)"

section \<open>Getters on well-formed values\<close>

named_theorems reads_tree \<open>the getters on a tidy value, as tree lookups\<close>

definition tidy :: "json \<Rightarrow> bool" where
  "tidy v \<longleftrightarrow> (\<exists>d. well_formed d v)"

lemma tidy_object:
  assumes "tidy (JObject obj)"
  shows "obj_ok obj" and "map_of (items obj) k = Some w \<Longrightarrow> tidy w"
proof -
  obtain d where d: "well_formed d (JObject obj)" using assms by (auto simp: tidy_def)
  then obtain d' where d': "d = Suc d'" by (cases d) auto
  then show "obj_ok obj" using d by (simp add: members_ok_def)
  have vs: "list_all (well_formed d') (item_values obj)" using d d' by (simp add: members_ok_def)
  assume "map_of (items obj) k = Some w"
  then have "w \<in> set (item_values obj)" by (auto simp: items_def dest!: map_of_SomeD set_zip_rightD)
  then show "tidy w" using vs by (auto simp: tidy_def list_all_iff)
qed

lemma tidy_array: "tidy (JArray a) \<Longrightarrow> w \<in> set (elems a) \<Longrightarrow> tidy w"
  unfolding tidy_def
proof (elim exE)
  fix d assume d: "well_formed d (JArray a)" and w: "w \<in> set (elems a)"
  then show "\<exists>d. well_formed d w" by (cases d) (auto simp: elems_ok_def list_all_iff)
qed

text \<open>Memory for the copies: a size of the tree, and 64 bytes for each unit of it.\<close>

primrec tree_size :: "jtree \<Rightarrow> nat" where
  "tree_size (TObject kvs) = Suc (sum_list (map snd (map (map_prod id tree_size) kvs)))"
| "tree_size (TArray ts) = Suc (sum_list (map tree_size ts))"
| "tree_size (TString s) = Suc (length s)"
| "tree_size (TNumber x) = 1"
| "tree_size (TBoolean b) = 1"
| "tree_size TNull = 1"

definition copies_fit :: "(nat \<Rightarrow> bool) \<Rightarrow> jtree \<Rightarrow> bool" where
  "copies_fit mok t \<longleftrightarrow> (\<forall>n\<le>64 * tree_size t + 64. mok n)"

lemma copies_fit_smaller: "copies_fit mok t \<Longrightarrow> tree_size u \<le> tree_size t \<Longrightarrow> copies_fit mok u"
  by (auto simp: copies_fit_def)

lemma tree_size_member: "map_of kvs k = Some u \<Longrightarrow> tree_size u \<le> tree_size (TObject kvs)"
  using member_le_sum_list [of "tree_size u" "map snd (map (map_prod id tree_size) kvs)"]
  by (force dest: map_of_SomeD simp: comp_def)

lemma tree_size_elem: "u \<in> set ts \<Longrightarrow> tree_size u \<le> tree_size (TArray ts)"
  using member_le_sum_list [of "tree_size u" "map tree_size ts"] by simp

lemma tree_size_pos: "0 < tree_size t"
  by (cases t) simp_all

lemma tree_size_length: "length ts \<le> tree_size (TArray ts)"
proof -
  have "length ts \<le> sum_list (map tree_size ts)"
  proof (induction ts)
    case (Cons t ts)
    then show ?case using tree_size_pos [of t] by simp
  qed simp
  then show ?thesis by simp
qed

lemma copies_fit_get: "copies_fit mok t \<Longrightarrow> t_get t k = Some u \<Longrightarrow> copies_fit mok u"
  by (cases t) (auto simp: t_get_def intro: copies_fit_smaller tree_size_member)

lemma copies_fit_elem: "copies_fit mok (TArray ts) \<Longrightarrow> u \<in> set ts \<Longrightarrow> copies_fit mok u"
  using copies_fit_smaller tree_size_elem by blast

lemma map_of_map_values: "map_of (map (\<lambda>(k, v). (k, f v)) kvs) k = map_option f (map_of kvs k)"
  by (induction kvs) auto

text \<open>Lookup, for a tidy object: the value and that it is tidy and fits.\<close>

lemma get_value_tree:
  assumes "tidy (JObject obj)"
  obtains v where "json_object_get_value (Some obj) k = Ret v"
    "map_option json_abs v = t_get (json_abs (JObject obj)) k" "\<And>w. v = Some w \<Longrightarrow> tidy w"
proof -
  have "json_object_get_value (Some obj) k = Ret (map_of (items obj) k)"
    using getn_value_map [OF tidy_object(1) [OF assms], of "length k" k] by (simp add: json_object_get_value_def)
  moreover have "map_option json_abs (map_of (items obj) k) = t_get (json_abs (JObject obj)) k"
    by (simp only: t_get_def json_abs.simps jtree.case items_map map_of_map_values)
  ultimately show thesis using that tidy_object(2) [OF assms] by blast
qed

lemma json_abs_eq:
  "json_abs v = TString s \<longleftrightarrow> v = JString s" "json_abs v = TNumber x \<longleftrightarrow> v = JNumber x"
  by (cases v; simp)+

lemma get_string_tree [reads_tree]:
  assumes "tidy (JObject obj)"
  shows "json_object_get_string (Some obj) k = Ret (t_str (t_get (json_abs (JObject obj)) k))"
proof (rule get_value_tree [OF assms, of k])
  fix v assume "json_object_get_value (Some obj) k = Ret v"
    and "map_option json_abs v = t_get (json_abs (JObject obj)) k"
  moreover have "json_value_get_string v = t_str (map_option json_abs v)"
    by (cases v rule: json_value_get_string_desc.cases) (simp_all add: json_value_get_string_def t_str_def)
  ultimately show ?thesis by (simp add: json_object_get_string_def)
qed

lemma get_number_tree [reads_tree]:
  assumes "tidy (JObject obj)"
  shows "json_object_get_number (Some obj) k = Ret (t_num (t_get (json_abs (JObject obj)) k))"
proof (rule get_value_tree [OF assms, of k])
  fix v assume "json_object_get_value (Some obj) k = Ret v"
    and "map_option json_abs v = t_get (json_abs (JObject obj)) k"
  moreover have "json_value_get_number v = t_num (map_option json_abs v)"
    by (cases v rule: json_value_get_number.cases) (simp_all add: t_num_def)
  ultimately show ?thesis by (simp add: json_object_get_number_def)
qed

lemma array_view:
  "t_list (map_option json_abs v) = (case json_value_get_array v of None \<Rightarrow> [] | Some ja \<Rightarrow> map json_abs (elems ja))"
  "json_value_get_array v = Some ja \<Longrightarrow> v = Some (JArray ja)"
  by (cases v rule: json_value_get_array.cases; simp add: t_list_def)+

lemma object_view:
  "t_object (map_option json_abs v) = map_option (\<lambda>ob. json_abs (JObject ob)) (json_value_get_object v)"
  "json_value_get_object v = Some ob \<Longrightarrow> v = Some (JObject ob)"
  by (cases v rule: json_value_get_object.cases; simp add: t_object_def)+

lemma get_array_tree:
  assumes "tidy (JObject obj)"
  obtains a where "json_object_get_array (Some obj) k = Ret a"
    "t_list (t_get (json_abs (JObject obj)) k) = (case a of None \<Rightarrow> [] | Some ja \<Rightarrow> map json_abs (elems ja))"
    "\<And>ja. a = Some ja \<Longrightarrow> tidy (JArray ja) \<and> t_get (json_abs (JObject obj)) k = Some (json_abs (JArray ja))"
proof (rule get_value_tree [OF assms, of k])
  fix v assume v: "json_object_get_value (Some obj) k = Ret v"
    "map_option json_abs v = t_get (json_abs (JObject obj)) k" "\<And>w. v = Some w \<Longrightarrow> tidy w"
  show thesis
  proof (rule that [of "json_value_get_array v"])
    show "json_object_get_array (Some obj) k = Ret (json_value_get_array v)"
      by (simp add: json_object_get_array_def v(1))
    show "t_list (t_get (json_abs (JObject obj)) k)
        = (case json_value_get_array v of None \<Rightarrow> [] | Some ja \<Rightarrow> map json_abs (elems ja))"
      unfolding v(2) [symmetric] by (rule array_view)
    show "tidy (JArray ja) \<and> t_get (json_abs (JObject obj)) k = Some (json_abs (JArray ja))"
      if "json_value_get_array v = Some ja" for ja
      unfolding v(2) [symmetric] using array_view(2) [OF that] v(3) by (simp del: json_abs.simps)
  qed
qed

lemma get_object_tree:
  assumes "tidy (JObject obj)"
  obtains a where "json_object_get_object (Some obj) k = Ret a"
    "t_object (t_get (json_abs (JObject obj)) k) = map_option (\<lambda>ob. json_abs (JObject ob)) a"
    "\<And>ob. a = Some ob \<Longrightarrow> tidy (JObject ob) \<and> t_get (json_abs (JObject obj)) k = Some (json_abs (JObject ob))"
proof (rule get_value_tree [OF assms, of k])
  fix v assume v: "json_object_get_value (Some obj) k = Ret v"
    "map_option json_abs v = t_get (json_abs (JObject obj)) k" "\<And>w. v = Some w \<Longrightarrow> tidy w"
  show thesis
  proof (rule that [of "json_value_get_object v"])
    show "json_object_get_object (Some obj) k = Ret (json_value_get_object v)"
      by (simp add: json_object_get_object_def v(1))
    show "t_object (t_get (json_abs (JObject obj)) k)
        = map_option (\<lambda>ob. json_abs (JObject ob)) (json_value_get_object v)"
      unfolding v(2) [symmetric] by (rule object_view)
    show "tidy (JObject ob) \<and> t_get (json_abs (JObject obj)) k = Some (json_abs (JObject ob))"
      if "json_value_get_object v = Some ob" for ob
      unfolding v(2) [symmetric] using object_view(2) [OF that] v(3) by (simp del: json_abs.simps)
  qed
qed

lemma string_view: "json_value_get_string (Some w) = t_str (Some (json_abs w))"
  by (cases w) (simp_all add: json_value_get_string_def t_str_def)

section \<open>Tidy values\<close>

lemma well_formed_mono: "well_formed d v \<Longrightarrow> d \<le> d' \<Longrightarrow> well_formed d' v"
proof (induction d arbitrary: v d')
  case (Suc d)
  then obtain e where e: "d' = Suc e" "d \<le> e" by (cases d') auto
  then show ?case
    using Suc by (cases v) (auto simp: members_ok_def elems_ok_def list_all_iff)
qed simp

lemma tidy_all: "list_all tidy vs \<Longrightarrow> \<exists>d. list_all (well_formed d) vs"
proof (induction vs)
  case (Cons v vs)
  then obtain d e where "well_formed d v" "list_all (well_formed e) vs" by (auto simp: tidy_def)
  then have "list_all (well_formed (max d e)) (v # vs)"
    using well_formed_mono by (auto simp: list_all_iff)
  then show ?case by blast
qed simp

lemma tidy_object_iff:
  "tidy (JObject obj) \<longleftrightarrow> obj_ok obj \<and> list_all no_nul (names obj) \<and> list_all tidy (item_values obj)"
proof
  assume "tidy (JObject obj)"
  then obtain d where "well_formed d (JObject obj)" by (auto simp: tidy_def)
  then obtain d' where "members_ok d' obj" by (cases d) auto
  then show "obj_ok obj \<and> list_all no_nul (names obj) \<and> list_all tidy (item_values obj)"
    by (auto simp: members_ok_def tidy_def list_all_iff)
next
  assume a: "obj_ok obj \<and> list_all no_nul (names obj) \<and> list_all tidy (item_values obj)"
  then obtain d where "members_ok d obj" using tidy_all by (auto simp: members_ok_def)
  then have "well_formed (Suc d) (JObject obj)" by simp
  then show "tidy (JObject obj)" unfolding tidy_def by blast
qed

lemma tidy_array_iff: "tidy (JArray a) \<longleftrightarrow> length (elems a) \<le> capacity a \<and> list_all tidy (elems a)"
proof
  assume "tidy (JArray a)"
  then obtain d where "well_formed d (JArray a)" by (auto simp: tidy_def)
  then obtain d' where "elems_ok d' a" by (cases d) auto
  then show "length (elems a) \<le> capacity a \<and> list_all tidy (elems a)"
    by (auto simp: elems_ok_def tidy_def list_all_iff)
next
  assume a: "length (elems a) \<le> capacity a \<and> list_all tidy (elems a)"
  then obtain d where "elems_ok d a" using tidy_all by (auto simp: elems_ok_def)
  then have "well_formed (Suc d) (JArray a)" by simp
  then show "tidy (JArray a)" unfolding tidy_def by blast
qed

lemma tidy_items:
  "tidy (JObject obj) \<longleftrightarrow> obj_ok obj \<and> (\<forall>(k, v) \<in> set (items obj). no_nul k \<and> tidy v)"
proof (cases "obj_ok obj")
  case True
  have "names obj = map fst (items obj)" "item_values obj = map snd (items obj)"
    using obj_ok_fields(2) [OF True] by (simp_all add: items_def)
  then show ?thesis unfolding tidy_object_iff
    using True by (auto simp: list_all_iff)
qed (simp add: tidy_object_iff)

end
