(* ===== verification/Profile_Spec.thy ===== *)
theory Profile_Spec
  imports Json_Parser Parson_Tree
begin

text \<open>
  What the profile parser is for: a specification of \<^verbatim>\<open>parse_JSON\<close> over trees (\<open>spec_root\<close>), the
  proof that the code refines it, the JSON form of a profile (\<open>tree_of_profile\<close>) with its round
  trip, and the outcomes on arbitrary files and failing allocations.
\<close>

section \<open>Reading a tree\<close>

text \<open>
  The specification: what a profile tree says, by lookup in association lists (\<open>Parson_Tree\<close>), without
  tables, memory or pointers.
\<close>

definition t_strings :: "jtree \<Rightarrow> string \<Rightarrow> string option list" where
  "t_strings t k = map (\<lambda>x. t_str (Some x)) (t_list (t_get t k))"

definition spec_filter :: "jtree option \<Rightarrow> SeccompFilter option" where
  "spec_filter t =
     map_option (\<lambda>t. \<lparr> filter_caps = t_strings t ''caps'', filter_arches = t_strings t ''arches'',
                       filter_min_kernel = t_str (t_get t ''minKernel'') \<rparr>) (t_object t)"

definition each_object :: "(jtree \<Rightarrow> 'a proc) \<Rightarrow> jtree option \<Rightarrow> 'a list proc" where
  "each_object f t =
     pmap (\<lambda>x. case t_object (Some x) of None \<Rightarrow> cleanup EINVAL | Some ob \<Rightarrow> f ob) (t_list t)"

definition spec_arch_map :: "jtree \<Rightarrow> SeccompArchMap list proc" where
  "spec_arch_map t = each_object (\<lambda>e. Ret (Inr \<lparr> map_architecture = t_str (t_get e ''architecture''),
       map_sub_architectures = t_strings e ''subArchitectures'' \<rparr>)) (t_get t ''archMap'')"

definition spec_arg :: "jtree \<Rightarrow> SeccompArgConstraint proc" where
  "spec_arg t =
     pbind (lift (as_unsigned (t_num (t_get t ''index'')))) (\<lambda>index.
     pbind (lift (as_ull (t_num (t_get t ''value'')))) (\<lambda>value.
     pbind (lift (as_ull (t_num (t_get t ''value_two'')))) (\<lambda>value_two.
       Ret (Inr \<lparr> arg_index = index, arg_value = value, arg_value_two = value_two,
                  arg_op = t_str (t_get t ''op'') \<rparr>))))"

definition spec_rule :: "jtree \<Rightarrow> SeccompSyscallRule proc" where
  "spec_rule t =
     pbind (each_object spec_arg (t_get t ''args'')) (\<lambda>args.
       Ret (Inr \<lparr> rule_names = t_strings t ''names'', rule_action = t_str (t_get t ''action''),
                  rule_include = spec_filter (t_get t ''include''),
                  rule_exclude = spec_filter (t_get t ''exclude''), rule_args = args,
                  rule_comment = t_str (t_get t ''comment'') \<rparr>))"

definition spec_root :: "jtree \<Rightarrow> SeccompProfile proc" where
  "spec_root t =
     (if t_object (Some t) = None \<or> t_str (t_get t ''defaultAction'') = None then cleanup EINVAL
      else pbind (lift (as_int (t_num (t_get t ''defaultErrnoRet'')))) (\<lambda>errno_ret.
           pbind (spec_arch_map t) (\<lambda>arch_map.
           pbind (each_object spec_rule (t_get t ''syscalls'')) (\<lambda>syscalls.
             Ret (Inr \<lparr> profile_default_action = t_str (t_get t ''defaultAction''),
                        profile_default_errno_ret = errno_ret,
                        profile_arch_map = arch_map, profile_syscalls = syscalls \<rparr>)))))"

section \<open>The parser reads the tree\<close>

lemma dup_none [simp]: "safe_strdup mok None = None"
  by (simp add: safe_strdup_def)

lemma cstr_length: "length (cstr s) \<le> length s"
  by (simp add: cstr_def length_takeWhile_le)

lemma dup_fits:
  assumes "copies_fit mok t"
  shows "safe_strdup mok (t_str (Some t)) = t_str (Some t)"
proof (cases t)
  case (TString s)
  have "mok (Suc (length (cstr s)))" using assms cstr_length [of s] by (simp add: copies_fit_def TString)
  then show ?thesis by (simp add: safe_strdup_def t_str_def TString)
qed (simp_all add: safe_strdup_def t_str_def)

lemma dup_get_fits [reads_tree]:
  assumes "copies_fit mok t"
  shows "safe_strdup mok (t_str (t_get t k)) = t_str (t_get t k)"
proof (cases "t_get t k")
  case None
  then show ?thesis by (simp add: t_str_def)
next
  case (Some u)
  then show ?thesis using dup_fits copies_fit_get [OF assms] by simp
qed

lemma dup_strings_tree:
  assumes "a \<noteq> None \<Longrightarrow> copies_fit mok (json_abs (JArray (the a)))"
  shows "dup_strings mok a
           = map (\<lambda>x. t_str (Some x)) (case a of None \<Rightarrow> [] | Some ja \<Rightarrow> map json_abs (elems ja))"
proof (cases a)
  case None
  then show ?thesis by (simp add: dup_strings_def json_array_get_count_def)
next
  case (Some ja)
  have "safe_strdup mok (json_array_get_string a i) = t_str (Some (json_abs (elems ja ! i)))"
    if i: "i < length (elems ja)" for i
  proof -
    have "json_array_get_string a i = t_str (Some (json_abs (elems ja ! i)))"
      using i by (simp add: json_array_get_string_def json_array_get_value_def json_array_get_count_def Some
          string_view)
    moreover have "copies_fit mok (json_abs (elems ja ! i))"
      using assms Some i by (auto intro: copies_fit_elem [of mok "map json_abs (elems ja)"])
    ultimately show ?thesis using dup_fits by simp
  qed
  then show ?thesis
    by (intro nth_equalityI) (simp_all add: dup_strings_def json_array_get_count_def Some)
qed

text \<open>A string array under a key, with the allocation test of the callers.\<close>

lemma strings_tree:
  assumes "tidy (JObject obj)" and "copies_fit mok (json_abs (JObject obj))" and "s \<le> 64"
  obtains a where "json_object_get_array (Some obj) k = Ret a"
    "dup_strings mok a = t_strings (json_abs (JObject obj)) k" "mok (json_array_get_count a * s)"
    "a = None \<or> json_array_get_count a = 0 \<Longrightarrow> t_strings (json_abs (JObject obj)) k = []"
proof (rule get_array_tree [OF assms(1), of k])
  fix a assume a: "json_object_get_array (Some obj) k = Ret a"
    "t_list (t_get (json_abs (JObject obj)) k) = (case a of None \<Rightarrow> [] | Some ja \<Rightarrow> map json_abs (elems ja))"
    "\<And>ja. a = Some ja \<Longrightarrow> tidy (JArray ja) \<and> t_get (json_abs (JObject obj)) k = Some (json_abs (JArray ja))"
  have fits: "copies_fit mok (json_abs (JArray ja))" if "a = Some ja" for ja
    using copies_fit_get [OF assms(2)] a(3) [OF that] by blast
  have count: "json_array_get_count a * s \<le> 64 * (case a of None \<Rightarrow> 0 | Some ja \<Rightarrow> tree_size (json_abs (JArray ja)))"
  proof (cases a)
    case (Some ja)
    have "length (elems ja) * s \<le> tree_size (json_abs (JArray ja)) * 64"
      using tree_size_length [of "map json_abs (elems ja)"] assms(3) by (intro mult_le_mono) simp_all
    then show ?thesis by (simp add: Some json_array_get_count_def mult.commute del: json_abs.simps)
  qed (simp add: json_array_get_count_def)
  have "mok (json_array_get_count a * s)"
  proof (cases a)
    case None
    then show ?thesis using assms(2) by (simp add: json_array_get_count_def copies_fit_def)
  next
    case (Some ja)
    then show ?thesis using fits [OF Some] count by (simp add: copies_fit_def)
  qed
  moreover have "dup_strings mok a = t_strings (json_abs (JObject obj)) k"
    using dup_strings_tree [of a mok] fits a(2) by (cases a) (simp_all add: t_strings_def)
  ultimately show thesis
    using a by (intro that [of a]) (auto simp: t_strings_def json_array_get_count_def split: option.splits)
qed


section \<open>Refinement\<close>

lemma each_object_tree:
  assumes F: "\<And>ob. tidy (JObject ob) \<Longrightarrow> copies_fit mok (json_abs (JObject ob)) \<Longrightarrow>
      g ob = f (json_abs (JObject ob))"
    and a: "a \<noteq> None \<Longrightarrow> tidy (JArray (the a)) \<and> copies_fit mok (json_abs (JArray (the a)))"
  shows "each_element g a
         = pmap (\<lambda>x. case t_object (Some x) of None \<Rightarrow> cleanup EINVAL | Some ob \<Rightarrow> f ob)
             (case a of None \<Rightarrow> [] | Some ja \<Rightarrow> map json_abs (elems ja))"
proof (cases a)
  case None
  then show ?thesis by (simp add: each_element_def json_array_get_count_def)
next
  case (Some ja)
  have pm: "pmap p xs = pmap q ys" if "length xs = length ys" "\<And>i. i < length xs \<Longrightarrow> p (xs ! i) = q (ys ! i)"
    for p :: "'x \<Rightarrow> 'b proc" and q :: "'y \<Rightarrow> 'b proc" and xs ys
    using that
  proof (induction xs arbitrary: ys)
    case (Cons x xs)
    then obtain y ys' where "ys = y # ys'" by (cases ys) auto
    then show ?case using Cons.IH [of ys'] Cons.prems(1) Cons.prems(2) [of 0] Cons.prems(2) [of "Suc _"] by simp
  qed simp
  have t: "tidy (JArray ja)" "copies_fit mok (json_abs (JArray ja))" using a Some by auto
  have "(case json_array_get_object a i of None \<Rightarrow> cleanup EINVAL | Some ob \<Rightarrow> g ob)
      = (case t_object (Some (json_abs (elems ja ! i))) of None \<Rightarrow> cleanup EINVAL | Some ob \<Rightarrow> f ob)"
    if i: "i < length (elems ja)" for i
  proof -
    have v: "json_array_get_value a i = Some (elems ja ! i)"
      using i by (simp add: json_array_get_value_def json_array_get_count_def Some)
    have tidy: "tidy (elems ja ! i)" using tidy_array [OF t(1)] i by simp
    have "copies_fit mok (json_abs (elems ja ! i))"
      using t(2) i by (auto intro: copies_fit_elem [of mok "map json_abs (elems ja)"])
    then show ?thesis
      using object_view(1) [of "Some (elems ja ! i)"] object_view(2) [of "Some (elems ja ! i)"] F tidy
      by (cases "json_value_get_object (Some (elems ja ! i))")
        (auto simp: json_array_get_object_def v simp del: json_abs.simps)
  qed
  then show ?thesis unfolding Some option.case each_element_def
    by (intro pm) (simp_all add: json_array_get_count_def)
qed

lemma array_under_key:
  assumes "tidy (JObject obj)" and "copies_fit mok (json_abs (JObject obj))"
    and F: "\<And>ob. tidy (JObject ob) \<Longrightarrow> copies_fit mok (json_abs (JObject ob)) \<Longrightarrow>
      g ob = f (json_abs (JObject ob))"
  obtains a where "json_object_get_array (Some obj) k = Ret a" "s \<le> 64 \<Longrightarrow> mok (json_array_get_count a * s)"
    "each_element g a = each_object f (t_get (json_abs (JObject obj)) k)"
proof (rule get_array_tree [OF assms(1), of k])
  fix a assume a: "json_object_get_array (Some obj) k = Ret a"
    "t_list (t_get (json_abs (JObject obj)) k) = (case a of None \<Rightarrow> [] | Some ja \<Rightarrow> map json_abs (elems ja))"
    "\<And>ja. a = Some ja \<Longrightarrow> tidy (JArray ja) \<and> t_get (json_abs (JObject obj)) k = Some (json_abs (JArray ja))"
  have "copies_fit mok (json_abs (JArray ja))" if "a = Some ja" for ja
    using copies_fit_get [OF assms(2)] a(3) [OF that] by blast
  then have "a \<noteq> None \<Longrightarrow> tidy (JArray (the a)) \<and> copies_fit mok (json_abs (JArray (the a)))"
    using a(3) by auto
  then have "each_element g a = each_object f (t_get (json_abs (JObject obj)) k)"
    unfolding each_object_def a(2) by (intro each_object_tree [where mok = mok] F) auto
  moreover have "mok (json_array_get_count a * s)" if s: "s \<le> 64"
  proof -
    obtain a' where "json_object_get_array (Some obj) k = Ret a'" "mok (json_array_get_count a' * s)"
      by (rule strings_tree [OF assms(1,2) s])
    then show ?thesis using a(1) by simp
  qed
  ultimately show thesis using that a(1) by blast
qed


lemma filter_tree:
  assumes "\<And>ob. t = Some ob \<Longrightarrow> tidy (JObject ob) \<and> copies_fit mok (json_abs (JObject ob))"
  shows "parse_filter mok t = Ret (spec_filter (map_option (\<lambda>ob. json_abs (JObject ob)) t))"
proof (cases t)
  case None
  then show ?thesis by (simp add: parse_filter_def spec_filter_def t_object_def)
next
  case (Some ob)
  have ob: "tidy (JObject ob)" "copies_fit mok (json_abs (JObject ob))" using assms [OF Some] by auto
  have strings: "filter_strings mok (Some ob) k = Ret (Some (t_strings (json_abs (JObject ob)) k))" for k
  proof -
    obtain a where a: "json_object_get_array (Some ob) k = Ret a"
      "dup_strings mok a = t_strings (json_abs (JObject ob)) k" "mok (json_array_get_count a * 8)"
      "a = None \<or> json_array_get_count a = 0 \<Longrightarrow> t_strings (json_abs (JObject ob)) k = []"
      by (rule strings_tree [OF ob, of 8 k]) auto
    then show ?thesis by (auto simp: filter_strings_def simp del: json_abs.simps)
  qed
  have "mok 40" using ob(2) by (simp add: copies_fit_def)
  then show ?thesis
    using get_string_tree [OF ob(1)] dup_get_fits [OF ob(2)]
    by (simp add: parse_filter_def Some strings spec_filter_def t_object_def del: json_abs.simps)
      (simp add: t_get_def)
qed

lemma arch_entry_tree:
  assumes "tidy (JObject ob)" and "copies_fit mok (json_abs (JObject ob))"
  shows "parse_arch_entry mok ob = Ret (Inr \<lparr> map_architecture = t_str (t_get (json_abs (JObject ob)) ''architecture''),
       map_sub_architectures = t_strings (json_abs (JObject ob)) ''subArchitectures'' \<rparr>)"
proof -
  obtain a where "json_object_get_array (Some ob) ''subArchitectures'' = Ret a"
      "dup_strings mok a = t_strings (json_abs (JObject ob)) ''subArchitectures''" "mok (json_array_get_count a * 8)"
    by (rule strings_tree [OF assms, of 8 "''subArchitectures''"]) auto
  then show ?thesis using get_string_tree [OF assms(1)] dup_get_fits [OF assms(2)]
    by (simp add: parse_arch_entry_def Let_def del: json_abs.simps)
qed

lemma arg_tree:
  assumes "tidy (JObject ob)" and "copies_fit mok (json_abs (JObject ob))"
  shows "parse_arg mok ob = spec_arg (json_abs (JObject ob))"
  using get_string_tree [OF assms(1)] get_number_tree [OF assms(1)] dup_get_fits [OF assms(2)]
  by (simp add: parse_arg_def spec_arg_def del: json_abs.simps)

lemma rule_tree:
  assumes "tidy (JObject ob)" and "copies_fit mok (json_abs (JObject ob))"
  shows "parse_rule mok ob = spec_rule (json_abs (JObject ob))"
proof -
  let ?t = "json_abs (JObject ob)"
  have filters: "obind (json_object_get_object (Some ob) k) (parse_filter mok) = Ret (spec_filter (t_get ?t k))" for k
  proof -
    obtain a where a: "json_object_get_object (Some ob) k = Ret a"
      "t_object (t_get ?t k) = map_option (\<lambda>ob. json_abs (JObject ob)) a"
      "\<And>o2. a = Some o2 \<Longrightarrow> tidy (JObject o2) \<and> t_get ?t k = Some (json_abs (JObject o2))"
      by (rule get_object_tree [OF assms(1), of k]) (rule that)
    have "tidy (JObject o2) \<and> copies_fit mok (json_abs (JObject o2))" if "a = Some o2" for o2
      using a(3) [OF that] copies_fit_get [OF assms(2)] by blast
    then have "parse_filter mok a = Ret (spec_filter (map_option (\<lambda>ob. json_abs (JObject ob)) a))"
      by (rule filter_tree)
    moreover have "t_object (t_object x) = t_object x" for x
      by (auto simp: t_object_def split: option.splits jtree.splits)
    then have "spec_filter (t_object (t_get ?t k)) = spec_filter (t_get ?t k)" by (simp add: spec_filter_def)
    ultimately show ?thesis by (simp add: a(1) a(2) [symmetric] del: json_abs.simps)
  qed
  obtain a where a: "json_object_get_array (Some ob) ''names'' = Ret a"
      "dup_strings mok a = t_strings ?t ''names''" "mok (json_array_get_count a * 8)"
    by (rule strings_tree [OF assms, of 8 "''names''"]) auto
  obtain b where b: "json_object_get_array (Some ob) ''args'' = Ret b" "mok (json_array_get_count b * 32)"
      "each_element (parse_arg mok) b = each_object spec_arg (t_get ?t ''args'')"
    by (rule array_under_key [where mok = mok and obj = ob and g = "parse_arg mok" and f = spec_arg
          and k = "''args''" and s = 32, OF assms arg_tree]) auto
  have "parse_names mok ob = Ret (Inr (t_strings ?t ''names''))"
    using a by (simp add: parse_names_def Let_def del: json_abs.simps)
  moreover have "parse_args mok ob = each_object spec_arg (t_get ?t ''args'')"
    using b by (simp add: parse_args_def Let_def del: json_abs.simps)
  ultimately show ?thesis
    using get_string_tree [OF assms(1)] dup_get_fits [OF assms(2)]
    by (simp add: parse_rule_def spec_rule_def filters del: json_abs.simps)
qed


lemma root_tree:
  assumes "tidy v" and "copies_fit mok (json_abs v)"
  shows "parse_root mok (Some v) = spec_root (json_abs v)"
proof (cases "json_value_get_object (Some v)")
  case None
  then show ?thesis using object_view(1) [of "Some v"] by (simp add: parse_root_def spec_root_def)
next
  case (Some ob)
  then have v: "v = JObject ob" using object_view(2) by blast
  let ?t = "json_abs (JObject ob)"
  have ob: "tidy (JObject ob)" "copies_fit mok ?t" using assms v by auto
  obtain a where a: "json_object_get_array (Some ob) ''archMap'' = Ret a" "mok (json_array_get_count a * 24)"
      "each_element (parse_arch_entry mok) a = spec_arch_map ?t"
    unfolding spec_arch_map_def
    by (rule array_under_key [where mok = mok and obj = ob and g = "parse_arch_entry mok"
          and f = "\<lambda>e. Ret (Inr \<lparr> map_architecture = t_str (t_get e ''architecture''),
                map_sub_architectures = t_strings e ''subArchitectures'' \<rparr>)"
          and k = "''archMap''" and s = 24, OF ob arch_entry_tree]) auto
  obtain b where b: "json_object_get_array (Some ob) ''syscalls'' = Ret b" "mok (json_array_get_count b * 64)"
      "each_element (parse_rule mok) b = each_object spec_rule (t_get ?t ''syscalls'')"
    by (rule array_under_key [where mok = mok and obj = ob and g = "parse_rule mok" and f = spec_rule
          and k = "''syscalls''" and s = 64, OF ob rule_tree]) auto
  have "parse_arch_map mok ob = spec_arch_map ?t"
    using a by (simp add: parse_arch_map_def Let_def del: json_abs.simps)
  moreover have "parse_syscalls mok ob = each_object spec_rule (t_get ?t ''syscalls'')"
    using b by (simp add: parse_syscalls_def Let_def del: json_abs.simps)
  moreover have "t_object (Some ?t) = Some ?t" by (simp add: t_object_def)
  ultimately show ?thesis
    using get_string_tree [OF ob(1)] get_number_tree [OF ob(1)] dup_get_fits [OF ob(2)]
    unfolding v by (simp add: parse_root_def parse_root_object_def spec_root_def del: json_abs.simps)
qed

section \<open>Writing a profile\<close>

text \<open>
  The JSON form of a profile, for the round trip: keys as the parser looks them up, members
  left out where a pointer is \<^verbatim>\<open>NULL\<close>.
\<close>

fun json_of :: "jtree \<Rightarrow> json" where
  "json_of (TObject kvs) = JObject (JSON_Object [] [] (map fst kvs) (map (\<lambda>kv. json_of (snd kv)) kvs) [] 0 0)"
| "json_of (TArray ts) = JArray (JSON_Array (map json_of ts) 0)"
| "json_of (TString s) = JString s"
| "json_of (TNumber x) = JNumber x"
| "json_of (TBoolean b) = JBoolean b"
| "json_of TNull = JNull"

lemma json_abs_json_of [simp]: "json_abs (json_of t) = t"
proof (induction t rule: json_of.induct)
  case (1 kvs)
  have "map (\<lambda>kv. json_abs (json_of (snd kv))) kvs = map snd kvs"
    using 1 by (intro map_cong refl) auto
  then have "zip (map fst kvs) (map (\<lambda>kv. json_abs (json_of (snd kv))) kvs) = kvs"
    by (simp only: zip_map_fst_snd)
  then show ?case by (simp add: items_def comp_def)
next
  case (2 ts)
  then show ?case by (simp add: map_idI)
qed simp_all

definition opt_member :: "string \<Rightarrow> string option \<Rightarrow> (string \<times> jtree) list" where
  "opt_member k s = (case s of None \<Rightarrow> [] | Some s \<Rightarrow> [(k, TString s)])"

definition tree_of_string :: "string option \<Rightarrow> jtree" where
  "tree_of_string s = (case s of None \<Rightarrow> TNull | Some s \<Rightarrow> TString s)"

definition tree_of_strings :: "string option list \<Rightarrow> jtree" where
  "tree_of_strings xs = TArray (map tree_of_string xs)"

definition tree_of_filter :: "SeccompFilter \<Rightarrow> jtree" where
  "tree_of_filter f = TObject ([(''caps'', tree_of_strings (filter_caps f)),
     (''arches'', tree_of_strings (filter_arches f))] @ opt_member ''minKernel'' (filter_min_kernel f))"

definition filter_member :: "string \<Rightarrow> SeccompFilter option \<Rightarrow> (string \<times> jtree) list" where
  "filter_member k f = (case f of None \<Rightarrow> [] | Some f \<Rightarrow> [(k, tree_of_filter f)])"

definition tree_of_arg :: "SeccompArgConstraint \<Rightarrow> jtree" where
  "tree_of_arg a = TObject ([(''index'', TNumber (f64_of_nat (unat (arg_index a)))),
     (''value'', TNumber (f64_of_nat (unat (arg_value a)))),
     (''value_two'', TNumber (f64_of_nat (unat (arg_value_two a))))] @ opt_member ''op'' (arg_op a))"

definition tree_of_rule :: "SeccompSyscallRule \<Rightarrow> jtree" where
  "tree_of_rule r = TObject ([(''names'', tree_of_strings (rule_names r))]
     @ opt_member ''action'' (rule_action r) @ filter_member ''include'' (rule_include r)
     @ filter_member ''exclude'' (rule_exclude r)
     @ [(''args'', TArray (map tree_of_arg (rule_args r)))] @ opt_member ''comment'' (rule_comment r))"

definition tree_of_arch :: "SeccompArchMap \<Rightarrow> jtree" where
  "tree_of_arch m = TObject (opt_member ''architecture'' (map_architecture m)
     @ [(''subArchitectures'', tree_of_strings (map_sub_architectures m))])"

definition tree_of_profile :: "SeccompProfile \<Rightarrow> jtree" where
  "tree_of_profile p = TObject (opt_member ''defaultAction'' (profile_default_action p)
     @ [(''defaultErrnoRet'', TNumber (f64_of_int (profile_default_errno_ret p))),
        (''archMap'', TArray (map tree_of_arch (profile_arch_map p))),
        (''syscalls'', TArray (map tree_of_rule (profile_syscalls p)))])"


text \<open>Profiles that JSON can carry: NUL-free strings and argument values below \<open>2^53\<close>.\<close>

definition opt_ok :: "string option \<Rightarrow> bool" where
  "opt_ok s = (case s of None \<Rightarrow> True | Some s \<Rightarrow> no_nul s)"

definition filter_ok :: "SeccompFilter option \<Rightarrow> bool" where
  "filter_ok f = (case f of None \<Rightarrow> True
     | Some f \<Rightarrow> list_all opt_ok (filter_caps f) \<and> list_all opt_ok (filter_arches f)
                  \<and> opt_ok (filter_min_kernel f))"

definition arg_ok :: "SeccompArgConstraint \<Rightarrow> bool" where
  "arg_ok a = (unat (arg_value a) < 2 ^ 53 \<and> unat (arg_value_two a) < 2 ^ 53 \<and> opt_ok (arg_op a))"

definition rule_ok :: "SeccompSyscallRule \<Rightarrow> bool" where
  "rule_ok r = (list_all opt_ok (rule_names r) \<and> opt_ok (rule_action r) \<and> filter_ok (rule_include r)
     \<and> filter_ok (rule_exclude r) \<and> list_all arg_ok (rule_args r) \<and> opt_ok (rule_comment r))"

definition profile_ok :: "SeccompProfile \<Rightarrow> bool" where
  "profile_ok p = (profile_default_action p \<noteq> None \<and> opt_ok (profile_default_action p)
     \<and> - (2 ^ 31) \<le> profile_default_errno_ret p \<and> profile_default_errno_ret p < 2 ^ 31
     \<and> list_all (\<lambda>m. opt_ok (map_architecture m) \<and> list_all opt_ok (map_sub_architectures m))
         (profile_arch_map p)
     \<and> list_all rule_ok (profile_syscalls p))"

lemma pmap_all: "(\<And>x. x \<in> set xs \<Longrightarrow> f x = Ret (Inr (g x))) \<Longrightarrow> pmap f xs = Ret (Inr (map g xs))"
  by (induction xs) auto

lemma t_str_simps [simp]:
  "t_str None = None" "t_str (Some (TString s)) = Some (cstr s)" "t_str (Some TNull) = None"
  "t_str (Some (TObject kvs)) = None" "t_str (Some (TArray ts)) = None" "t_str (Some (TNumber x)) = None"
  by (simp_all add: t_str_def)

lemma t_views [simp]:
  "t_num (Some (TNumber x)) = x" "t_list (Some (TArray ts)) = ts" "t_list None = []"
  "t_object (Some (TObject kvs)) = Some (TObject kvs)" "t_object None = None"
  "t_get (TObject kvs) k = map_of kvs k"
  by (simp_all add: t_num_def t_list_def t_object_def t_get_def)

lemma read_string [simp]: "opt_ok s \<Longrightarrow> t_str (Some (tree_of_string s)) = s"
  by (cases s) (simp_all add: tree_of_string_def opt_ok_def)

lemma read_member [simp]:
  "t_str (map_of (opt_member k s @ kvs) k') = (if k' = k \<and> s \<noteq> None then map_option cstr s else t_str (map_of kvs k'))"
  by (cases s) (simp_all add: opt_member_def)

lemma read_member_other [simp]: "k' \<noteq> k \<Longrightarrow> map_of (opt_member k s @ kvs) k' = map_of kvs k'"
  by (cases s) (simp_all add: opt_member_def)

lemma read_strings: "list_all opt_ok xs \<Longrightarrow> map (\<lambda>x. t_str (Some x)) (t_list (Some (tree_of_strings xs))) = xs"
  by (simp add: tree_of_strings_def list_all_iff map_idI)

lemma opt_cstr: "opt_ok s \<Longrightarrow> map_option cstr s = s"
  by (cases s) (simp_all add: opt_ok_def)

lemma read_filter_member [simp]:
  "k' \<noteq> k \<Longrightarrow> map_of (filter_member k f @ kvs) k' = map_of kvs k'"
  "map_of kvs k = None \<Longrightarrow> map_of (filter_member k f @ kvs) k = map_option tree_of_filter f"
  by (cases f; simp add: filter_member_def)+

lemma map_of_opt_member_alone [simp]:
  "map_of (opt_member k s) k' = (if k' = k then map_option TString s else None)"
  by (cases s) (simp_all add: opt_member_def)

lemma t_str_TString [simp]: "t_str (map_option TString s) = map_option cstr s"
  by (cases s) simp_all

lemma read_filter:
  assumes "filter_ok f"
  shows "spec_filter (map_option tree_of_filter f) = f"
proof (cases f)
  case None
  then show ?thesis by (simp add: spec_filter_def)
next
  case (Some g)
  then show ?thesis
    using assms read_strings [of "filter_caps g"] read_strings [of "filter_arches g"]
    by (simp add: spec_filter_def tree_of_filter_def filter_ok_def t_strings_def opt_cstr)
qed

lemma word_reads:
  "unat w < 2 ^ 53 \<Longrightarrow> as_ull (f64_of_nat (unat w)) = Ret w"
  "as_unsigned (f64_of_nat (unat u)) = Ret u"
proof -
  show "as_ull (f64_of_nat (unat w)) = Ret w" if "unat w < 2 ^ 53"
    using casts_exact(1) [OF that] by (simp add: as_ull_def)
  have u: "unat u < 2 ^ 32" using unsigned_less [of u] by simp
  then have "unat u < 2 ^ 53" by simp
  then show "as_unsigned (f64_of_nat (unat u)) = Ret u"
    using casts_exact(2) [of "unat u"] u by (simp add: as_unsigned_def)
qed

lemma int_reads:
  assumes "- (2 ^ 31) \<le> k" and "k < 2 ^ 31"
  shows "as_int (f64_of_int k) = Ret k"
proof -
  have "nat \<bar>k\<bar> < 2 ^ 53" using assms by (simp add: nat_less_iff abs_less_iff)
  then have "f64_trunc (f64_of_int k) = Some k"
    using f64_trunc_int [of "nat \<bar>k\<bar>" "k < 0"] by (auto simp: f64_of_int_def)
  then show ?thesis using assms by (simp add: as_int_def cast_int_def cast_in_def)
qed

lemma read_arg: "arg_ok a \<Longrightarrow> spec_arg (tree_of_arg a) = Ret (Inr a)"
  using word_reads by (simp add: spec_arg_def tree_of_arg_def arg_ok_def opt_cstr)

lemma read_rule:
  assumes "rule_ok r"
  shows "spec_rule (tree_of_rule r) = Ret (Inr r)"
proof -
  have args: "each_object spec_arg (Some (TArray (map tree_of_arg (rule_args r)))) = Ret (Inr (rule_args r))"
  proof -
    have "pmap (\<lambda>x. case t_object (Some x) of None \<Rightarrow> cleanup EINVAL | Some ob \<Rightarrow> spec_arg ob) (map tree_of_arg xs)
        = Ret (Inr xs)" if "list_all arg_ok xs" for xs
      using that
    proof (induction xs)
      case (Cons x xs)
      then show ?case using read_arg [of x] by (simp add: tree_of_arg_def)
    qed simp
    then show ?thesis using assms by (simp add: each_object_def rule_ok_def)
  qed
  have inc: "spec_filter (case f of None \<Rightarrow> None | Some f \<Rightarrow> Some (tree_of_filter f)) = f" if "filter_ok f" for f
    using read_filter [OF that] by (simp add: map_option_case)
  have none: "map_of (filter_member ''exclude'' f @ (''args'', x) # opt_member ''comment'' c) ''include'' = None"
    for f x c by (cases f; simp add: filter_member_def)
  let ?t = "tree_of_rule r"
  have filters: "t_get ?t ''include'' = map_option tree_of_filter (rule_include r)"
    "t_get ?t ''exclude'' = map_option tree_of_filter (rule_exclude r)"
    by (simp_all add: tree_of_rule_def none del: map_of_append)
  have names: "t_strings ?t ''names'' = rule_names r"
    using assms read_strings [of "rule_names r"] by (simp add: tree_of_rule_def t_strings_def rule_ok_def)
  have strings: "t_str (t_get ?t ''action'') = rule_action r" "t_str (t_get ?t ''comment'') = rule_comment r"
    using assms by (auto simp: tree_of_rule_def rule_ok_def opt_cstr simp del: map_of_append)
  have "t_get ?t ''args'' = Some (TArray (map tree_of_arg (rule_args r)))"
    by (simp add: tree_of_rule_def del: map_of_append)
  then show ?thesis
    using assms args read_filter [of "rule_include r"] read_filter [of "rule_exclude r"]
    by (simp add: spec_rule_def filters names strings rule_ok_def)
qed

lemma each_read:
  assumes "\<And>x. x \<in> set xs \<Longrightarrow> (\<exists>kvs. h x = TObject kvs) \<and> f (h x) = Ret (Inr x)"
  shows "each_object f (Some (TArray (map h xs))) = Ret (Inr xs)"
proof -
  have "pmap (\<lambda>x. case t_object (Some x) of None \<Rightarrow> cleanup EINVAL | Some ob \<Rightarrow> f ob) (map h xs) = Ret (Inr xs)"
    using assms
  proof (induction xs)
    case (Cons x xs)
    then obtain kvs where "h x = TObject kvs" by auto
    then show ?case using Cons by (metis (no_types, lifting) list.map(2) list.set_intros pbind_Ret(1) pmap.simps(2)
          option.case(2) t_views(4))
  qed simp
  then show ?thesis by (simp add: each_object_def)
qed

lemma read_arch:
  assumes "opt_ok (map_architecture m) \<and> list_all opt_ok (map_sub_architectures m)"
  shows "\<lparr> map_architecture = t_str (t_get (tree_of_arch m) ''architecture''),
           map_sub_architectures = t_strings (tree_of_arch m) ''subArchitectures'' \<rparr> = m"
  using assms read_strings [of "map_sub_architectures m"]
  by (simp add: tree_of_arch_def t_strings_def opt_cstr del: map_of_append)

lemma read_profile:
  assumes "profile_ok p"
  shows "spec_root (tree_of_profile p) = Ret (Inr p)"
proof -
  have arch: "spec_arch_map (tree_of_profile p) = Ret (Inr (profile_arch_map p))"
  proof -
    have g: "t_get (tree_of_profile p) ''archMap'' = Some (TArray (map tree_of_arch (profile_arch_map p)))"
      by (simp add: tree_of_profile_def del: map_of_append)
    show ?thesis unfolding spec_arch_map_def g
    proof (rule each_read)
      fix m assume "m \<in> set (profile_arch_map p)"
      then have "opt_ok (map_architecture m) \<and> list_all opt_ok (map_sub_architectures m)"
        using assms by (simp add: profile_ok_def list_all_iff)
      then show "(\<exists>kvs. tree_of_arch m = TObject kvs) \<and>
          Ret (Inr \<lparr> map_architecture = t_str (t_get (tree_of_arch m) ''architecture''),
           map_sub_architectures = t_strings (tree_of_arch m) ''subArchitectures'' \<rparr>) = Ret (Inr m)"
        using read_arch by (simp add: tree_of_arch_def del: map_of_append)
    qed
  qed
  have calls: "each_object spec_rule (t_get (tree_of_profile p) ''syscalls'') = Ret (Inr (profile_syscalls p))"
  proof -
    have g: "t_get (tree_of_profile p) ''syscalls'' = Some (TArray (map tree_of_rule (profile_syscalls p)))"
      by (simp add: tree_of_profile_def del: map_of_append)
    show ?thesis unfolding g
    proof (rule each_read)
      fix r assume "r \<in> set (profile_syscalls p)"
      then have "rule_ok r" using assms by (simp add: profile_ok_def list_all_iff)
      then show "(\<exists>kvs. tree_of_rule r = TObject kvs) \<and> spec_rule (tree_of_rule r) = Ret (Inr r)"
        using read_rule by (simp add: tree_of_rule_def)
    qed
  qed
  have errno: "t_get (tree_of_profile p) ''defaultErrnoRet'' = Some (TNumber (f64_of_int (profile_default_errno_ret p)))"
    by (simp add: tree_of_profile_def del: map_of_append)
  obtain a where a: "profile_default_action p = Some a" "no_nul a"
    using assms by (auto simp: profile_ok_def opt_ok_def split: option.splits)
  have action: "t_str (t_get (tree_of_profile p) ''defaultAction'') = Some a"
    using a by (simp add: tree_of_profile_def opt_member_def)
  have "t_object (Some (tree_of_profile p)) \<noteq> None" by (simp add: tree_of_profile_def)
  then show ?thesis
    using assms arch calls action a(1) int_reads [of "profile_default_errno_ret p"]
    by (simp add: spec_root_def errno profile_ok_def)
qed

section \<open>Printing a profile\<close>

lemma printable_mono: "printable d v \<Longrightarrow> d \<le> e \<Longrightarrow> printable e v"
proof (induction d arbitrary: e v)
  case (Suc d)
  then obtain e' where e: "e = Suc e'" "d \<le> e'" by (cases e) auto
  then have "list_all (printable d) xs \<Longrightarrow> list_all (printable e') xs" for xs
    using Suc.IH by (auto simp: list_all_iff)
  then show ?case using Suc.prems(1) e(1) by (cases v) auto
qed simp

lemma tree_text_parses:
  assumes "printable d (json_of t)" and "d \<le> Suc MAX_NESTING"
    and "serves mok (24 * length s + 128)" and "s = json_serialize_r esc pretty 0 (json_of t)"
  obtains v where "json_parse_string mok s = Ret (Some v)" "json_abs v = t"
proof -
  have "printable (Suc MAX_NESTING) (json_of t)" using assms(1,2) by (rule printable_mono)
  moreover have "ends_number []" by (simp add: ends_number_def)
  ultimately obtain v where "json_parse_string mok (s @ []) = Ret (Some v)" "json_abs v = json_abs (json_of t)"
    using parse_serialized [where mok = mok and r = "[]" and esc = esc and pretty = pretty] assms(3,4) by blast
  then show thesis by (intro that [of v]) (simp_all only: append_Nil2 json_abs_json_of)
qed

lemma word_double: "is_double (f64_of_nat (unat (w :: 64 word)))"
  using unsigned_less [of w, where 'a = nat] by (intro f64_of_nat_double) simp

lemma printable_string: "printable (Suc d) (json_of (tree_of_string s))"
  by (cases s) (simp_all add: tree_of_string_def)

lemma printable_strings: "printable (Suc (Suc d)) (json_of (tree_of_strings xs))"
  by (simp add: tree_of_strings_def list_all_iff printable_string)

lemma printable_object:
  assumes "distinct (map fst kvs)" and "list_all (\<lambda>kv. no_nul (fst kv) \<and> printable d (json_of (snd kv))) kvs"
  shows "printable (Suc d) (json_of (TObject kvs))"
  using assms by (auto simp: list_all_iff)

lemma opt_member_printable:
  "no_nul k \<Longrightarrow> list_all (\<lambda>kv. no_nul (fst kv) \<and> printable (Suc d) (json_of (snd kv))) (opt_member k s)"
  "set (map fst (opt_member k s)) \<subseteq> {k}" "distinct (map fst (opt_member k s))"
  by (cases s; simp add: opt_member_def)+

lemma printable_filter: "printable (Suc (Suc (Suc d))) (json_of (tree_of_filter f))"
  unfolding tree_of_filter_def
  using opt_member_printable(1) [of "''minKernel''" "Suc d" "filter_min_kernel f"] printable_strings
    opt_member_printable(2,3) [of "''minKernel''" "filter_min_kernel f"]
  by (intro printable_object) auto

lemma filter_member_printable:
  "no_nul k \<Longrightarrow> list_all (\<lambda>kv. no_nul (fst kv) \<and> printable (Suc (Suc (Suc d))) (json_of (snd kv))) (filter_member k f)"
  "set (map fst (filter_member k f)) \<subseteq> {k}" "distinct (map fst (filter_member k f))"
  by (cases f; simp add: filter_member_def printable_filter del: json_of.simps)+

lemma printable_arg: "arg_ok a \<Longrightarrow> printable (Suc (Suc d)) (json_of (tree_of_arg a))"
proof -
  assume "arg_ok a"
  moreover have "is_double (f64_of_nat (unat (arg_index a)))"
    using unsigned_less [of "arg_index a", where 'a = nat] by (intro f64_of_nat_double) simp
  ultimately show ?thesis
    unfolding tree_of_arg_def
    using opt_member_printable(1) [of "''op''" d "arg_op a"] word_double
      opt_member_printable(2,3) [of "''op''" "arg_op a"]
    by (intro printable_object) (auto simp: arg_ok_def)
qed

lemma printable_list: "list_all (\<lambda>x. printable d (json_of (h x))) xs \<Longrightarrow> printable (Suc d) (json_of (TArray (map h xs)))"
  by (simp add: list_all_iff)

lemma printable_rule:
  assumes "rule_ok r"
  shows "printable (Suc (Suc (Suc (Suc d)))) (json_of (tree_of_rule r))"
  unfolding tree_of_rule_def
proof (rule printable_object)
  show "distinct (map fst ([(''names'', tree_of_strings (rule_names r))]
     @ opt_member ''action'' (rule_action r) @ filter_member ''include'' (rule_include r)
     @ filter_member ''exclude'' (rule_exclude r)
     @ [(''args'', TArray (map tree_of_arg (rule_args r)))] @ opt_member ''comment'' (rule_comment r)))"
    by (cases "rule_action r"; cases "rule_include r"; cases "rule_exclude r"; cases "rule_comment r";
        simp add: opt_member_def filter_member_def)
  have "list_all (\<lambda>x. printable (Suc (Suc d)) (json_of (tree_of_arg x))) (rule_args r)"
    using assms printable_arg by (auto simp: rule_ok_def list_all_iff)
  then have "printable (Suc (Suc (Suc d))) (json_of (TArray (map tree_of_arg (rule_args r))))"
    by (rule printable_list)
  then show "list_all (\<lambda>kv. no_nul (fst kv) \<and> printable (Suc (Suc (Suc d))) (json_of (snd kv)))
     ([(''names'', tree_of_strings (rule_names r))]
     @ opt_member ''action'' (rule_action r) @ filter_member ''include'' (rule_include r)
     @ filter_member ''exclude'' (rule_exclude r)
     @ [(''args'', TArray (map tree_of_arg (rule_args r)))] @ opt_member ''comment'' (rule_comment r))"
    using printable_strings [of "Suc d" "rule_names r"]
    by (simp add: opt_member_printable(1) filter_member_printable(1) del: json_of.simps printable.simps)
qed

lemma printable_arch: "printable (Suc (Suc (Suc d))) (json_of (tree_of_arch m))"
  unfolding tree_of_arch_def
  using opt_member_printable(1) [of "''architecture''" "Suc d" "map_architecture m"]
    opt_member_printable(2,3) [of "''architecture''" "map_architecture m"]
    printable_strings [of d "map_sub_architectures m"]
  by (intro printable_object) (auto simp del: json_of.simps printable.simps)

lemma printable_profile:
  assumes "profile_ok p"
  shows "printable (Suc (Suc (Suc (Suc (Suc (Suc d)))))) (json_of (tree_of_profile p))"
  unfolding tree_of_profile_def
  using assms opt_member_printable(1) [of "''defaultAction''" "Suc (Suc (Suc (Suc d)))" "profile_default_action p"]
    opt_member_printable(2,3) [of "''defaultAction''" "profile_default_action p"]
    f64_of_int_double [of "profile_default_errno_ret p"]
    printable_list [of "Suc (Suc (Suc (Suc d)))" tree_of_arch "profile_arch_map p"] printable_arch [of "Suc d"]
    printable_list [of "Suc (Suc (Suc (Suc d)))" tree_of_rule "profile_syscalls p"] printable_rule [of _ d]
  by (intro printable_object) (auto simp: profile_ok_def list_all_iff simp del: json_of.simps(1,2))

section \<open>Properties of the profile parser\<close>

text \<open>A file that opens, seeks and reads.\<close>

definition readable_file :: "string \<Rightarrow> file_io" where
  "readable_file s = \<lparr> fopen_ok = True, fseek_end_ok = True, ftell_result = int (length s),
                       fseek_set_ok = True, fread_bytes = s \<rparr>"

lemma read_whole: "mok (length s + 1) \<Longrightarrow> fileJSON_to_str mok (Some (readable_file s)) = Inr s"
  by (simp add: fileJSON_to_str_def readable_file_def)

definition result_of :: "int + SeccompProfile \<Rightarrow> int \<times> SeccompProfile option" where
  "result_of r = (case r of Inl e \<Rightarrow> (e, Some zero_profile) | Inr q \<Rightarrow> (0, Some q))"

lemma result_of_simps [simp]: "result_of (Inl e) = (e, Some zero_profile)" "result_of (Inr q) = (0, Some q)"
  by (simp_all add: result_of_def)

lemma parse_JSON_simp:
  "parse_JSON mok (Some io) (Some p)
    = obind (case fileJSON_to_str mok (Some io) of Inl e \<Rightarrow> Ret (Inl e)
             | Inr s \<Rightarrow> obind (json_parse_string mok s) (parse_root mok)) (\<lambda>r. Ret (result_of r))"
proof -
  have "(\<lambda>r. Ret (case r of Inl e \<Rightarrow> (e, Some (free_profile (the (Some p)))) | Inr q \<Rightarrow> (0, Some q)))
      = (\<lambda>r. Ret (result_of r))"
    by (intro ext) (simp add: free_profile_def result_of_def split: sum.split)
  then show ?thesis by (simp add: parse_JSON_def)
qed

lemma parsed_tidy:
  assumes "mem_limited mok" and "json_parse_string mok s = Ret (Some v)"
  shows "tidy v"
  using json_parse_string_ok [OF assms(1), of s] assms(2) by (auto simp: tidy_def)

lemma parse_JSON_tree:
  assumes "mem_limited mok" and "mok (length s + 1)"
    and "json_parse_string mok s = Ret (Some v)" and "copies_fit mok (json_abs v)"
  shows "parse_JSON mok (Some (readable_file s)) (Some p)
           = obind (spec_root (json_abs v)) (\<lambda>r. Ret (result_of r))"
  using root_tree [OF parsed_tidy [OF assms(1,3)] assms(4)] assms(2)
  by (simp add: parse_JSON_simp assms(3) read_whole)

text \<open>
  C5. The profile parser says what the JSON says: when the file reads as the JSON value \<open>v\<close> and
  memory suffices for the copies, \<^verbatim>\<open>parse_JSON\<close> returns exactly what the specification
  \<open>spec_root\<close> reads off the tree of \<open>v\<close> by lookups in association lists: the same profile, the
  same error code with a zeroed profile, or the same undefined conversion of a number.
\<close>

theorem parse_JSON_refines:
  assumes "mem_limited mok" and "mok (length s + 1)"
    and "json_parse_string mok s = Ret (Some v)" and "copies_fit mok (json_abs v)"
  shows "parse_JSON mok (Some (readable_file s)) (Some p)
           = obind (spec_root (json_abs v)) (\<lambda>r. Ret (result_of r))"
  using parse_JSON_tree [OF assms] .

theorem parse_JSON_refines_witness:
  "\<exists>s. parse_JSON (\<lambda>m. m < 2 ^ 34) (Some (readable_file s)) (Some zero_profile) = Ret (- 22, Some zero_profile)"
proof -
  let ?t = "TObject [(''defaultAction'', TString ''A''), (''syscalls'', TArray [TBoolean True])]"
  let ?s = "json_serialize_r False False 0 (json_of ?t)"
  let ?mok = "\<lambda>m. m < (2 :: nat) ^ 34"
  have len: "length ?s < 100" by (simp add: json_serialize_string_def serialize_char_def APPEND_INDENT_def newline_def)
  have sv: "serves ?mok (24 * length ?s + 128)" using len by (intro serves_16G) simp
  have pr: "printable 3 (json_of ?t)" "3 \<le> Suc MAX_NESTING" by (simp_all add: MAX_NESTING_def numeral_3_eq_3)
  obtain v where v: "json_parse_string ?mok ?s = Ret (Some v)" and t: "json_abs v = ?t"
    by (rule tree_text_parses [OF pr sv refl])
  have "copies_fit ?mok ?t" by (auto simp: copies_fit_def)
  moreover have "mem_limited ?mok" by (simp add: mem_limited_def)
  ultimately have "parse_JSON ?mok (Some (readable_file ?s)) (Some zero_profile)
      = obind (spec_root ?t) (\<lambda>r. Ret (result_of r))"
    using parse_JSON_refines [of ?mok ?s v zero_profile] v len unfolding t by simp
  also have "\<dots> = Ret (- 22, Some zero_profile)"
    by (simp add: spec_root_def spec_arch_map_def each_object_def f64_zero_def as_int_def cast_int_def cast_in_def
        t_num_def t_object_def EINVAL_def)
  finally show ?thesis by blast
qed

lemma profile_reads_back:
  assumes "profile_ok p" and "t = json_serialize_r esc pretty 0 (json_of (tree_of_profile p))"
    and "serves mok (24 * length t + 128)" and "copies_fit mok (tree_of_profile p)"
  shows "parse_JSON mok (Some (readable_file t)) (Some q) = Ret (0, Some p)"
proof -
  have "printable 6 (json_of (tree_of_profile p))"
    using printable_profile [OF assms(1), of 0] by (simp add: eval_nat_numeral)
  moreover have "6 \<le> Suc MAX_NESTING" by (simp add: MAX_NESTING_def)
  ultimately obtain v where v: "json_parse_string mok t = Ret (Some v)" "json_abs v = tree_of_profile p"
    by (rule tree_text_parses [OF _ _ assms(3,2)])
  have "mem_limited mok" "mok (length t + 1)" using assms(3) by (auto simp: serves_def)
  then show ?thesis
    using parse_JSON_tree [of mok t v q] v assms(4) read_profile [OF assms(1)] by simp
qed

definition sample_profile :: SeccompProfile where
  "sample_profile = \<lparr> profile_default_action = Some ''SCMP_ACT_ALLOW'', profile_default_errno_ret = 0,
     profile_arch_map = [\<lparr> map_architecture = Some ''SCMP_ARCH_X86_64'',
                           map_sub_architectures = [Some ''SCMP_ARCH_X86''] \<rparr>],
     profile_syscalls = [\<lparr> rule_names = [Some ''connect''], rule_action = Some ''SCMP_ACT_KILL'',
       rule_include = None, rule_exclude = None, rule_args = [], rule_comment = None \<rparr>] \<rparr>"

definition sample_text :: string where
  "sample_text = json_serialize_r True False 0 (json_of (tree_of_profile sample_profile))"

lemma sample_profile_carried:
  "profile_ok sample_profile" "serves (\<lambda>m. m < 2 ^ 34) (24 * length sample_text + 128)"
  "copies_fit (\<lambda>m. m < 2 ^ 34) (tree_of_profile sample_profile)"
proof -
  have zero: "sprintf_g17 (f64_of_int 0) = ''0''"
    using sprintf_g17_int [of 0 False] by (simp add: f64_of_int_def)
  have tree: "tree_of_profile sample_profile = TObject [(''defaultAction'', TString ''SCMP_ACT_ALLOW''),
      (''defaultErrnoRet'', TNumber (f64_of_int 0)),
      (''archMap'', TArray [TObject [(''architecture'', TString ''SCMP_ARCH_X86_64''),
         (''subArchitectures'', TArray [TString ''SCMP_ARCH_X86''])]]),
      (''syscalls'', TArray [TObject [(''names'', TArray [TString ''connect'']),
         (''action'', TString ''SCMP_ACT_KILL''), (''args'', TArray [])]])]"
    by (simp add: sample_profile_def tree_of_profile_def tree_of_arch_def tree_of_rule_def opt_member_def filter_member_def
        tree_of_strings_def tree_of_string_def)
  have "length sample_text < 1000"
    by (simp add: sample_text_def tree zero json_serialize_string_def serialize_char_def APPEND_INDENT_def newline_def)
  then show "serves (\<lambda>m. m < 2 ^ 34) (24 * length sample_text + 128)" by (intro serves_16G) simp
  show "profile_ok sample_profile"
    by (simp add: sample_profile_def profile_ok_def opt_ok_def rule_ok_def filter_ok_def no_nul_def)
  show "copies_fit (\<lambda>m. m < 2 ^ 34) (tree_of_profile sample_profile)" by (auto simp: tree copies_fit_def)
qed

text \<open>
  C6. Profiles survive the trip through a file: the JSON text of a profile, compact or indented,
  is parsed by \<^verbatim>\<open>parse_JSON\<close> as that very profile, with code 0. The profile must be one JSON can
  carry (\<open>profile_ok\<close>): a default action, strings without NUL, argument values below \<open>2^53\<close>.
\<close>

theorem profile_roundtrip:
  assumes "profile_ok p" and "t = json_serialize_r esc pretty 0 (json_of (tree_of_profile p))"
    and "serves mok (24 * length t + 128)" and "copies_fit mok (tree_of_profile p)"
  shows "parse_JSON mok (Some (readable_file t)) (Some q) = Ret (0, Some p)"
  using profile_reads_back [OF assms] .

theorem profile_roundtrip_witness:
  "parse_JSON (\<lambda>m. m < 2 ^ 34) (Some (readable_file sample_text)) (Some zero_profile) = Ret (0, Some sample_profile)"
  by (rule profile_roundtrip [OF _ sample_text_def]) (rule sample_profile_carried)+

section \<open>Every outcome\<close>

text \<open>
  A step that ends: with a result, or with one of the two error codes parsing has. Numbers can
  take it out of this: the conversion of a \<^verbatim>\<open>double\<close> outside the range of the target type is
  undefined, so the ranges are a condition on the members of the tree.
\<close>

definition ends_well :: "'a proc \<Rightarrow> bool" where
  "ends_well m \<longleftrightarrow> (\<exists>r. m = Ret r \<and> (\<forall>e. r = Inl e \<longrightarrow> e \<in> {- EINVAL, - ENOMEM}))"

lemma ends_well_simps [simp]:
  "ends_well (Ret (Inr x))" "ends_well (cleanup EINVAL)" "ends_well (cleanup ENOMEM)"
  by (simp_all add: ends_well_def)

lemma ends_well_pbind: "ends_well m \<Longrightarrow> (\<And>x. m = Ret (Inr x) \<Longrightarrow> ends_well (f x)) \<Longrightarrow> ends_well (pbind m f)"
  by (auto simp: ends_well_def pbind_def split: sum.splits)

lemma ends_well_pmap: "(\<And>x. x \<in> set xs \<Longrightarrow> ends_well (f x)) \<Longrightarrow> ends_well (pmap f xs)"
  by (induction xs) (auto intro!: ends_well_pbind)

definition in_range :: "string \<Rightarrow> f64 \<Rightarrow> bool" where
  "in_range k x = (if k = ''index'' then cast_uint x \<noteq> None
                   else if k = ''defaultErrnoRet'' then cast_int x \<noteq> None
                   else if k \<in> {''value'', ''value_two''} then cast_ull x \<noteq> None
                   else True)"

definition number_member_ok :: "string \<times> jtree \<Rightarrow> bool" where
  "number_member_ok kv = (case kv of (k, TNumber x) \<Rightarrow> in_range k x | _ \<Rightarrow> True)"

fun numbers_fit :: "jtree \<Rightarrow> bool" where
  "numbers_fit (TObject kvs) \<longleftrightarrow> (\<forall>kv \<in> set kvs. number_member_ok kv \<and> numbers_fit (snd kv))"
| "numbers_fit (TArray ts) \<longleftrightarrow> (\<forall>t \<in> set ts. numbers_fit t)"
| "numbers_fit _ \<longleftrightarrow> True"

lemma numbers_fit_get:
  "numbers_fit t \<Longrightarrow> t_get t k = Some u \<Longrightarrow> numbers_fit u \<and> number_member_ok (k, u)"
  by (cases t) (auto simp: t_get_def dest!: map_of_SomeD)

lemma number_get:
  assumes "numbers_fit t"
  shows "k \<in> {''value'', ''value_two''} \<Longrightarrow> cast_ull (t_num (t_get t k)) \<noteq> None"
    and "cast_uint (t_num (t_get t ''index'')) \<noteq> None"
    and "cast_int (t_num (t_get t ''defaultErrnoRet'')) \<noteq> None"
proof -
  have zero: "cast_ull f64_zero \<noteq> None" "cast_uint f64_zero \<noteq> None" "cast_int f64_zero \<noteq> None"
    by (simp_all add: f64_zero_def cast_ull_def cast_uint_def cast_int_def cast_in_def)
  have get: "t_num (t_get t k) = f64_zero \<or> in_range k (t_num (t_get t k))" for k
    using numbers_fit_get [OF assms, of k]
    by (auto simp: t_num_def number_member_ok_def split: option.split jtree.split)
  show "k \<in> {''value'', ''value_two''} \<Longrightarrow> cast_ull (t_num (t_get t k)) \<noteq> None"
    using get [of k] zero by (auto simp: in_range_def)
  show "cast_uint (t_num (t_get t ''index'')) \<noteq> None"
    using get [of "''index''"] zero by (auto simp: in_range_def)
  show "cast_int (t_num (t_get t ''defaultErrnoRet'')) \<noteq> None"
    using get [of "''defaultErrnoRet''"] zero by (auto simp: in_range_def)
qed

lemma conversions_end:
  "cast_ull x \<noteq> None \<Longrightarrow> ends_well (lift (as_ull x))"
  "cast_uint x \<noteq> None \<Longrightarrow> ends_well (lift (as_unsigned x))"
  "cast_int x \<noteq> None \<Longrightarrow> ends_well (lift (as_int x))"
  by (auto simp: as_ull_def as_unsigned_def as_int_def)

text \<open>Values that read as trees whose numbers fit.\<close>

definition sound :: "json json_object \<Rightarrow> bool" where
  "sound ob \<longleftrightarrow> tidy (JObject ob) \<and> numbers_fit (json_abs (JObject ob))"

lemma sound_getters:
  assumes "sound ob"
  shows "ends_well (lift (json_object_get_string (Some ob) k))"
    and "\<exists>a. json_object_get_array (Some ob) k = Ret a \<and> (\<forall>i e. json_array_get_object a i = Some e \<longrightarrow> sound e)"
    and "\<exists>a. json_object_get_object (Some ob) k = Ret a \<and> (\<forall>e. a = Some e \<longrightarrow> sound e)"
proof -
  have t: "tidy (JObject ob)" and n: "numbers_fit (json_abs (JObject ob))" using assms by (auto simp: sound_def)
  show "ends_well (lift (json_object_get_string (Some ob) k))" by (simp add: get_string_tree [OF t])
  show "\<exists>a. json_object_get_object (Some ob) k = Ret a \<and> (\<forall>e. a = Some e \<longrightarrow> sound e)"
    by (rule get_object_tree [OF t, of k]) (use numbers_fit_get [OF n] in \<open>auto simp: sound_def simp del: json_abs.simps\<close>)
  obtain a where a: "json_object_get_array (Some ob) k = Ret a"
    "\<And>ja. a = Some ja \<Longrightarrow> tidy (JArray ja) \<and> t_get (json_abs (JObject ob)) k = Some (json_abs (JArray ja))"
    by (rule get_array_tree [OF t, of k]) auto
  have "sound e" if e: "json_array_get_object a i = Some e" for i e
  proof -
    obtain ja where ja: "a = Some ja" "i < length (elems ja)" "elems ja ! i = JObject e"
      using e object_view(2) [of _ e]
      by (auto simp: json_array_get_object_def json_array_get_value_def json_array_get_count_def
          split: if_splits option.splits)
    then have m: "JObject e \<in> set (elems ja)" by (metis nth_mem)
    have "numbers_fit (json_abs (JArray ja))" using numbers_fit_get [OF n] a(2) [OF ja(1)] by blast
    then show ?thesis using tidy_array [OF _ m] a(2) [OF ja(1)] m by (auto simp: sound_def simp del: json_abs.simps(1))
  qed
  then show "\<exists>a. json_object_get_array (Some ob) k = Ret a \<and> (\<forall>i e. json_array_get_object a i = Some e \<longrightarrow> sound e)"
    using a(1) by blast
qed

lemma ends_well_number:
  assumes "sound ob"
  shows "k \<in> {''value'', ''value_two''} \<Longrightarrow> ends_well (lift (obind (json_object_get_number (Some ob) k) as_ull))"
    and "ends_well (lift (obind (json_object_get_number (Some ob) ''index'') as_unsigned))"
    and "ends_well (lift (obind (json_object_get_number (Some ob) ''defaultErrnoRet'') as_int))"
  using assms number_get [of "json_abs (JObject ob)"] get_number_tree [of ob] conversions_end
  by (auto simp: sound_def simp del: json_abs.simps)

lemma ends_well_each:
  assumes "\<And>e. sound e \<Longrightarrow> ends_well (f e)" and "\<And>i e. json_array_get_object a i = Some e \<Longrightarrow> sound e"
  shows "ends_well (each_element f a)"
  unfolding each_element_def using assms by (intro ends_well_pmap) (auto split: option.split)

lemma ends_well_arg: "sound ob \<Longrightarrow> ends_well (parse_arg mok ob)"
  unfolding parse_arg_def
  by (intro ends_well_pbind ends_well_number sound_getters(1)) auto

lemma ends_well_list:
  assumes "sound ob" and "\<And>e. sound e \<Longrightarrow> ends_well (f e)"
  shows "ends_well (pbind (lift (json_object_get_array (Some ob) k)) (\<lambda>a. let n = json_array_get_count a
       in if 0 < n \<and> \<not> mok (n * s) then cleanup ENOMEM else each_element f a))"
  using sound_getters(2) [OF assms(1), of k] ends_well_each [OF assms(2)] by (auto simp: Let_def)

lemma ends_well_strings:
  assumes "sound ob"
  shows "ends_well (pbind (lift (json_object_get_array (Some ob) k)) (\<lambda>a. let n = json_array_get_count a
       in if 0 < n \<and> \<not> mok (n * s) then cleanup ENOMEM else Ret (Inr (h a))))"
  using sound_getters(2) [OF assms, of k] by (auto simp: Let_def)

lemma filter_returns:
  assumes "\<And>ob. a = Some ob \<Longrightarrow> sound ob"
  shows "\<exists>r. parse_filter mok a = Ret r"
proof (cases a)
  case None
  then show ?thesis by (simp add: parse_filter_def)
next
  case (Some ob)
  have s: "\<exists>r. filter_strings mok (Some ob) k = Ret r" for k
    using sound_getters(2) [OF assms [OF Some], of k] by (auto simp: filter_strings_def)
  have "tidy (JObject ob)" using assms [OF Some] by (simp add: sound_def)
  then have "\<exists>x. json_object_get_string (Some ob) ''minKernel'' = Ret x" using get_string_tree by blast
  then show ?thesis
    using s [of "''caps''"] s [of "''arches''"] by (auto simp: parse_filter_def Some split: option.split)
qed

lemma ends_well_filter:
  assumes "sound ob"
  shows "ends_well (lift (obind (json_object_get_object (Some ob) k) (parse_filter mok)))"
proof -
  obtain a where a: "json_object_get_object (Some ob) k = Ret a" "\<forall>e. a = Some e \<longrightarrow> sound e"
    using sound_getters(3) [OF assms, of k] by blast
  then obtain r where "parse_filter mok a = Ret r" using filter_returns [of a mok] by blast
  then show ?thesis by (simp add: a(1))
qed

lemma ends_well_rule: "sound ob \<Longrightarrow> ends_well (parse_rule mok ob)"
proof -
  assume ob: "sound ob"
  have "ends_well (parse_names mok ob)" unfolding parse_names_def by (rule ends_well_strings [OF ob])
  moreover have "ends_well (parse_args mok ob)"
    unfolding parse_args_def by (rule ends_well_list [OF ob ends_well_arg])
  ultimately show ?thesis unfolding parse_rule_def
    by (intro ends_well_pbind ends_well_filter [OF ob] sound_getters(1) [OF ob]) simp_all
qed

lemma ends_well_arch: "sound ob \<Longrightarrow> ends_well (parse_arch_entry mok ob)"
  unfolding parse_arch_entry_def
  by (intro ends_well_pbind [OF sound_getters(1)] ends_well_strings)

lemma ends_well_root:
  assumes "sound ob"
  shows "ends_well (parse_root_object mok ob)"
  unfolding parse_root_object_def
proof (intro ends_well_pbind [OF sound_getters(1) [OF assms]])
  fix action
  have "ends_well (parse_arch_map mok ob)"
    unfolding parse_arch_map_def by (intro ends_well_list assms ends_well_arch)
  moreover have "ends_well (parse_syscalls mok ob)"
    unfolding parse_syscalls_def by (intro ends_well_list assms ends_well_rule)
  ultimately show "ends_well (if safe_strdup mok action = None then cleanup EINVAL
      else pbind (lift (obind (json_object_get_number (Some ob) ''defaultErrnoRet'') as_int)) (\<lambda>errno_ret.
           pbind (parse_arch_map mok ob) (\<lambda>arch_map.
           pbind (parse_syscalls mok ob) (\<lambda>syscalls.
             Ret (Inr \<lparr> profile_default_action = safe_strdup mok action,
                        profile_default_errno_ret = errno_ret,
                        profile_arch_map = arch_map, profile_syscalls = syscalls \<rparr>)))))"
    using ends_well_number(3) [OF assms] by (auto intro!: ends_well_pbind)
qed

text \<open>
  C7. No input crashes the profile parser: for a file of any bytes (not JSON, JSON of any other
  shape, truncated) and whatever allocations fail, \<^verbatim>\<open>parse_JSON\<close> returns. It returns 0 with a
  profile, or one of \<^verbatim>\<open>-EINVAL\<close>, \<^verbatim>\<open>-ENOENT\<close>, \<^verbatim>\<open>-EIO\<close>, \<^verbatim>\<open>-ENOMEM\<close> with the profile zeroed. The one
  condition: numbers under the keys it converts lie in the range of the integer type (their
  conversion is undefined otherwise).
\<close>

theorem parse_JSON_safe:
  assumes "mem_limited mok"
    and "\<forall>s v. json_parse_string mok s = Ret (Some v) \<and> fileJSON_to_str mok (Some io) = Inr s \<longrightarrow> numbers_fit (json_abs v)"
  shows "\<exists>c q. parse_JSON mok (Some io) (Some p) = Ret (c, Some q)
           \<and> c \<in> {0, - EINVAL, - ENOENT, - EIO, - ENOMEM} \<and> (c \<noteq> 0 \<longrightarrow> q = zero_profile)"
proof (cases "fileJSON_to_str mok (Some io)")
  case (Inl e)
  then have "e \<in> {- ENOENT, - EIO, - ENOMEM}"
    by (auto simp: fileJSON_to_str_def Let_def split: if_splits)
  then show ?thesis by (auto simp: parse_JSON_simp Inl)
next
  case (Inr s)
  obtain r where r: "json_parse_string mok s = Ret r" using json_parse_string_ok [OF assms(1)] by blast
  have "ends_well (parse_root mok r)"
  proof (cases r)
    case (Some v)
    have v: "tidy v" "numbers_fit (json_abs v)" using parsed_tidy assms r Some Inr by blast+
    then have "sound ob" if "json_value_get_object (Some v) = Some ob" for ob
      using object_view(2) [OF that] by (simp add: sound_def del: json_abs.simps)
    then show ?thesis using ends_well_root by (auto simp: parse_root_def Some split: option.split)
  qed (simp add: parse_root_def)
  then obtain x where "parse_root mok r = Ret x" "\<forall>e. x = Inl e \<longrightarrow> e \<in> {- EINVAL, - ENOMEM}"
    by (auto simp: ends_well_def)
  then show ?thesis by (cases x) (auto simp: parse_JSON_simp Inr r)
qed

theorem parse_JSON_safe_witness:
  "\<exists>c q. parse_JSON (\<lambda>m. m < 8) (Some (readable_file ''nil'')) (Some zero_profile) = Ret (c, Some q)"
proof -
  let ?mok = "\<lambda>m. m < (8 :: nat)"
  have lim: "mem_limited ?mok" by (simp add: mem_limited_def)
  have "json_parse_string ?mok ''nil'' = Ret None"
    by (simp add: json_parse_string_def parse_value_def cstr_def starts_with_def
        parse_step_def isspace_def isdigit_def parse_null_value_def Let_def)
  then show ?thesis using parse_JSON_safe [OF lim, of "readable_file ''nil''" zero_profile]
    by (auto simp: fileJSON_to_str_def readable_file_def)
qed









end
