(* ===== verification/Logger.thy ===== *)
theory Logger
  imports Profile_Spec
begin

text \<open>
  The violation log, \<^verbatim>\<open>src/logger/logger.c\<close>: one JSON object per violation, appended to a file as
  the elements of an array that \<^verbatim>\<open>logger_close\<close> ends. The file is its content; \<open>can_open\<close> says
  whether it can be opened for appending. Results of the writes are ignored by the code, and
  writing is taken to succeed. \<open>None\<close> for a path or a string is \<^verbatim>\<open>NULL\<close>.
\<close>

section \<open>Hexadecimal registers\<close>

text \<open>\<^verbatim>\<open>%llx\<close>.\<close>

fun hex_str :: "nat \<Rightarrow> string" where
  "hex_str n = (if n < 16 then [hex_digit n] else hex_str (n div 16) @ [hex_digit (n mod 16)])"

declare hex_str.simps [simp del]

record SeccompViolation =
  sv_pid :: int
  sv_timestamp :: "string option"
  sv_syscall :: "64 word"
  sv_syscall_name :: "string option"
  sv_rdi :: "64 word"
  sv_rsi :: "64 word"
  sv_rdx :: "64 word"
  sv_r10 :: "64 word"
  sv_r8 :: "64 word"
  sv_r9 :: "64 word"
  sv_rbp :: "64 word"
  sv_rip :: "64 word"
  sv_resolved_func :: "string option"
  sv_resolved_file :: "string option"

text \<open>A call whose status the code ignores: the object as it is then.\<close>

definition ignoring :: "(bool \<times> 'o) outcome \<Rightarrow> 'o outcome" where
  "ignoring m = obind m (\<lambda>(ok, obj). Ret obj)"

definition hex_register :: "64 word \<Rightarrow> string" where
  "hex_register value = ''0x'' @ hex_str (unat value)"

definition write_hex_register ::
    "(nat \<Rightarrow> bool) \<Rightarrow> json json_object \<Rightarrow> string \<Rightarrow> 64 word \<Rightarrow> (bool \<times> json json_object) outcome" where
  "write_hex_register mok obj name value = json_object_set_string mok obj name (Some (hex_register value))"

section \<open>The object of a violation\<close>

definition set_if_given ::
    "(nat \<Rightarrow> bool) \<Rightarrow> string \<Rightarrow> string option \<Rightarrow> json json_object \<Rightarrow> json json_object outcome" where
  "set_if_given mok name s obj =
     (if s = None then Ret obj else ignoring (json_object_set_string mok obj name s))"

fun write_registers ::
    "(nat \<Rightarrow> bool) \<Rightarrow> (string \<times> 64 word) list \<Rightarrow> json json_object \<Rightarrow> json json_object outcome" where
  "write_registers mok [] obj = Ret obj"
| "write_registers mok ((name, value) # regs) obj =
     obind (ignoring (write_hex_register mok obj name value)) (write_registers mok regs)"

definition registers_of :: "SeccompViolation \<Rightarrow> (string \<times> 64 word) list" where
  "registers_of v = [(''rdi'', sv_rdi v), (''rsi'', sv_rsi v), (''rdx'', sv_rdx v), (''r10'', sv_r10 v),
     (''r8'', sv_r8 v), (''r9'', sv_r9 v), (''rbp'', sv_rbp v), (''rip'', sv_rip v)]"

definition set_registers ::
    "(nat \<Rightarrow> bool) \<Rightarrow> SeccompViolation \<Rightarrow> json json_object \<Rightarrow> json json_object outcome" where
  "set_registers mok v obj =
     (case json_value_get_object (json_value_init_object mok) of
        None \<Rightarrow> Ret obj
      | Some regs_obj \<Rightarrow>
          obind (write_registers mok (registers_of v) regs_obj) (\<lambda>regs_obj.
            ignoring (json_object_set_value mok obj ''registers'' (JObject regs_obj) False)))"

definition violation_json :: "(nat \<Rightarrow> bool) \<Rightarrow> SeccompViolation \<Rightarrow> json option outcome" where
  "violation_json mok v =
     (case json_value_get_object (json_value_init_object mok) of
        None \<Rightarrow> Ret None
      | Some obj \<Rightarrow>
          obind (ignoring (json_object_set_number mok obj ''pid'' (f64_of_int (sv_pid v)))) (\<lambda>obj.
          obind (set_if_given mok ''timestamp'' (sv_timestamp v) obj) (\<lambda>obj.
          obind (ignoring (json_object_set_number mok obj ''syscall'' (f64_of_nat (unat (sv_syscall v))))) (\<lambda>obj.
          obind (set_if_given mok ''syscall_name'' (sv_syscall_name v) obj) (\<lambda>obj.
          obind (set_registers mok v obj) (\<lambda>obj.
          obind (set_if_given mok ''function'' (sv_resolved_func v) obj) (\<lambda>obj.
          obind (set_if_given mok ''file'' (sv_resolved_file v) obj) (\<lambda>obj.
            Ret (Some (JObject obj))))))))))"

section \<open>The log file\<close>

text \<open>
  The state of a log: the flag the caller keeps in \<^verbatim>\<open>first_in_array\<close> and the content of the
  file. \<^verbatim>\<open>parson_escape_slashes\<close> keeps its initial value 1.
\<close>

record log_state =
  first_in_array :: bool
  log_content :: string

definition log_seccomp_violation ::
    "(nat \<Rightarrow> bool) \<Rightarrow> bool \<Rightarrow> string option \<Rightarrow> SeccompViolation option \<Rightarrow> log_state option
     \<Rightarrow> (int \<times> log_state option) outcome" where
  "log_seccomp_violation mok can_open file_path v st =
     (case (file_path, v, st) of
        (Some _, Some v, Some s) \<Rightarrow>
          obind (violation_json mok v) (\<lambda>root.
            if root = None then Ret (- 1, st)
            else obind (json_serialize_to_string_pretty mok True root) (\<lambda>serialized. Ret (
              case serialized of
                None \<Rightarrow> (- 1, st)
              | Some txt \<Rightarrow>
                  if \<not> can_open then (- 1, st)
                  else (0, Some \<lparr> first_in_array = False,
                                  log_content = log_content s @ (if first_in_array s then ''['' else '','')
                                                @ txt @ [CHR 0x0A] \<rparr>))))
      | _ \<Rightarrow> Ret (- 1, st))"

definition logger_close :: "bool \<Rightarrow> string option \<Rightarrow> string \<Rightarrow> int \<times> string" where
  "logger_close can_open file_path content =
     (if file_path = None then (- 1, content)
      else if \<not> can_open then (- 1, content)
      else (0, content @ '']'' @ [CHR 0x0A]))"

end
