(* ===== verification/Observer.thy ===== *)
theory Observer
  imports Logger
begin

text \<open>
  The tracer, \<^verbatim>\<open>src/observer/observer.c\<close>: where a system call was made from, and the loop that
  continues the traced program, waits for it to stop, and logs the stops of its filter. What
  the kernel, the C library, libseccomp and \<^verbatim>\<open>addr2line\<close> answer is one record per turn of the loop.
\<close>

section \<open>Lines of the map of a process\<close>

text \<open>
  \<^verbatim>\<open>%llx\<close> of \<^verbatim>\<open>sscanf\<close>: white space, a sign, \<open>0x\<close>, hexadecimal digits. The number read and the
  rest; \<open>None\<close> is a matching failure.
\<close>

definition scan_hex :: "string \<Rightarrow> (int \<times> string) option" where
  "scan_hex s =
     (let t = skip_ws s;
          neg = (t \<noteq> [] \<and> hd t = CHR ''-'');
          u = (if t \<noteq> [] \<and> (hd t = CHR ''-'' \<or> hd t = CHR ''+'') then tl t else t);
          w = (if istarts ''0x'' u then drop 2 u else u);
          ds = takeWhile is_xdigit w;
          v = int (hex_val ds)
      in if ds = [] then None else Some (if neg then - v else v, dropWhile is_xdigit w))"

text \<open>Stored into an \<^verbatim>\<open>unsigned long long\<close>: undefined for a number the type cannot hold.\<close>

definition scan_llx :: "string \<Rightarrow> (64 word \<times> string) option outcome" where
  "scan_llx s =
     (case scan_hex s of
        None \<Rightarrow> Ret None
      | Some (v, r) \<Rightarrow> if 0 \<le> v \<and> v < 2 ^ 64 then Ret (Some (word_of_int v, r)) else UB)"

text \<open>A literal character of the format, and \<^verbatim>\<open>%ns\<close>: white space, then 1 to \<open>n\<close> others.\<close>

definition scan_char :: "char \<Rightarrow> string \<Rightarrow> string option" where
  "scan_char c s = (if s \<noteq> [] \<and> hd s = c then Some (tl s) else None)"

definition scan_word :: "nat \<Rightarrow> string \<Rightarrow> (string \<times> string) option" where
  "scan_word n s =
     (let t = skip_ws s;
          w = take n (takeWhile (\<lambda>c. \<not> isspace c) t)
      in if w = [] then None else Some (w, drop (length w) t))"

text \<open>
  \<^verbatim>\<open>sscanf(line, "%llx-%llx %4s %*llx %*s %*s %255s", ...)\<close>: what is stored when the result is 4,
  \<open>None\<close> when it is less. \<open>scan_map_tail\<close> is the part after the two addresses.
\<close>

definition scan_map_tail :: "string \<Rightarrow> (string \<times> string) option" where
  "scan_map_tail s =
     Option.bind (scan_word 4 s) (\<lambda>(perms, s).
     Option.bind (scan_hex s) (\<lambda>(_, s).
     Option.bind (scan_word (length s) s) (\<lambda>(_, s).
     Option.bind (scan_word (length s) s) (\<lambda>(_, s).
     Option.bind (scan_word 255 s) (\<lambda>(path, _). Some (perms, path))))))"

definition sscanf_map :: "string \<Rightarrow> (64 word \<times> 64 word \<times> string \<times> string) option outcome" where
  "sscanf_map line =
     obind (scan_llx line) (\<lambda>r. case r of None \<Rightarrow> Ret None | Some (start, s) \<Rightarrow>
       (case scan_char CHR ''-'' s of None \<Rightarrow> Ret None | Some s \<Rightarrow>
          obind (scan_llx s) (\<lambda>r. case r of None \<Rightarrow> Ret None | Some (stop, s) \<Rightarrow>
            Ret (map_option (\<lambda>(perms, path). (start, stop, perms, path)) (scan_map_tail s)))))"

text \<open>The loop over the lines: the base and the file of the executable mapping around \<open>rip\<close>.\<close>

function find_mapping :: "64 word \<Rightarrow> string \<Rightarrow> (64 word \<times> string) option outcome" where
  "find_mapping rip maps =
     (if maps = [] then Ret None
      else let line = fgets_line 512 maps
           in obind (sscanf_map (cstr line)) (\<lambda>r. case r of
                Some (start, stop, perms, path) \<Rightarrow>
                  if start \<le> rip \<and> rip < stop \<and> CHR ''x'' \<in> set perms then Ret (Some (start, path))
                  else find_mapping rip (drop (length line) maps)
              | None \<Rightarrow> find_mapping rip (drop (length line) maps)))"
  by pat_completeness auto

termination
  by (relation "measure (\<lambda>(rip, maps). length maps)") (use fgets_progress [of _ 512] in auto)

declare find_mapping.simps [simp del]

section \<open>The source location\<close>

record addr2line_output =
  func_name :: "string option"
  file_line :: "string option"

definition addr2line_cmd :: "string \<Rightarrow> 64 word \<Rightarrow> string" where
  "addr2line_cmd path offset = take 1023 (''addr2line -f -e '' @ path @ '' 0x'' @ hex_str (unat offset))"

definition cut_newline :: "string \<Rightarrow> string" where
  "cut_newline s = takeWhile (\<lambda>c. c \<noteq> CHR 0x0A) s"

text \<open>
  The two lines read from the pipe. The newlines are cut only when both were there; a buffer
  nothing was read into is the empty string, and \<^verbatim>\<open>fgets\<close> into a null buffer is undefined.
\<close>

definition read_location :: "(nat \<Rightarrow> bool) \<Rightarrow> string \<Rightarrow> (string \<times> string) outcome" where
  "read_location mok out =
     (if \<not> mok 256 then UB
      else if out = [] then Ret ([], [])
      else let line1 = fgets_line 256 out;
               rest = drop (length line1) out
           in if rest = [] then Ret (cstr line1, [])
              else Ret (cut_newline (cstr line1), cut_newline (cstr (fgets_line 256 rest))))"

definition maps_path :: "int \<Rightarrow> string" where
  "maps_path pid = ''/proc/'' @ (if pid < 0 then ''-'' else []) @ dec_str (nat \<bar>pid\<bar>) @ ''/maps''"

text \<open>
  \<open>procfs\<close> is the content of a file, \<open>None\<close> when it cannot be opened; \<open>popen_read\<close> what a command
  prints, \<open>None\<close> when \<^verbatim>\<open>popen\<close> fails. The result is \<open>None\<close> for the null pointer.
\<close>

definition get_source_location ::
    "(nat \<Rightarrow> bool) \<Rightarrow> (string \<Rightarrow> string option) \<Rightarrow> (string \<Rightarrow> string option) \<Rightarrow> int \<Rightarrow> 64 word
     \<Rightarrow> addr2line_output option outcome" where
  "get_source_location mok procfs popen_read pid rip =
     (let result = (if mok 16 then Some \<lparr> func_name = None, file_line = None \<rparr> else None)
      in case procfs (maps_path pid) of
           None \<Rightarrow> Ret result
         | Some maps \<Rightarrow>
             obind (find_mapping rip maps) (\<lambda>found. case found of
               None \<Rightarrow> Ret result
             | Some (base, path) \<Rightarrow>
                 (case popen_read (addr2line_cmd path (rip - base)) of
                    None \<Rightarrow> Ret result
                  | Some out \<Rightarrow>
                      obind (read_location mok out) (\<lambda>(f, l).
                        obind (ub_unless result) (\<lambda>_.
                          Ret (Some \<lparr> func_name = Some f, file_line = Some l \<rparr>))))))"

section \<open>The violation\<close>

text \<open>The general registers the code reads, of \<^verbatim>\<open>struct user_regs_struct\<close>.\<close>

record user_regs_struct =
  orig_rax :: "64 word"
  reg_rdi :: "64 word"
  reg_rsi :: "64 word"
  reg_rdx :: "64 word"
  reg_r10 :: "64 word"
  reg_r8 :: "64 word"
  reg_r9 :: "64 word"
  reg_rbp :: "64 word"
  reg_rip :: "64 word"

text \<open>
  \<open>date\<close> is what \<^verbatim>\<open>strftime\<close> writes for the current second, \<open>nsec\<close> is \<^verbatim>\<open>tv_nsec\<close>; \<^verbatim>\<open>%03ld\<close> pads with
  zeros. Writing through the null pointer is undefined.
\<close>

definition get_timestamp :: "(nat \<Rightarrow> bool) \<Rightarrow> string \<Rightarrow> nat \<Rightarrow> string outcome" where
  "get_timestamp mok date nsec =
     (let ms = dec_str (nsec div 1000000)
      in if mok 64 then Ret (take 63 (date @ ''.'' @ replicate (3 - length ms) CHR ''0'' @ ms)) else UB)"

text \<open>The number is passed as an \<^verbatim>\<open>int\<close>.\<close>

definition syscall_name_resolver :: "(32 word \<Rightarrow> int \<Rightarrow> string option) \<Rightarrow> 32 word \<Rightarrow> 64 word \<Rightarrow> string option" where
  "syscall_name_resolver resolve_num_arch native syscall_num =
     resolve_num_arch native (sint (ucast syscall_num :: 32 word))"

definition violation_of ::
    "int \<Rightarrow> user_regs_struct \<Rightarrow> string option \<Rightarrow> addr2line_output \<Rightarrow> string \<Rightarrow> SeccompViolation" where
  "violation_of pid regs name info time_string =
     \<lparr> sv_pid = pid, sv_timestamp = Some time_string, sv_syscall = orig_rax regs, sv_syscall_name = name,
       sv_rdi = reg_rdi regs, sv_rsi = reg_rsi regs, sv_rdx = reg_rdx regs, sv_r10 = reg_r10 regs, sv_r8 = reg_r8 regs,
       sv_r9 = reg_r9 regs, sv_rbp = reg_rbp regs, sv_rip = reg_rip regs,
       sv_resolved_func = func_name info, sv_resolved_file = file_line info \<rparr>"

section \<open>The status of a wait\<close>

text \<open>The macros of \<^verbatim>\<open><sys/wait.h>\<close> on the 32-bit status, and the event above its 16 bits.\<close>

definition WIFEXITED :: "32 word \<Rightarrow> bool" where
  "WIFEXITED status = (status AND 0x7F = 0)"

definition WIFSIGNALED :: "32 word \<Rightarrow> bool" where
  "WIFSIGNALED status = (0 < sint (signed_drop_bit 1 (ucast ((status AND 0x7F) + 1) :: 8 word)))"

definition PTRACE_EVENT_SECCOMP :: "32 word" where
  "PTRACE_EVENT_SECCOMP = 7"

definition seccomp_stop :: "32 word \<Rightarrow> bool" where
  "seccomp_stop status = (signed_drop_bit 16 status = PTRACE_EVENT_SECCOMP)"

section \<open>The loop\<close>

text \<open>
  One turn: whether \<^verbatim>\<open>PTRACE_CONT\<close> succeeds, the status \<^verbatim>\<open>waitpid\<close> stores (none when it fails), the
  registers \<^verbatim>\<open>PTRACE_GETREGS\<close> reads (none when it fails), and what the turn's calls to the outside
  meet: allocations, clock, files, pipes, the resolver, and opening the log.
\<close>

record observer_turn =
  turn_continues :: bool
  turn_status :: "32 word option"
  turn_regs :: "user_regs_struct option"
  turn_mem :: "nat \<Rightarrow> bool"
  turn_clock :: "string \<times> nat"
  turn_procfs :: "string \<Rightarrow> string option"
  turn_popen :: "string \<Rightarrow> string option"
  turn_native :: "32 word"
  turn_resolve :: "32 word \<Rightarrow> int \<Rightarrow> string option"
  turn_opens :: bool

record observer_state =
  wait_status :: "32 word"
  observer_log :: log_state

text \<open>
  Still in the loop; returned, with the content of the log after \<^verbatim>\<open>logger_close\<close>; or the process
  exited after killing the traced program, with the log as it was.
\<close>

datatype observing = Observing observer_state | Returned string | Exited string

definition observed_violation :: "int \<Rightarrow> observer_turn \<Rightarrow> user_regs_struct \<Rightarrow> SeccompViolation outcome" where
  "observed_violation pid t regs =
     obind (get_timestamp (turn_mem t) (fst (turn_clock t)) (snd (turn_clock t))) (\<lambda>time_string.
     obind (get_source_location (turn_mem t) (turn_procfs t) (turn_popen t) pid (reg_rip regs)) (\<lambda>info.
     obind (ub_unless info) (\<lambda>info.
       Ret (violation_of pid regs (syscall_name_resolver (turn_resolve t) (turn_native t) (orig_rax regs))
              info time_string))))"

definition handle_stop ::
    "int \<Rightarrow> string option \<Rightarrow> observer_turn \<Rightarrow> user_regs_struct \<Rightarrow> log_state \<Rightarrow> log_state outcome" where
  "handle_stop pid logfile t regs lg =
     obind (observed_violation pid t regs) (\<lambda>sv.
     obind (log_seccomp_violation (turn_mem t) (turn_opens t) logfile (Some sv) (Some lg)) (\<lambda>(rc, lg').
       ub_unless lg'))"

definition observer_step :: "int \<Rightarrow> string option \<Rightarrow> observer_turn \<Rightarrow> observer_state \<Rightarrow> observing outcome" where
  "observer_step pid logfile t s =
     (let lg = observer_log s;
          closed_log = Returned (snd (logger_close (turn_opens t) logfile (log_content lg)));
          status = (case turn_status t of None \<Rightarrow> wait_status s | Some w \<Rightarrow> w)
      in if \<not> turn_continues t then Ret (Exited (log_content lg))
         else if WIFEXITED status \<or> WIFSIGNALED status then Ret closed_log
         else if seccomp_stop status then
           (case turn_regs t of
              None \<Rightarrow> Ret closed_log
            | Some regs \<Rightarrow>
                obind (handle_stop pid logfile t regs lg) (\<lambda>lg'.
                  Ret (Observing \<lparr> wait_status = status, observer_log = lg' \<rparr>)))
         else Ret (Observing \<lparr> wait_status = status, observer_log = lg \<rparr>))"

text \<open>The loop over the turns to come; it may need more turns than there are.\<close>

fun observer_loop :: "int \<Rightarrow> string option \<Rightarrow> observer_turn list \<Rightarrow> observer_state \<Rightarrow> observing outcome" where
  "observer_loop pid logfile [] s = Ret (Observing s)"
| "observer_loop pid logfile (t # ts) s =
     obind (observer_step pid logfile t s) (\<lambda>r. case r of
       Observing s' \<Rightarrow> observer_loop pid logfile ts s'
     | _ \<Rightarrow> Ret r)"

text \<open>The call from \<^verbatim>\<open>main\<close>: the flag starts at 1, \<open>content\<close> is what the log file holds already.\<close>

definition start_observing :: "32 word \<Rightarrow> string \<Rightarrow> observer_state" where
  "start_observing status content =
     \<lparr> wait_status = status, observer_log = \<lparr> first_in_array = True, log_content = content \<rparr> \<rparr>"

text \<open>The same as a step relation: the states the loop can be in after some turns.\<close>

inductive observes ::
    "int \<Rightarrow> string option \<Rightarrow> observer_state \<Rightarrow> observer_turn list \<Rightarrow> observer_state \<Rightarrow> bool"
  for pid :: int and logfile :: "string option" and s :: observer_state
where
  started: "observes pid logfile s [] s"
| turned: "observes pid logfile s (ts @ [t]) s''"
    if "observes pid logfile s ts s'" and "observer_step pid logfile t s' = Ret (Observing s'')"

end
