(* ===== verification/Main_Program.thy ===== *)
theory Main_Program
  imports Split_Command Ctx_Build Observer
begin

text \<open>
  \<^verbatim>\<open>main\<close> of \<^verbatim>\<open>src/main.c\<close>: the command line, the profile, the filter, and the two processes
  after \<^verbatim>\<open>fork\<close>. What the system and libseccomp answer is one record.
\<close>

section \<open>The command line\<close>

text \<open>
  What \<^verbatim>\<open>getopt_long\<close> returns for \<^verbatim>\<open>OPTSTR\<close> and \<^verbatim>\<open>long_options\<close>: an option with its argument, or \<open>?\<close>
  for an unknown or ambiguous option and a missing or unwanted argument.
\<close>

datatype opt_result = OptTarget string | OptProfile string | OptLog string | OptHelp | OptBad

definition long_names :: "string list" where
  "long_names = [''target'', ''profile'', ''log'', ''help'']"

definition opt_with_argument :: "string \<Rightarrow> string \<Rightarrow> opt_result" where
  "opt_with_argument l v =
     (if l = ''target'' then OptTarget v else if l = ''profile'' then OptProfile v else OptLog v)"

text \<open>
  A long option \<open>--name\<close> or \<open>--name=value\<close>, the name possibly abbreviated; \<open>rest\<close> is the words
  after it. The result and the words left.
\<close>

definition long_option :: "string \<Rightarrow> string list \<Rightarrow> opt_result \<times> string list" where
  "long_option body rest =
     (let name = takeWhile (\<lambda>c. c \<noteq> CHR ''='') body;
          given = (length name < length body);
          v = drop (length name + 1) body
      in case filter (\<lambda>l. take (length name) l = name) long_names of
           [l] \<Rightarrow> if l = ''help'' then (if given then OptBad else OptHelp, rest)
                  else if given then (opt_with_argument l v, rest)
                  else (case rest of [] \<Rightarrow> (OptBad, []) | v # rest \<Rightarrow> (opt_with_argument l v, rest))
         | _ \<Rightarrow> (OptBad, rest))"

text \<open>A short option \<open>-c\<close> with \<open>body\<close> after the letter. \<open>-h\<close> and an unknown letter end the program at once.\<close>

definition short_option :: "char \<Rightarrow> string \<Rightarrow> string list \<Rightarrow> opt_result \<times> string list" where
  "short_option c body rest =
     (if c = CHR ''h'' then (OptHelp, rest)
      else if c \<noteq> CHR ''t'' \<and> c \<noteq> CHR ''p'' \<and> c \<noteq> CHR ''l'' then (OptBad, rest)
      else let l = (if c = CHR ''t'' then ''target'' else if c = CHR ''p'' then ''profile'' else ''log'')
           in if body \<noteq> [] then (opt_with_argument l body, rest)
              else (case rest of [] \<Rightarrow> (OptBad, []) | v # rest \<Rightarrow> (opt_with_argument l v, rest)))"

lemma option_words [termination_simp]:
  "long_option body rest = (r, ws) \<Longrightarrow> length ws \<le> length rest"
  "short_option c body rest = (r, ws) \<Longrightarrow> length ws \<le> length rest"
  by (auto simp: long_option_def short_option_def Let_def split: if_splits list.splits)

text \<open>
  The results of the calls of \<^verbatim>\<open>getopt_long\<close> in order, and the words that are no options, which it
  moves behind them; \<open>--\<close> ends the options.
\<close>

function getopt_scan :: "string list \<Rightarrow> opt_result list \<times> string list" where
  "getopt_scan [] = ([], [])"
| "getopt_scan (w # rest) =
     (if w = ''--'' then ([], rest)
      else if take 2 w = ''--'' then
        (case long_option (drop 2 w) rest of (r, ws) \<Rightarrow>
          (case getopt_scan ws of (rs, ns) \<Rightarrow> (r # rs, ns)))
      else if take 1 w = ''-'' \<and> 1 < length w then
        (case short_option (w ! 1) (drop 2 w) rest of (r, ws) \<Rightarrow>
          (case getopt_scan ws of (rs, ns) \<Rightarrow> (r # rs, ns)))
      else (case getopt_scan rest of (rs, ns) \<Rightarrow> (rs, w # ns)))"
  by pat_completeness auto

termination
  by (relation "measure length") (auto dest: option_words [OF sym])

record options =
  target_binary :: "string option"
  json_profile :: "string option"
  logfile :: "string option"

definition no_options :: options where
  "no_options = \<lparr> target_binary = None, json_profile = None, logfile = None \<rparr>"

fun read_options :: "opt_result list \<Rightarrow> options \<Rightarrow> options proc" where
  "read_options [] opts = pret opts"
| "read_options (OptTarget s # rs) opts =
     (if target_binary opts \<noteq> None then exit_with EXIT_FAILURE
      else read_options rs (opts\<lparr> target_binary := Some s \<rparr>))"
| "read_options (OptProfile s # rs) opts =
     (if json_profile opts \<noteq> None then exit_with EXIT_FAILURE
      else read_options rs (opts\<lparr> json_profile := Some s \<rparr>))"
| "read_options (OptLog s # rs) opts =
     (if logfile opts \<noteq> None then exit_with EXIT_FAILURE
      else read_options rs (opts\<lparr> logfile := Some s \<rparr>))"
| "read_options (OptHelp # rs) opts = exit_with EXIT_SUCCESS"
| "read_options (OptBad # rs) opts = exit_with EXIT_FAILURE"

text \<open>\<open>args\<close> is \<^verbatim>\<open>argv\<close> after the name of the program. The target, the profile and the log.\<close>

definition command_line :: "string list \<Rightarrow> (string \<times> string \<times> string) proc" where
  "command_line args =
     (case getopt_scan args of (rs, ns) \<Rightarrow>
        pbind (read_options rs no_options) (\<lambda>opts.
          if ns \<noteq> [] then exit_with EXIT_FAILURE
          else case (target_binary opts, json_profile opts, logfile opts) of
                 (Some t, Some p, Some l) \<Rightarrow> pret (t, p, l)
               | _ \<Rightarrow> exit_with EXIT_FAILURE))"

section \<open>The processes\<close>

text \<open>
  The world of one run: memory, the profile file by path, what \<^verbatim>\<open>uname\<close> and \<^verbatim>\<open>/proc/self/status\<close>
  say, libseccomp, the values the two uninitialised structures happen to have, and the results
  of the calls after the set-up.
\<close>

record 'c world =
  w_mem :: "nat \<Rightarrow> bool"
  w_files :: "string \<Rightarrow> file_io"
  w_uname :: "(string \<times> string) option"
  w_status :: "string option"
  w_seccomp :: "'c seccomp"
  w_profile :: SeccompProfile
  w_runtime :: SeccompRuntimeContext
  w_fork :: int
  w_traceme :: bool
  w_load :: "'c \<Rightarrow> int"
  w_execve :: bool
  w_first_wait :: "32 word"
  w_setoptions :: bool
  w_log :: "string \<Rightarrow> string"
  w_turns :: "observer_turn list"

text \<open>What the child does, in order.\<close>

datatype 'c child_action =
    TraceMe | RaiseTrap | LoadFilter 'c | FreeFilter 'c | Execve "string option list" | ChildExit int

definition child :: "'c world \<Rightarrow> 'c \<Rightarrow> string option list \<Rightarrow> 'c child_action list" where
  "child w ctx argv =
     (if \<not> w_traceme w then [TraceMe, ChildExit EXIT_FAILURE]
      else [TraceMe, RaiseTrap, LoadFilter ctx]
        @ (if w_load w ctx < 0 then [ChildExit EXIT_FAILURE]
           else [FreeFilter ctx, Execve argv] @ (if w_execve w then [] else [ChildExit EXIT_FAILURE])))"

text \<open>
  The end of a run: the exit of the tracer before or instead of tracing, the actions of the
  child, or what became of the observer loop.
\<close>

datatype 'c run_end = MainExit int | ChildRan "'c child_action list" | Traced observing

definition parent :: "'c world \<Rightarrow> int \<Rightarrow> string \<Rightarrow> 'c run_end outcome" where
  "parent w pid l =
     (if \<not> w_setoptions w then Ret (MainExit EXIT_FAILURE)
      else obind (observer_loop pid (Some l) (w_turns w) (start_observing (w_first_wait w) (w_log w l)))
             (\<lambda>r. Ret (Traced r)))"

definition set_up :: "'c world \<Rightarrow> string \<Rightarrow> string \<Rightarrow> ('c \<times> string option list) proc" where
  "set_up w t p =
     obind (parse_JSON (w_mem w) (Some (w_files w p)) (Some (w_profile w))) (\<lambda>(rc, profile).
     if rc < 0 then exit_with EXIT_FAILURE
     else obind (build_runtime_context (w_mem w) (w_uname w) (w_status w) (Some (w_runtime w))) (\<lambda>(rc, runtime_ctx).
     if rc < 0 then exit_with EXIT_FAILURE
     else obind (build_seccomp_context (w_seccomp w) (w_mem w) profile runtime_ctx) (\<lambda>b. case b of
       Built ctx \<Rightarrow> pbind (split_command (w_mem w) t) (\<lambda>target_argv. pret (ctx, target_argv))
     | _ \<Rightarrow> exit_with EXIT_FAILURE)))"

definition main :: "'c world \<Rightarrow> string list \<Rightarrow> 'c run_end outcome" where
  "main w args =
     obind (pbind (command_line args) (\<lambda>(t, p, l). pbind (set_up w t p) (\<lambda>(ctx, argv). pret (ctx, argv, l))))
       (\<lambda>r. case r of
          Inl e \<Rightarrow> Ret (MainExit e)
        | Inr (ctx, argv, l) \<Rightarrow>
            if w_fork w < 0 then Ret (MainExit EXIT_FAILURE)
            else if w_fork w = 0 then Ret (ChildRan (child w ctx argv))
            else parent w (w_fork w) l)"

end
