(* ===== verification/Ctx_Spec.thy ===== *)
theory Ctx_Spec
  imports Ctx_Build Profile_Spec
begin

text \<open>
  What the filter builder promises: the calls it makes to libseccomp as a flat plan, the meaning
  of the three filter conditions, and the contexts \<^verbatim>\<open>build_runtime_context\<close> can return.
\<close>

section \<open>Kernel versions\<close>

datatype kernel_version = Kernel (major: "32 word") (minor: "32 word")

instantiation kernel_version :: linorder
begin

definition less_eq_kernel_version :: "kernel_version \<Rightarrow> kernel_version \<Rightarrow> bool" where
  "less_eq_kernel_version v w \<longleftrightarrow> major v < major w \<or> (major v = major w \<and> minor v \<le> minor w)"

definition less_kernel_version :: "kernel_version \<Rightarrow> kernel_version \<Rightarrow> bool" where
  "less_kernel_version v w \<longleftrightarrow> v \<le> w \<and> v \<noteq> w"

instance
proof
  fix u v w :: kernel_version
  show "u < v \<longleftrightarrow> u \<le> v \<and> \<not> v \<le> u" "u \<le> v \<Longrightarrow> v \<le> u \<Longrightarrow> u = v"
    by (cases u; cases v; auto simp: less_eq_kernel_version_def less_kernel_version_def)+
  show "u \<le> u" "u \<le> v \<or> v \<le> u"
    by (cases u; cases v; auto simp: less_eq_kernel_version_def)+
  show "u \<le> v \<Longrightarrow> v \<le> w \<Longrightarrow> u \<le> w"
    by (cases u; cases v; cases w; auto simp: less_eq_kernel_version_def)
qed

end

definition running_kernel :: "SeccompRuntimeContext \<Rightarrow> kernel_version" where
  "running_kernel ctx = Kernel (kernel_major ctx) (kernel_minor ctx)"

text \<open>A version text: two decimals with a dot between them, and anything that does not continue the second.\<close>

definition version_text :: "nat \<Rightarrow> nat \<Rightarrow> string \<Rightarrow> string" where
  "version_text a b rest = dec_str a @ ''.'' @ dec_str b @ rest"

lemma scan_u_dec_str:
  assumes "n < 2 ^ 32" and "r = [] \<or> \<not> isdigit (hd r)"
  shows "scan_u (dec_str n @ r) = Ret (Some (n, r))"
proof -
  obtain c t where d: "dec_str n = c # t" "isdigit c" using dec_str_starts by blast
  have c: "\<not> isspace c" "c \<noteq> CHR ''-''" "c \<noteq> CHR ''+''" using d(2) by (auto simp: isspace_def isdigit_def)
  have t: "takeWhile isdigit (dec_str n @ r) = dec_str n"
    using dec_str_digits [of n] assms(2) by (cases r) (auto simp: list_all_iff takeWhile_append)
  have dw: "dropWhile isdigit (dec_str n @ r) = r"
    using dec_str_digits [of n] assms(2) by (cases r) (auto simp: list_all_iff dropWhile_append)
  have sk: "skip_ws (dec_str n @ r) = dec_str n @ r" using c by (simp add: d)
  have h: "hd (dec_str n @ r) = c" "dec_str n @ r \<noteq> []" by (simp_all add: d)
  show ?thesis
    using c assms(1) unfolding scan_u_def Let_def sk h by (simp add: t dw)
qed

lemma sscanf_version:
  assumes "a < 2 ^ 32" and "b < 2 ^ 32" and "rest = [] \<or> \<not> isdigit (hd rest)"
  shows "sscanf_u_dot_u (version_text a b rest) = Ret (Some (a, b))"
proof -
  have "scan_u (dec_str a @ ''.'' @ dec_str b @ rest) = Ret (Some (a, ''.'' @ dec_str b @ rest))"
    using assms(1) by (intro scan_u_dec_str) (simp_all add: isdigit_def)
  moreover have "scan_u (dec_str b @ rest) = Ret (Some (b, rest))" using assms(2,3) by (rule scan_u_dec_str)
  ultimately show ?thesis by (simp add: sscanf_u_dot_u_def version_text_def)
qed

text \<open>
  C12. The kernel condition of a filter is the order on kernel versions: a minimum of the form
  \<open>major.minor\<close> (with any tail, as in \<open>4.8.0-rc1\<close>) holds exactly when that version is at most
  the running one, major before minor, both as 32-bit numbers.
\<close>

theorem kernel_matches_order:
  assumes "a < 2 ^ 32" and "b < 2 ^ 32" and "rest = [] \<or> \<not> isdigit (hd rest)"
  shows "kernel_matches (Some (version_text a b rest)) (Some ctx)
           = Ret (Kernel (word_of_nat a) (word_of_nat b) \<le> running_kernel ctx)"
proof -
  have "version_text a b rest \<noteq> []" by (simp add: version_text_def)
  then show ?thesis
    using sscanf_version [OF assms]
    by (auto simp: kernel_matches_def less_eq_kernel_version_def running_kernel_def)
qed

theorem kernel_matches_order_witness:
  "kernel_matches (Some (version_text 4 8 ''-rc1''))
     (Some \<lparr> current_arch = None, held_caps = None, kernel_major = 5, kernel_minor = 0 \<rparr>) = Ret True"
  by (subst kernel_matches_order) (simp_all add: isdigit_def less_eq_kernel_version_def running_kernel_def)

section \<open>Capabilities\<close>

lemma cap_found_named: "cap_found (Some c) held = Ret (Some c \<in> set held)"
proof (induction held)
  case (Cons h held)
  then show ?case by (cases h) auto
qed simp

lemma all_caps_found_named:
  "list_all (\<lambda>c. c \<noteq> None) caps \<Longrightarrow> all_caps_found caps held = Ret (set caps \<subseteq> set held)"
  by (induction caps) (auto simp: cap_found_named)


definition set_bits_below_64 :: "64 word \<Rightarrow> nat list" where
  "set_bits_below_64 w = filter (bit w) [0..<64]"

lemma held_caps_built:
  assumes "build_held_caps mok (Some content) ctx = (0, ctx')" and "cap_eff_line content = Some eff"
    and "held_caps ctx = None"
  shows "held_caps ctx' = (if set_bits_below_64 eff = [] then None
                           else Some (map (\<lambda>i. Some (cap_name i)) (set_bits_below_64 eff)))"
  using assms
  by (auto simp: build_held_caps_def set_bits_below_64_def ENOMEM_def Let_def simp del: filter_empty_conv
      split: if_splits)

lemma runtime_context_cases:
  assumes "build_runtime_context mok uts status (Some c0) = Ret (rc, r)"
  obtains (failed) "rc \<in> {- EIO, - ENOMEM}" "r = Some zero_runtime_context"
  | (built) machine release ctx where "rc = 0" "r = Some ctx" "uts = Some (machine, release)"
      "current_arch ctx = Some (arch_of_machine machine)"
      "build_held_caps mok status (ctx\<lparr> held_caps := None \<rparr>) = (0, ctx)"
      "\<exists>v. sscanf_u_dot_u release = Ret v \<and> running_kernel ctx = (case v of None \<Rightarrow> Kernel 0 0
         | Some (a, b) \<Rightarrow> Kernel (word_of_nat a) (word_of_nat b))"
proof (cases uts)
  case None
  then show ?thesis using assms failed by (simp add: build_runtime_context_def)
next
  case (Some u)
  obtain machine release where u: "u = (machine, release)" by (cases u)
  show ?thesis
  proof (cases "mok (length (arch_of_machine machine) + 1)")
    case False
    then show ?thesis using assms failed Some u by (simp add: build_runtime_context_def)
  next
    case True
    from assms obtain v where v: "sscanf_u_dot_u release = Ret v"
      using Some u True by (cases "sscanf_u_dot_u release") (auto simp: build_runtime_context_def)
    obtain a b where ab: "(case v of None \<Rightarrow> (0, 0) | Some mm \<Rightarrow> mm) = (a, b)" by (meson surj_pair)
    let ?c = "zero_runtime_context\<lparr> current_arch := Some (arch_of_machine machine),
                kernel_major := word_of_nat a, kernel_minor := word_of_nat b \<rparr>"
    obtain ret c2 where h: "build_held_caps mok status ?c = (ret, c2)" by (meson surj_pair)
    have e: "build_runtime_context mok uts status (Some c0)
        = Ret (if ret \<noteq> 0 then (ret, Some zero_runtime_context) else (0, Some c2))"
      using True by (simp add: build_runtime_context_def Some u v ab h free_runtime_context_def Let_def)
    show ?thesis
    proof (cases "ret = 0")
      case True
      have c2: "c2\<lparr> held_caps := None \<rparr> = ?c"
        using h True by (auto simp: build_held_caps_def zero_runtime_context_def EIO_def ENOMEM_def Let_def
            split: option.splits if_splits)
      have "current_arch c2 = current_arch (c2\<lparr> held_caps := None \<rparr>)"
        "running_kernel c2 = running_kernel (c2\<lparr> held_caps := None \<rparr>)" by (simp_all add: running_kernel_def)
      moreover have "(case v of None \<Rightarrow> Kernel 0 0 | Some (a, b) \<Rightarrow> Kernel (word_of_nat a) (word_of_nat b))
          = Kernel (word_of_nat a) (word_of_nat b)" using ab by (cases v) auto
      moreover have "rc = 0" "r = Some c2" using e assms True by simp_all
      ultimately show ?thesis
        using h True Some u v c2 by (intro built [of c2 machine release]) (simp_all add: running_kernel_def)
    next
      case False
      then have "ret \<in> {- EIO, - ENOMEM}"
        using h by (auto simp: build_held_caps_def Let_def split: option.splits if_splits)
      then show ?thesis using failed e assms False by simp
    qed
  qed
qed

text \<open>
  What \<^verbatim>\<open>build_runtime_context\<close> leaves: with code 0 the architecture name of the machine, the
  version of the kernel release (0.0 when it does not read as one); any other code is
  \<^verbatim>\<open>-EIO\<close> or \<^verbatim>\<open>-ENOMEM\<close> and the context is all zero, nothing half built.
\<close>

theorem runtime_context_results:
  assumes "build_runtime_context mok uts status (Some c0) = Ret (rc, r)"
  shows "\<exists>ctx. r = Some ctx \<and>
    (rc = 0 \<and> (\<exists>machine release. uts = Some (machine, release)
        \<and> current_arch ctx = Some (arch_of_machine machine)
        \<and> (\<forall>a b. sscanf_u_dot_u release = Ret (Some (a, b)) \<longrightarrow> running_kernel ctx = Kernel (word_of_nat a) (word_of_nat b)))
     \<or> rc \<in> {- EIO, - ENOMEM} \<and> ctx = zero_runtime_context)"
  using assms by (rule runtime_context_cases) auto

text \<open>
  C13. The capability condition, for a context \<^verbatim>\<open>build_runtime_context\<close> built: it holds when every
  named capability is \<open>CAP_i\<close> for the number \<open>i\<close> of a bit set in the effective set. Capabilities
  by their usual names are never held: \<open>CAP_SYS_ADMIN\<close> is not \<open>CAP_21\<close>, so a rule that includes
  on it never applies and one that excludes on it always does, also for root.
\<close>

theorem caps_match_meaning:
  assumes "build_runtime_context mok uts (Some content) (Some c0) = Ret (0, Some ctx)"
    and "cap_eff_line content = Some eff" and "list_all (\<lambda>c. c \<noteq> None) caps"
  shows "caps_match caps (Some ctx) = Ret (\<forall>c\<in>set caps. \<exists>i<64. bit eff i \<and> c = Some (cap_name i))"
  using assms(1)
proof (cases rule: runtime_context_cases)
  case failed
  then show ?thesis by (simp add: EIO_def ENOMEM_def)
next
  case (built machine release ctx')
  have held: "held_caps ctx = (if set_bits_below_64 eff = [] then None
      else Some (map (\<lambda>i. Some (cap_name i)) (set_bits_below_64 eff)))"
    using held_caps_built [OF _ assms(2)] built by simp
  have bits: "i \<in> set (set_bits_below_64 eff) \<longleftrightarrow> i < 64 \<and> bit eff i" for i by (auto simp: set_bits_below_64_def)
  let ?named = "\<lambda>c. \<exists>i<64. bit eff i \<and> c = Some (cap_name i)"
  show ?thesis
  proof (cases "set_bits_below_64 eff = []")
    case True
    then have "\<not> ?named c" for c using bits by auto
    then show ?thesis using held True by (cases caps) (auto simp: caps_match_def)
  next
    case False
    have "c \<in> set (map (\<lambda>i. Some (cap_name i)) (set_bits_below_64 eff)) \<longleftrightarrow> ?named c" for c
      by (auto simp: set_bits_below_64_def)
    then have "set caps \<subseteq> set (map (\<lambda>i. Some (cap_name i)) (set_bits_below_64 eff)) \<longleftrightarrow> (\<forall>c\<in>set caps. ?named c)"
      unfolding subset_iff by blast
    then show ?thesis using held False all_caps_found_named [OF assms(3)] by (auto simp: caps_match_def)
  qed
qed

lemma usual_name_not_numbered: "\<not> list_all isdigit s \<Longrightarrow> ''CAP_'' @ s \<noteq> cap_name i"
  using dec_str_digits [of i] by (auto simp: cap_name_def)

lemma held_caps_succeed:
  assumes "cap_eff_line content = Some eff"
  obtains c where "build_held_caps (\<lambda>_. True) (Some content) ctx = (0, c)"
  using assms that by (cases "filter (bit eff) [0..<64] = []") (auto simp: build_held_caps_def list_ex_iff Let_def)

theorem runtime_context_results_witness:
  "\<exists>ctx. build_runtime_context (\<lambda>n. n < 8) (Some (''riscv64'', ''6.1'')) None
      (Some zero_runtime_context) = Ret (- 12, Some ctx) \<and> ctx = zero_runtime_context"
proof -
  have e: "build_runtime_context (\<lambda>n. n < 8) (Some (''riscv64'', ''6.1'')) None (Some zero_runtime_context)
      = Ret (- 12, Some zero_runtime_context)"
    by (simp add: build_runtime_context_def arch_of_machine_def ENOMEM_def)
  show ?thesis using runtime_context_results [OF e] e by auto
qed

theorem caps_match_meaning_witness:
  "\<exists>ctx. build_runtime_context (\<lambda>_. True) (Some (''x86_64'', version_text 5 15 ''.0''))
      (Some (''CapEff:'' @ [CHR 0x09] @ ''000001ffffffffff'' @ [CHR 0x0A])) (Some zero_runtime_context)
        = Ret (0, Some ctx)
    \<and> caps_match [Some ''CAP_SYS_ADMIN''] (Some ctx) = Ret False"
proof -
  let ?content = "''CapEff:'' @ [CHR 0x09] @ ''000001ffffffffff'' @ [CHR 0x0A]"
  obtain eff where eff: "cap_eff_line ?content = Some eff"
    by (subst (asm) cap_eff_line.simps) (simp add: fgets_line_def Let_def)
  have v: "sscanf_u_dot_u (version_text 5 15 ''.0'') = Ret (Some (5, 15))"
    by (rule sscanf_version) (simp_all add: isdigit_def)
  obtain ctx where ctx: "build_runtime_context (\<lambda>_. True) (Some (''x86_64'', version_text 5 15 ''.0''))
      (Some ?content) (Some zero_runtime_context) = Ret (0, Some ctx)"
  proof -
    let ?c = "zero_runtime_context\<lparr> current_arch := Some (arch_of_machine ''x86_64''),
                kernel_major := word_of_nat 5, kernel_minor := word_of_nat 15 \<rparr>"
    obtain c where "build_held_caps (\<lambda>_. True) (Some ?content) ?c = (0, c)" by (rule held_caps_succeed [OF eff])
    then show thesis using v by (intro that [of c]) (simp add: build_runtime_context_def Let_def)
  qed
  moreover have "''CAP_SYS_ADMIN'' \<noteq> cap_name i" for i
    using usual_name_not_numbered [of "''SYS_ADMIN''" i] by (simp add: isdigit_def)
  ultimately show ?thesis using caps_match_meaning [OF ctx eff, of "[Some ''CAP_SYS_ADMIN'']"] by auto
qed


text \<open>A status file without effective capabilities.\<close>

lemma no_caps_line: "cap_eff_line (''CapEff:0'' @ [CHR 0x0A]) = Some 0"
proof -
  have "hex_val ''0'' = 0" "is_xdigit CHR ''0''" "\<not> is_xdigit CHR 0x0A"
    by (simp_all add: hex_val_def is_xdigit_def xdigit_val_def)
  then have "strtoull16 (''0'' @ [CHR 0x0A]) = 0"
    by (simp add: strtoull16_def istarts_def isspace_def tolower_def Let_def)
  then show ?thesis by (subst cap_eff_line.simps) (simp add: fgets_line_def)
qed

section \<open>The plan of calls\<close>

text \<open>
  The specification of the builder: the calls to libseccomp it has to make, in order, from the
  profile and the running system, and an interpreter that makes them and stops at the first
  that fails (an architecture that is there already is no failure).
\<close>

datatype scmp_call =
    ArchAdd "32 word" | RuleAdd "32 word" int | RuleAddArray "32 word" int "scmp_arg_cmp list"

fun do_call :: "'c seccomp \<Rightarrow> scmp_call \<Rightarrow> 'c \<Rightarrow> int \<times> 'c" where
  "do_call lib (ArchAdd a) c = seccomp_arch_add lib c a"
| "do_call lib (RuleAdd act i) c = seccomp_rule_add lib c act i"
| "do_call lib (RuleAddArray act i cmps) c = seccomp_rule_add_array lib c act i cmps"

fun call_failed :: "scmp_call \<Rightarrow> int \<Rightarrow> bool" where
  "call_failed (ArchAdd a) rc \<longleftrightarrow> rc \<noteq> 0 \<and> rc \<noteq> - EEXIST"
| "call_failed _ rc \<longleftrightarrow> rc \<noteq> 0"

fun run_calls :: "'c seccomp \<Rightarrow> scmp_call list \<Rightarrow> 'c \<Rightarrow> 'c + 'c" where
  "run_calls lib [] c = Inr c"
| "run_calls lib (k # ks) c =
     (case do_call lib k c of (rc, c') \<Rightarrow> if call_failed k rc then Inl c' else run_calls lib ks c')"

definition arch_calls :: "'c seccomp \<Rightarrow> SeccompProfile \<Rightarrow> scmp_call list" where
  "arch_calls lib p =
     concat (map (\<lambda>m. map (\<lambda>n. ArchAdd (map_arch_string lib n)) (map_architecture m # map_sub_architectures m))
       (profile_arch_map p))"

definition applies :: "SeccompRuntimeContext \<Rightarrow> SeccompSyscallRule \<Rightarrow> bool" where
  "applies rt r \<longleftrightarrow> rule_applies (Some r) (Some rt) = Ret True"

definition name_calls :: "'c seccomp \<Rightarrow> int \<Rightarrow> SeccompSyscallRule \<Rightarrow> string option \<Rightarrow> scmp_call list" where
  "name_calls lib e r n =
     (let i = seccomp_syscall_resolve_name lib n; act = resolve_rule_action lib r i e
      in if i = NR_SCMP_ERROR lib then []
         else if rule_args r = [] then [RuleAdd act i]
         else [RuleAddArray act i (map arg_cmp (rule_args r))])"

definition rule_calls :: "'c seccomp \<Rightarrow> SeccompProfile \<Rightarrow> SeccompRuntimeContext \<Rightarrow> scmp_call list" where
  "rule_calls lib p rt =
     concat (map (\<lambda>r. concat (map (name_calls lib (profile_default_errno_ret p) r) (rule_names r)))
       (filter (applies rt) (profile_syscalls p)))"

definition planned :: "'c seccomp \<Rightarrow> SeccompProfile \<Rightarrow> SeccompRuntimeContext \<Rightarrow> 'c built" where
  "planned lib p rt =
     (case seccomp_init lib (map_action_string lib (profile_default_action p) (profile_default_errno_ret p)) of
        None \<Rightarrow> Null
      | Some c \<Rightarrow> (case run_calls lib (arch_calls lib p @ rule_calls lib p rt) c of
          Inl c \<Rightarrow> Released c | Inr c \<Rightarrow> Built c))"

text \<open>No null names, every filter decided (see the kernel and capability conditions), and room for the comparisons.\<close>

definition names_given :: "SeccompProfile \<Rightarrow> bool" where
  "names_given p \<longleftrightarrow>
     list_all (\<lambda>m. list_all (\<lambda>n. n \<noteq> None) (map_architecture m # map_sub_architectures m)) (profile_arch_map p)
     \<and> list_all (\<lambda>r. list_all (\<lambda>n. n \<noteq> None) (rule_names r)) (profile_syscalls p)"

definition rule_ready :: "'c seccomp \<Rightarrow> (nat \<Rightarrow> bool) \<Rightarrow> SeccompRuntimeContext \<Rightarrow> SeccompSyscallRule \<Rightarrow> bool" where
  "rule_ready lib mok rt r \<longleftrightarrow>
     rule_applies (Some r) (Some rt) \<in> {Ret True, Ret False}
     \<and> length (rule_args r) \<le> UINT_MAX \<and> mok (length (rule_args r) * sizeof_arg_cmp lib)"

lemma run_calls_append:
  "run_calls lib (ks @ ls) c = (case run_calls lib ks c of Inl c \<Rightarrow> Inl c | Inr c \<Rightarrow> run_calls lib ls c)"
  by (induction lib ks c rule: run_calls.induct) (auto split: prod.split)

lemma building_all_calls:
  assumes "\<And>x c. x \<in> set xs \<Longrightarrow> f x c = Ret (run_calls lib (calls x) c)"
  shows "building_all f xs c = Ret (run_calls lib (concat (map calls xs)) c)"
  using assms
proof (induction xs arbitrary: c)
  case (Cons x xs)
  then have "f x c = Ret (run_calls lib (calls x) c)" by simp
  then show ?case
    using Cons by (cases "run_calls lib (calls x) c") (simp_all add: andthen_def run_calls_append)
qed simp

lemma add_arch_calls: "n \<noteq> None \<Longrightarrow> add_arch lib n c = Ret (run_calls lib [ArchAdd (map_arch_string lib n)] c)"
  by (auto simp: add_arch_def printed_def split: prod.split)

lemma add_arch_map_calls:
  assumes "list_all (\<lambda>n. n \<noteq> None) (map_architecture m # map_sub_architectures m)"
  shows "add_arch_map lib m c
    = Ret (run_calls lib (map (\<lambda>n. ArchAdd (map_arch_string lib n)) (map_architecture m # map_sub_architectures m)) c)"
proof -
  let ?ns = "map_architecture m # map_sub_architectures m"
  have "building_all (add_arch lib) ?ns c
      = Ret (run_calls lib (concat (map (\<lambda>n. [ArchAdd (map_arch_string lib n)]) ?ns)) c)"
    using assms by (intro building_all_calls add_arch_calls) (auto simp: list_all_iff)
  moreover have "add_arch_map lib m c = building_all (add_arch lib) ?ns c"
    using assms by (auto simp: add_arch_map_def printed_def Let_def)
  ultimately show ?thesis by (simp only: concat_map_singleton)
qed

lemma add_syscall_calls:
  assumes "n \<noteq> None" and "rule_ready lib mok rt r"
  shows "add_syscall lib mok e r n c = Ret (run_calls lib (name_calls lib e r n) c)"
  using assms
  by (auto simp: add_syscall_def name_calls_def add_arg_rule_def rule_ready_def printed_def Let_def split: prod.split)

lemma add_rule_calls:
  assumes "list_all (\<lambda>n. n \<noteq> None) (rule_names r)" and "rule_ready lib mok rt r"
  shows "add_rule lib mok e rt r c
    = Ret (run_calls lib (if applies rt r then concat (map (name_calls lib e r) (rule_names r)) else []) c)"
proof -
  have "building_all (add_syscall lib mok e r) (rule_names r) c
      = Ret (run_calls lib (concat (map (name_calls lib e r) (rule_names r))) c)"
    using assms by (intro building_all_calls add_syscall_calls) (auto simp: list_all_iff)
  then show ?thesis using assms(2) by (auto simp: add_rule_def applies_def rule_ready_def)
qed

lemma concat_map_if: "concat (map (\<lambda>x. if P x then f x else []) xs) = concat (map f (filter P xs))"
  by (induction xs) auto

lemma builder_plan:
  assumes "names_given p" and "list_all (rule_ready lib mok rt) (profile_syscalls p)"
  shows "build_seccomp_context lib mok (Some p) (Some rt) = Ret (planned lib p rt)"
proof -
  have arch: "building_all (add_arch_map lib) (profile_arch_map p) c = Ret (run_calls lib (arch_calls lib p) c)" for c
    unfolding arch_calls_def
    using assms(1) by (intro building_all_calls add_arch_map_calls) (auto simp: names_given_def list_all_iff)
  have rules: "building_all (add_rule lib mok (profile_default_errno_ret p) rt) (profile_syscalls p) c
      = Ret (run_calls lib (rule_calls lib p rt) c)" for c
    unfolding rule_calls_def concat_map_if [symmetric]
    using assms by (intro building_all_calls add_rule_calls) (auto simp: names_given_def list_all_iff)
  have "andthen (building_all (add_arch_map lib) (profile_arch_map p) c)
          (building_all (add_rule lib mok (profile_default_errno_ret p) rt) (profile_syscalls p))
      = Ret (run_calls lib (arch_calls lib p @ rule_calls lib p rt) c)" for c
    unfolding arch run_calls_append
    by (cases "run_calls lib (arch_calls lib p) c") (simp_all add: andthen_def rules)
  then show ?thesis
    by (auto simp: build_seccomp_context_def planned_def split: option.split)
qed

text \<open>
  C4. The filter built is the filter meant: the nested loops of \<^verbatim>\<open>build_seccomp_context\<close>, with
  their skips, error codes and \<^verbatim>\<open>goto fail\<close>, make exactly the calls of the flat plan: the default
  action, every architecture and sub-architecture in order, and one rule for every known
  system call name of every rule that applies. At the first failing call the context is
  released and the result is \<^verbatim>\<open>NULL\<close>. Conditions: no null name, decided filters, enough memory.
\<close>

theorem builder_follows_plan:
  assumes "names_given p" and "list_all (rule_ready lib mok rt) (profile_syscalls p)"
  shows "build_seccomp_context lib mok (Some p) (Some rt) = Ret (planned lib p rt)"
  using builder_plan [OF assms] .


text \<open>A library that accepts everything and records the calls, with the numbers of the kernel headers.\<close>

fun act_number :: "scmp_act \<Rightarrow> 32 word" where
  "act_number ACT_ALLOW = 0x7fff0000"
| "act_number (ACT_ERRNO e) = word_of_int (0x00050000 + e mod 65536)"
| "act_number ACT_KILL = 0"
| "act_number ACT_KILL_PROCESS = 0x80000000"
| "act_number ACT_KILL_THREAD = 0"
| "act_number ACT_TRAP = 0x00030000"
| "act_number (ACT_TRACE e) = word_of_int (0x7ff00000 + e mod 65536)"
| "act_number ACT_LOG = 0x7ffc0000"
| "act_number ACT_NOTIFY = 0x7fc00000"

definition arch_number :: "scmp_arch \<Rightarrow> 32 word" where
  "arch_number a = (case a of ARCH_NATIVE \<Rightarrow> 0 | ARCH_X86 \<Rightarrow> 0x40000003 | ARCH_X86_64 \<Rightarrow> 0xc000003e
     | ARCH_X32 \<Rightarrow> 0x4000003e | ARCH_AARCH64 \<Rightarrow> 0xc00000b7 | _ \<Rightarrow> 0xffff)"

definition recorder :: "scmp_call list seccomp" where
  "recorder = \<lparr> SCMP_ACT = act_number, SCMP_ARCH = arch_number, NR_SCMP_ERROR = - 1, sizeof_arg_cmp = 24,
     seccomp_init = (\<lambda>a. Some []), seccomp_arch_add = (\<lambda>c a. (0, c @ [ArchAdd a])),
     seccomp_syscall_resolve_name = (\<lambda>n. if n = Some ''read'' then 0 else if n = Some ''connect'' then 42 else - 1),
     seccomp_rule_add = (\<lambda>c a i. (0, c @ [RuleAdd a i])),
     seccomp_rule_add_array = (\<lambda>c a i xs. (0, c @ [RuleAddArray a i xs])) \<rparr>"

definition sample_rule :: "string option list \<Rightarrow> string option \<Rightarrow> SeccompSyscallRule" where
  "sample_rule ns a = \<lparr> rule_names = ns, rule_action = a, rule_include = None, rule_exclude = None,
     rule_args = [], rule_comment = None \<rparr>"

theorem builder_follows_plan_witness:
  "build_seccomp_context recorder (\<lambda>_. True)
     (Some \<lparr> profile_default_action = Some ''SCMP_ACT_ALLOW'', profile_default_errno_ret = 0,
        profile_arch_map = [\<lparr> map_architecture = Some ''SCMP_ARCH_X86_64'', map_sub_architectures = [Some ''SCMP_ARCH_X32''] \<rparr>],
        profile_syscalls = [sample_rule [Some ''connect'', Some ''nosuch'', Some ''read''] (Some ''SCMP_ACT_KILL'')] \<rparr>)
     (Some zero_runtime_context)
   = Ret (Built [ArchAdd 0xc000003e, ArchAdd 0x4000003e, RuleAdd 0x7ff00000 42, RuleAdd 0x7ff00000 0])"
  by (subst builder_follows_plan)
    (simp_all add: names_given_def rule_ready_def sample_rule_def rule_applies_def UINT_MAX_def planned_def
      arch_calls_def rule_calls_def applies_def name_calls_def recorder_def map_arch_string_def arch_of_string_def
      arch_number_def resolve_rule_action_def map_action_string_def)

section \<open>Actions\<close>

definition restrictive :: "string option \<Rightarrow> bool" where
  "restrictive a \<longleftrightarrow> a \<in> Some ` {''SCMP_ACT_ERRNO'', ''SCMP_ACT_KILL'', ''SCMP_ACT_KILL_PROCESS'', ''SCMP_ACT_KILL_THREAD'',
     ''SCMP_ACT_TRAP'', ''SCMP_ACT_TRACE'', ''SCMP_ACT_LOG'', ''SCMP_ACT_NOTIFY''}"

text \<open>
  C14. What a rule does to its system calls: the eight known restricting actions all become
  \<^verbatim>\<open>SCMP_ACT_TRACE(0)\<close>, so the tracer sees the call instead of the kernel refusing it. Everything
  else becomes \<^verbatim>\<open>SCMP_ACT_ALLOW\<close>: also a rule without an action and a misspelt one, so such
  rules fail open. Used of libseccomp: no other action has the number of \<^verbatim>\<open>SCMP_ACT_ALLOW\<close>.
\<close>

theorem rule_action_meaning:
  assumes "\<forall>a. SCMP_ACT lib a = SCMP_ACT lib ACT_ALLOW \<longleftrightarrow> a = ACT_ALLOW"
  shows "resolve_rule_action lib r i e
    = (if restrictive (rule_action r) then SCMP_ACT lib (ACT_TRACE 0) else SCMP_ACT lib ACT_ALLOW)"
  using assms
  by (cases "rule_action r") (auto simp: resolve_rule_action_def map_action_string_def restrictive_def Let_def)

theorem rule_action_meaning_witness:
  "resolve_rule_action (recorder\<lparr> SCMP_ACT := \<lambda>a. if a = ACT_ALLOW then 1 else 0 \<rparr>)
     (sample_rule [] (Some ''SCMP_ACT_KIL'')) 42 1 = 1"
  by (subst rule_action_meaning) (simp_all add: sample_rule_def restrictive_def)

text \<open>
  An architecture entry without a name (or with a name that is no string) is undefined
  behaviour, not an error: \<^verbatim>\<open>map_arch_string\<close> takes the null pointer for the native
  architecture, and the warning then printed hands it to \<^verbatim>\<open>%s\<close>.
\<close>

theorem nameless_architecture:
  assumes "profile_arch_map p = m # ms" and "map_architecture m = None"
    and "seccomp_init lib (map_action_string lib (profile_default_action p) (profile_default_errno_ret p)) \<noteq> None"
  shows "build_seccomp_context lib mok (Some p) (Some rt) = UB"
  using assms by (auto simp: build_seccomp_context_def add_arch_map_def map_arch_string_def printed_def andthen_def)

theorem nameless_architecture_witness:
  "build_seccomp_context recorder (\<lambda>_. True)
     (Some \<lparr> profile_default_action = Some ''SCMP_ACT_ALLOW'', profile_default_errno_ret = 0,
        profile_arch_map = [\<lparr> map_architecture = None, map_sub_architectures = [] \<rparr>], profile_syscalls = [] \<rparr>)
     (Some zero_runtime_context) = UB"
  by (rule nameless_architecture [of _ "\<lparr> map_architecture = None, map_sub_architectures = [] \<rparr>" "[]"])
    (simp_all add: recorder_def)

section \<open>Filters and memory\<close>

text \<open>
  C34. A filter lost for want of memory opens the rule: when the 40 bytes of a \<^verbatim>\<open>SeccompFilter\<close>
  cannot be allocated, \<^verbatim>\<open>parse_filter\<close> returns \<^verbatim>\<open>NULL\<close>, which is also what an absent filter is,
  and the parsed rule applies on every system, whatever its \<open>include\<close> and \<open>exclude\<close> say.
\<close>

theorem filter_lost_without_memory:
  assumes "\<not> mok 40" and "parse_rule mok ob = Ret (Inr r)"
  shows "rule_applies (Some r) rt = Ret True"
proof -
  have none: "parse_filter mok a = Ret None" for a using assms(1) by (simp add: parse_filter_def)
  have f: "\<exists>m. lift (obind (json_object_get_object (Some ob) k) (parse_filter mok)) = m
      \<and> (\<forall>x. m = Ret (Inr x) \<longrightarrow> x = None) \<and> (\<forall>e. m \<noteq> Ret (Inl e))" for k
    by (cases "json_object_get_object (Some ob) k") (simp_all add: none lift_def)
  have "rule_include r = None \<and> rule_exclude r = None"
    using assms(2) f [of "''include''"] f [of "''exclude''"]
    by (auto simp: parse_rule_def pbind_def elim!: obind_Ret_E split: sum.splits)
  then show ?thesis by (simp add: rule_applies_def)
qed


lemma empty_arrays:
  assumes "tidy (JObject ob)" and "t_list (t_get (json_abs (JObject ob)) k) = []"
  obtains a where "json_object_get_array (Some ob) k = Ret a" "json_array_get_count a = 0"
  using assms(2) by (rule_tac get_array_tree [OF assms(1), of k])
    (auto intro: that simp: json_array_get_count_def simp del: json_abs.simps split: option.splits)

theorem filter_lost_without_memory_witness:
  "\<exists>ob r. t_get (json_abs (JObject ob)) ''include'' = Some (TObject [])
     \<and> parse_rule (\<lambda>n. n < 40) ob = Ret (Inr r) \<and> rule_applies (Some r) None = Ret True"
proof -
  let ?t = "TObject [(''include'', TObject [])]"
  let ?s = "json_serialize_r False False 0 (json_of ?t)"
  let ?mok = "\<lambda>m. m < (2 :: nat) ^ 34" and ?low = "\<lambda>n. n < (40 :: nat)"
  have "length ?s < 100" by (simp add: json_serialize_string_def serialize_char_def APPEND_INDENT_def newline_def)
  then have sv: "serves ?mok (24 * length ?s + 128)" by (intro serves_16G) simp
  have pr: "printable 2 (json_of ?t)" "2 \<le> Suc MAX_NESTING" by (simp_all add: MAX_NESTING_def numeral_2_eq_2)
  obtain v where v: "json_parse_string ?mok ?s = Ret (Some v)" and t: "json_abs v = ?t"
    by (rule tree_text_parses [OF pr sv refl])
  then obtain ob where ob: "v = JObject ob" by (cases v) auto
  have tidy: "tidy (JObject ob)" using parsed_tidy [of ?mok ?s v] v ob by (simp add: mem_limited_def)
  note tob = t [unfolded ob]
  have get: "t_get (json_abs (JObject ob)) k = (if k = ''include'' then Some (TObject []) else None)" for k
    by (simp add: tob del: json_abs.simps)
  have none: "t_list (t_get (json_abs (JObject ob)) ''names'') = []" "t_list (t_get (json_abs (JObject ob)) ''args'') = []"
    by (simp_all add: get del: json_abs.simps)
  obtain a where a: "json_object_get_array (Some ob) ''names'' = Ret a" "json_array_get_count a = 0"
    by (rule empty_arrays [OF tidy none(1)])
  obtain b where b: "json_object_get_array (Some ob) ''args'' = Ret b" "json_array_get_count b = 0"
    by (rule empty_arrays [OF tidy none(2)])
  have "\<exists>x. json_object_get_object (Some ob) k = Ret x" for k by (rule get_object_tree [OF tidy, of k]) blast
  moreover have "parse_filter ?low x = Ret None" for x by (simp add: parse_filter_def)
  ultimately have f: "lift (obind (json_object_get_object (Some ob) k) (parse_filter ?low)) = Ret (Inr None)" for k
    by (metis lift_simps(1) obind.simps(1))
  have "parse_rule ?low ob = Ret (Inr (sample_rule [] None))"
    using a b get_string_tree [OF tidy]
    by (simp add: parse_rule_def f parse_names_def parse_args_def each_element_def dup_strings_def sample_rule_def get
        del: json_abs.simps)
  moreover have "t_get (json_abs (JObject ob)) ''include'' = Some (TObject [])" by (simp add: get del: json_abs.simps)
  ultimately show ?thesis using filter_lost_without_memory [of ?low ob "sample_rule [] None" None] by auto
qed

end
