(* ===== verification/Log_Spec.thy ===== *)
theory Log_Spec
  imports Logger
begin

text \<open>
  What the log is: after any violations and \<^verbatim>\<open>logger_close\<close> a JSON array with one object per
  violation logged, whatever allocations failed; and what an object says when memory suffices.
\<close>

section \<open>Setting under any failures\<close>

lemma set_value_any:
  assumes ok: "obj_ok obj" and lim: "mem_limited mok"
  obtains b obj' where "json_object_set_value mok obj k v False = Ret (b, obj')" "obj_ok obj'"
    "set (items obj') \<subseteq> insert (k, v) (set (items obj))"
proof (cases "k \<in> set (names obj)")
  case True
  then obtain i where i: "i < length (names obj)" "names obj ! i = k" by (auto simp: in_set_conv_nth)
  obtain o' where o': "json_object_set_value mok obj (names obj ! i) v False = Ret (True, o')" "obj_ok o'"
      "names o' = names obj" "item_values o' = (item_values obj)[i := v]"
    by (rule set_value_present [OF ok i(1), where mok = mok and v = v])
  have "items o' = map (\<lambda>(k', w). (k', if k' = k then v else w)) (items obj)"
    using items_replaced [OF ok o'(3,4) i(1)] i(2) by simp
  then have "set (items o') \<subseteq> insert (k, v) (set (items obj))" by (auto split: if_splits)
  then show thesis using that [of True o'] o'(1,2) i(2) by simp
next
  case False
  show thesis
  proof (cases "length (names obj) < item_capacity obj \<or> can_grow mok obj")
    case room: True
    show thesis
    proof (cases "mok (length k + 1)")
      case True
      obtain o' where "json_object_set_value mok obj k v False = Ret (True, o')" "obj_ok o'"
          "items o' = items obj @ [(k, v)]"
        by (rule set_value_absent [OF ok lim False room True, where v = v])
      then show thesis using that by auto
    next
      case nokey: False
      show thesis
      proof (cases "length (names obj) < item_capacity obj")
        case True
        obtain ix where "json_object_get_cell_ix obj k (length k) (full_hash k) = Ret (ix, False)"
          by (rule get_cell_ix_absent_any [OF ok False])
        then have "json_object_set_value mok obj k v False = Ret (False, obj)"
          using True nokey by (simp add: json_object_set_value_def store_copy_def Let_def full_hash_def [symmetric]
              json_object_get_count_def)
        then show thesis using that ok by auto
      next
        case full: False
        then have grow: "can_grow mok obj" and f: "item_capacity obj \<le> length (names obj)" using room by auto
        obtain ix where ix: "json_object_get_cell_ix obj k (length k) (full_hash k) = Ret (ix, False)"
          by (rule get_cell_ix_absent_any [OF ok False])
        obtain o1 where o1: "grow_step mok (json_object_add_fuel (Suc (Suc 0)) mok) obj = Ret (Some o1)" "obj_ok o1"
          "items o1 = items obj" "names o1 = names obj"
          by (rule grow_ok [OF ok lim grow f])
        obtain ix' where "json_object_get_cell_ix o1 k (length k) (full_hash k) = Ret (ix', False)"
          using get_cell_ix_absent_any [OF o1(2)] False o1(4) by metis
        then have "json_object_set_value mok obj k v False = Ret (False, o1)"
          using f nokey ix o1(1)
          by (simp del: json_object_add_fuel.simps add: json_object_set_value_def store_copy_def Let_def
              full_hash_def [symmetric] json_object_get_count_def json_object_grow_and_rehash_def
              json_object_add_def numeral_2_eq_2)
        then show thesis using that o1 by auto
      qed
    qed
  next
    case stuck: False
    obtain ix where ix: "json_object_get_cell_ix obj k (length k) (full_hash k) = Ret (ix, False)"
      by (rule get_cell_ix_absent_any [OF ok False])
    have "json_object_grow_and_rehash mok obj = Ret None"
      using stuck by (simp add: json_object_grow_and_rehash_def grow_fails [OF lim])
    then have "json_object_set_value mok obj k v False = Ret (False, obj)"
      using stuck ix by (simp add: json_object_set_value_def Let_def full_hash_def [symmetric] json_object_get_count_def)
    then show thesis using that ok by auto
  qed
qed


text \<open>Objects that can be logged: consistent, with printable members.\<close>

definition loggable :: "nat \<Rightarrow> json json_object \<Rightarrow> bool" where
  "loggable d obj \<longleftrightarrow> obj_ok obj \<and> (\<forall>(k, v) \<in> set (items obj). no_nul k \<and> printable d v)"

lemma loggable_printable: "loggable d obj \<Longrightarrow> printable (Suc d) (JObject obj)"
  unfolding loggable_def
  using obj_ok_fields(2,7) [of obj]
  by (auto simp: items_def list_all_iff in_set_conv_nth set_zip) force+

lemma loggable_empty [simp]: "loggable d (JSON_Object [] [] [] [] [] 0 0)"
  by (simp add: loggable_def empty_object)

lemma set_loggable:
  assumes "loggable d obj" and "mem_limited mok" and "no_nul k" and "\<And>v. value = Some v \<Longrightarrow> printable d v"
  shows "\<exists>obj'. ignoring (set_optional mok obj k value) = Ret obj' \<and> loggable d obj'"
proof (cases "value")
  case None
  then show ?thesis using assms(1) by (simp add: ignoring_def set_optional_def)
next
  case (Some v)
  have ok: "obj_ok obj" using assms(1) by (simp add: loggable_def)
  obtain b obj' where "json_object_set_value mok obj k v False = Ret (b, obj')" "obj_ok obj'"
      "set (items obj') \<subseteq> insert (k, v) (set (items obj))"
    by (rule set_value_any [OF ok assms(2)])
  then show ?thesis using assms(1,3,4) Some by (auto simp: loggable_def ignoring_def set_optional_def)
qed

lemma init_string_form: "json_value_init_string mok s = Some v \<Longrightarrow> printable (Suc d) v"
  by (auto simp: json_value_init_string_def json_value_init_string_with_len_def
      json_value_init_string_no_copy_def split: option.splits if_splits)

lemma set_string_loggable:
  assumes "loggable (Suc d) obj" and "mem_limited mok" and "no_nul k"
  shows "\<exists>obj'. ignoring (json_object_set_string mok obj k s) = Ret obj' \<and> loggable (Suc d) obj'"
  unfolding json_object_set_string_def using assms init_string_form by (intro set_loggable) auto

lemma set_if_given_loggable:
  assumes "loggable (Suc d) obj" and "mem_limited mok" and "no_nul k"
  shows "\<exists>obj'. set_if_given mok k s obj = Ret obj' \<and> loggable (Suc d) obj'"
  using set_string_loggable [OF assms] assms(1) by (auto simp: set_if_given_def)

lemma set_number_loggable:
  assumes "loggable (Suc d) obj" and "mem_limited mok" and "no_nul k" and "is_double x"
  shows "\<exists>obj'. ignoring (json_object_set_number mok obj k x) = Ret obj' \<and> loggable (Suc d) obj'"
  unfolding json_object_set_number_def
  using assms by (intro set_loggable) (auto simp: json_value_init_number_def split: if_splits)

lemma write_registers_loggable:
  assumes "mem_limited mok" and "loggable (Suc d) obj" and "list_all (\<lambda>r. no_nul (fst r)) regs"
  shows "\<exists>obj'. write_registers mok regs obj = Ret obj' \<and> loggable (Suc d) obj'"
  using assms(2,3)
proof (induction regs arbitrary: obj)
  case (Cons r regs)
  obtain k w where r: "r = (k, w)" by (cases r)
  obtain o1 where "ignoring (write_hex_register mok obj k w) = Ret o1" "loggable (Suc d) o1"
    using set_string_loggable [OF Cons.prems(1) assms(1), of k "Some (hex_register w)"] Cons.prems(2)
    by (auto simp: write_hex_register_def r)
  then show ?case using Cons.IH [of o1] Cons.prems(2) by (simp add: r)
qed simp

lemma init_object_forms:
  "json_value_get_object (json_value_init_object mok) = Some obj \<Longrightarrow> obj = JSON_Object [] [] [] [] [] 0 0"
  by (auto simp: json_value_init_object_def json_object_make_def empty_object split: if_splits)

lemma set_registers_loggable:
  assumes "mem_limited mok" and "loggable (Suc (Suc d)) obj"
  shows "\<exists>obj'. set_registers mok v obj = Ret obj' \<and> loggable (Suc (Suc d)) obj'"
proof (cases "json_value_get_object (json_value_init_object mok)")
  case None
  then show ?thesis using assms(2) by (simp add: set_registers_def)
next
  case (Some ro)
  then have "loggable (Suc d) ro" using init_object_forms [OF Some] by simp
  then obtain r1 where r1: "write_registers mok (registers_of v) ro = Ret r1" "loggable (Suc d) r1"
    using write_registers_loggable [OF assms(1), of d ro "registers_of v"] by (auto simp: registers_of_def)
  then show ?thesis
    using set_loggable [OF assms(2,1), of "''registers''" "Some (JObject r1)"] loggable_printable [OF r1(2)]
    by (simp add: set_registers_def Some set_optional_def)
qed

text \<open>A pid is an \<^verbatim>\<open>int\<close>; it and the 64-bit system call number are finite doubles, which print exactly.\<close>

definition pid_fits :: "SeccompViolation \<Rightarrow> bool" where
  "pid_fits v \<longleftrightarrow> - (2 ^ 31) \<le> sv_pid v \<and> sv_pid v < 2 ^ 31"

lemma numbers_double:
  assumes "pid_fits v"
  shows "is_double (f64_of_int (sv_pid v))" "is_double (f64_of_nat (unat (sv_syscall v)))"
  using assms unsigned_less [of "sv_syscall v", where 'a = nat]
  by (auto simp: pid_fits_def intro!: f64_of_int_double f64_of_nat_double)

lemma violation_json_any:
  assumes "mem_limited mok" and "pid_fits v"
  shows "\<exists>r. violation_json mok v = Ret r \<and> (\<forall>j. r = Some j \<longrightarrow> printable 3 j \<and> (\<exists>kvs. json_abs j = TObject kvs))"
proof (cases "json_value_get_object (json_value_init_object mok)")
  case None
  then show ?thesis by (simp add: violation_json_def)
next
  case (Some o0)
  let ?L = "loggable (Suc (Suc 0))"
  note i = numbers_double [OF assms(2)]
  have "?L o0" using init_object_forms [OF Some] by simp
  then obtain o1 where 1: "ignoring (json_object_set_number mok o0 ''pid'' (f64_of_int (sv_pid v))) = Ret o1" "?L o1"
    using set_number_loggable [of _ o0 mok "''pid''"] assms(1) i by auto
  then obtain o2 where 2: "set_if_given mok ''timestamp'' (sv_timestamp v) o1 = Ret o2" "?L o2"
    using set_if_given_loggable [of _ o1 mok "''timestamp''"] assms(1) by auto
  then obtain o3 where 3: "ignoring (json_object_set_number mok o2 ''syscall'' (f64_of_nat (unat (sv_syscall v)))) = Ret o3" "?L o3"
    using set_number_loggable [of _ o2 mok "''syscall''"] assms(1) i by auto
  then obtain o4 where 4: "set_if_given mok ''syscall_name'' (sv_syscall_name v) o3 = Ret o4" "?L o4"
    using set_if_given_loggable [of _ o3 mok "''syscall_name''"] assms(1) by auto
  then obtain o5 where 5: "set_registers mok v o4 = Ret o5" "?L o5"
    using set_registers_loggable [OF assms(1) 4(2)] by blast
  then obtain o6 where 6: "set_if_given mok ''function'' (sv_resolved_func v) o5 = Ret o6" "?L o6"
    using set_if_given_loggable [of _ o5 mok "''function''"] assms(1) by auto
  then obtain o7 where 7: "set_if_given mok ''file'' (sv_resolved_file v) o6 = Ret o7" "?L o7"
    using set_if_given_loggable [of _ o6 mok "''file''"] assms(1) by auto
  have "violation_json mok v = Ret (Some (JObject o7))"
    by (simp add: violation_json_def Some 1 2 3 4 5 6 7)
  then show ?thesis using loggable_printable [OF 7(2)] by (simp add: numeral_3_eq_3)
qed


section \<open>The text of a log\<close>

fun more_entries :: "string list \<Rightarrow> string" where
  "more_entries [] = []"
| "more_entries (t # ts) = CHR '','' # t @ CHR 0x0A # more_entries ts"

fun log_text :: "string list \<Rightarrow> string" where
  "log_text [] = []"
| "log_text (t # ts) = CHR ''['' # t @ CHR 0x0A # more_entries ts"

lemma more_entries_snoc: "more_entries (ts @ [t]) = more_entries ts @ CHR '','' # t @ [CHR 0x0A]"
  by (induction ts) simp_all

lemma log_text_snoc:
  "log_text (ts @ [t]) = log_text ts @ (if ts = [] then ''['' else '','') @ t @ [CHR 0x0A]"
  by (cases ts) (simp_all add: more_entries_snoc)

lemma length_more_entries: "length ts \<le> length (more_entries ts)"
  by (induction ts) simp_all

text \<open>Entries: a text and the value it is read back as.\<close>

definition entry_reads :: "(nat \<Rightarrow> bool) \<Rightarrow> (string \<Rightarrow> json parsed) \<Rightarrow> string \<times> json \<Rightarrow> bool" where
  "entry_reads mok pv e \<longleftrightarrow> starts_value (fst e) \<and> reads_back mok pv (fst e) (snd e)"

lemma log_entries_read:
  assumes mem: "serves mok (24 * n + 128)"
  shows "entry_reads mok pv e \<Longrightarrow> list_all (entry_reads mok pv) es \<Longrightarrow> length es < rounds \<Longrightarrow>
    length (elems a) + Suc (length es) \<le> n \<Longrightarrow> length (elems a) \<le> capacity a \<Longrightarrow>
    \<exists>a'. array_items rounds mok pv a (fst e @ CHR 0x0A # more_entries (map fst es) @ CHR '']'' # r)
           = Ret (Some (a', CHR '']'' # r))
       \<and> map json_abs (elems a') = map json_abs (elems a) @ map (\<lambda>e. json_abs (snd e)) (e # es)
       \<and> length (elems a') \<le> capacity a'"
proof (induction es arbitrary: e a rounds)
  case Nil
  obtain m where m: "rounds = Suc m" using Nil.prems(3) by (cases rounds) auto
  let ?rest = "CHR 0x0A # CHR '']'' # r"
  have r: "ends_number ?rest" by (simp add: ends_number_def isdigit_def tolower_def)
  have n: "length (elems a) < n" using Nil.prems(4) by simp
  have e: "reads_back mok pv (fst e) (snd e)" "fst e \<noteq> []"
    using Nil.prems(1) by (auto simp: entry_reads_def starts_value_def)
  obtain a' where "map json_abs (elems a') = map json_abs (elems a) @ [json_abs (snd e)]" "length (elems a') \<le> capacity a'"
    "array_item mok pv a (fst e @ ?rest) = (if at_char (CHR '','') (skip_ws ?rest)
         then Ret (Some ((\<not> at_char (CHR '']'') (skip_ws (tl (skip_ws ?rest))), a'), skip_ws (tl (skip_ws ?rest))))
         else Ret (Some ((False, a'), skip_ws ?rest)))"
    by (rule array_item_reads [OF mem n Nil.prems(5) e(1) r])
  then show ?case using e(2) by (simp add: m isspace_def)
next
  case (Cons e2 es)
  obtain m where m: "rounds = Suc m" using Cons.prems(3) by (cases rounds) auto
  let ?after = "fst e2 @ CHR 0x0A # more_entries (map fst es) @ CHR '']'' # r"
  let ?rest = "CHR 0x0A # CHR '','' # ?after"
  have r: "ends_number ?rest" by (simp add: ends_number_def isdigit_def tolower_def)
  have n: "length (elems a) < n" using Cons.prems(4) by simp
  have e: "reads_back mok pv (fst e) (snd e)" "fst e \<noteq> []"
    using Cons.prems(1) by (auto simp: entry_reads_def starts_value_def)
  have sv: "starts_value ?after" using Cons.prems(2) by (simp add: entry_reads_def)
  obtain a' where a': "map json_abs (elems a') = map json_abs (elems a) @ [json_abs (snd e)]" "length (elems a') \<le> capacity a'"
    and item: "array_item mok pv a (fst e @ ?rest) = (if at_char (CHR '','') (skip_ws ?rest)
         then Ret (Some ((\<not> at_char (CHR '']'') (skip_ws (tl (skip_ws ?rest))), a'), skip_ws (tl (skip_ws ?rest))))
         else Ret (Some ((False, a'), skip_ws ?rest)))"
    by (rule array_item_reads [OF mem n Cons.prems(5) e(1) r])
  have len: "length (elems a') = Suc (length (elems a))" using arg_cong [OF a'(1), of length] by simp
  have "array_item mok pv a (fst e @ ?rest) = Ret (Some ((True, a'), ?after))"
    using item starts_value_skip [OF sv] starts_value_not_at [OF sv] by (simp add: isspace_def)
  moreover have "\<exists>a''. array_items m mok pv a' ?after = Ret (Some (a'', CHR '']'' # r))
       \<and> map json_abs (elems a'') = map json_abs (elems a') @ map (\<lambda>e. json_abs (snd e)) (e2 # es)
       \<and> length (elems a'') \<le> capacity a''"
    using Cons.prems a'(2) len m by (intro Cons.IH) auto
  ultimately show ?case using e(2) a'(1) by (auto simp: m)
qed

definition entry_text :: "json \<Rightarrow> string" where
  "entry_text j = json_serialize_r True True 0 j"

lemma log_parses:
  assumes "js \<noteq> []" and "list_all (printable 3) js"
    and mem: "serves mok (24 * length (log_text (map entry_text js)) + 128)"
  shows "\<exists>v. json_parse_string mok (log_text (map entry_text js) @ '']'' @ t) = Ret (Some v)
             \<and> json_abs v = TArray (map json_abs js)"
proof -
  obtain j js' where js: "js = j # js'" using assms(1) by (cases js) auto
  let ?pv = "parse_at MAX_NESTING mok"
  let ?txt = "log_text (map entry_text js)"
  have size: "length (entry_text x) \<le> length ?txt" if "x \<in> set js" for x
  proof -
    have "length (entry_text y) \<le> length (more_entries (map entry_text ys))" if "y \<in> set ys" for y ys
      using that by (induction ys) auto
    then show ?thesis using that js by fastforce
  qed
  have reads: "entry_reads mok ?pv (entry_text x, x)" if "x \<in> set js" for x
  proof -
    have p: "printable MAX_NESTING x"
      using assms(2) that by (auto simp: list_all_iff MAX_NESTING_def intro: printable_mono [of 3])
    have "serves mok (24 * length (entry_text x) + 128)" using size [OF that] by (intro serves_mono [OF mem]) simp
    then show ?thesis using serialize_reads_back [OF p] ser_starts_value [OF p]
      by (simp add: entry_reads_def entry_text_def)
  qed
  let ?es = "map (\<lambda>x. (entry_text x, x)) js'"
  let ?rest = "entry_text j @ CHR 0x0A # more_entries (map fst ?es) @ CHR '']'' # cstr t"
  have full: "?txt @ CHR '']'' # cstr t = CHR ''['' # ?rest" by (simp add: js comp_def)
  have n: "length js \<le> length ?txt" using length_more_entries [of "map entry_text js'"] by (simp add: js)
  have sv: "starts_value ?rest" using reads [of j] by (simp add: js entry_reads_def)
  have "\<exists>a'. array_items (Suc (length (CHR ''['' # ?rest))) mok ?pv (JSON_Array [] 0)
            (fst (entry_text j, j) @ CHR 0x0A # more_entries (map fst ?es) @ CHR '']'' # cstr t)
          = Ret (Some (a', CHR '']'' # cstr t))
       \<and> map json_abs (elems a') = map json_abs (elems (JSON_Array [] 0)) @ map (\<lambda>e. json_abs (snd e)) ((entry_text j, j) # ?es)
       \<and> length (elems a') \<le> capacity a'"
    using reads n length_more_entries [of "map fst ?es"]
    by (intro log_entries_read [OF mem]) (auto simp: js list_all_iff)
  then obtain a' where a': "array_items (Suc (length (CHR ''['' # ?rest))) mok ?pv (JSON_Array [] 0) (skip_ws ?rest)
          = Ret (Some (a', CHR '']'' # cstr t))" "map json_abs (elems a') = map json_abs js" "length (elems a') \<le> capacity a'"
    using starts_value_skip [OF sv] by (auto simp: js comp_def simp del: array_items.simps)
  have len: "length (elems a') = length js" using arg_cong [OF a'(2), of length] by simp
  have "parse_step mok ?pv (CHR ''['' # ?rest) = Ret (Some (JArray (JSON_Array (elems a') (length (elems a'))), cstr t))"
  proof (rule array_closes [OF mem])
    show "length (elems a') \<le> length ?txt" "elems a' \<noteq> []" using len n js by auto
    show "\<not> at_char (CHR '']'') (skip_ws ?rest)" using starts_value_not_at [OF sv] starts_value_skip [OF sv] by simp
  qed (use a' in auto)
  then have p: "parse_at (Suc MAX_NESTING) mok (?txt @ CHR '']'' # cstr t)
      = Ret (Some (JArray (JSON_Array (elems a') (length (elems a'))), cstr t))" unfolding full by simp
  have "no_nul (entry_text x)" if "x \<in> set js" for x
    using assms(2) that serialize_no_nul(1) by (auto simp: entry_text_def list_all_iff)
  then have "no_nul (more_entries (map entry_text ys))" if "set ys \<subseteq> set js" for ys using that by (induction ys) auto
  then have "no_nul ?txt" using \<open>\<And>x. x \<in> set js \<Longrightarrow> no_nul (entry_text x)\<close> by (auto simp: js)
  then have c: "cstr (?txt @ '']'' @ t) = ?txt @ CHR '']'' # cstr t"
    unfolding cstr_def by (subst takeWhile_append2) (auto simp: no_nul_def list_all_iff)
  have cs: "cstr (?txt @ '']'' @ t) = CHR ''['' # ?rest" unfolding c full ..
  have "parse_at (Suc MAX_NESTING) mok (CHR ''['' # ?rest)
      = Ret (Some (JArray (JSON_Array (elems a') (length (elems a'))), cstr t))" unfolding full [symmetric] by (rule p)
  then show ?thesis unfolding json_parse_string_def cs Let_def parse_value_def
    using a'(2) by (simp add: starts_with_def del: parse_at.simps)
qed

section \<open>Append-only logs\<close>

text \<open>
  What the client of a log relies on: a write keeps the invariant that the state holds the
  entries written so far, adding those it stands for (perhaps none, when it is refused). Any
  sequence of writes then leaves all of them, in order.
\<close>

fun run_writes :: "('c \<Rightarrow> 's \<Rightarrow> 's outcome) \<Rightarrow> 'c list \<Rightarrow> 's \<Rightarrow> 's outcome" where
  "run_writes emit [] s = Ret s"
| "run_writes emit (c # cs) s = obind (emit c s) (run_writes emit cs)"

lemma run_writes_append: "run_writes w (xs @ ys) s = obind (run_writes w xs s) (run_writes w ys)"
proof (induction xs arbitrary: s)
  case (Cons x xs)
  then have "run_writes w (xs @ ys) = (\<lambda>s. obind (run_writes w xs s) (run_writes w ys))" by (rule ext)
  then show ?case by (simp add: obind_assoc)
qed simp

locale append_log =
  fixes emit :: "'c \<Rightarrow> 's \<Rightarrow> 's outcome"
    and inv :: "'e list \<Rightarrow> 's \<Rightarrow> bool"
    and view :: "'e \<Rightarrow> 'x"
    and meaning :: "'c \<Rightarrow> 'x list"
    and fits :: "'c \<Rightarrow> bool"
  assumes write_appends: "inv es s \<Longrightarrow> fits c \<Longrightarrow> emit c s = Ret s' \<Longrightarrow>
      \<exists>es'. inv (es @ es') s' \<and> map view es' = meaning c"
begin

lemma run_appends:
  "inv es s \<Longrightarrow> list_all fits cs \<Longrightarrow> run_writes emit cs s = Ret s' \<Longrightarrow>
   \<exists>es'. inv (es @ es') s' \<and> map view es' = concat (map meaning cs)"
proof (induction cs arbitrary: es s)
  case Nil
  then show ?case by (intro exI [of _ "[]"]) simp
next
  case (Cons c cs)
  obtain s1 where s1: "emit c s = Ret s1" "run_writes emit cs s1 = Ret s'" using Cons.prems(3) by auto
  obtain es1 where es1: "inv (es @ es1) s1" "map view es1 = meaning c"
    using write_appends [OF Cons.prems(1) _ s1(1)] Cons.prems(2) by auto
  obtain es' where "inv ((es @ es1) @ es') s'" "map view es' = concat (map meaning cs)"
    using Cons.IH [OF es1(1) _ s1(2)] Cons.prems(2) by auto
  then show ?case using es1(2) by (intro exI [of _ "es1 @ es'"]) simp
qed

end

section \<open>Runs of the logger\<close>

text \<open>
  The calls the observer makes: each with the allocations and the \<^verbatim>\<open>fopen\<close> it meets. The result
  also says which violations were logged (code 0), with the values they were logged as.
\<close>

type_synonym log_call = "(nat \<Rightarrow> bool) \<times> bool \<times> SeccompViolation"

fun run_log :: "string option \<Rightarrow> log_call list \<Rightarrow> log_state \<Rightarrow> log_state outcome" where
  "run_log path [] s = Ret s"
| "run_log path ((mok, opens, v) # calls) s =
     obind (log_seccomp_violation mok opens path (Some v) (Some s)) (\<lambda>(rc, s').
       obind (ub_unless s') (run_log path calls))"

definition logged :: "string option \<Rightarrow> log_call \<Rightarrow> jtree list" where
  "logged path c = (case c of (mok, opens, v) \<Rightarrow>
     (case log_seccomp_violation mok opens path (Some v) (Some \<lparr> first_in_array = True, log_content = [] \<rparr>) of
        Ret (rc, _) \<Rightarrow> if rc = 0 then (case violation_json mok v of Ret (Some j) \<Rightarrow> [json_abs j] | _ \<Rightarrow> []) else []
      | _ \<Rightarrow> []))"

definition log_ok :: "json list \<Rightarrow> log_state \<Rightarrow> bool" where
  "log_ok js s \<longleftrightarrow> list_all (printable 3) js \<and> (first_in_array s \<longleftrightarrow> js = [])
     \<and> log_content s = log_text (map entry_text js)"

definition call_fits :: "log_call \<Rightarrow> bool" where
  "call_fits c \<longleftrightarrow> (case c of (mok, opens, v) \<Rightarrow> mem_limited mok \<and> pid_fits v)"

lemma pretty_text: "json_serialize_to_string_pretty mok True (Some j) = Ret r \<Longrightarrow> r = None \<or> r = Some (entry_text j)"
  by (auto simp: json_serialize_to_string_pretty_def json_serialization_size_pretty_def
      json_serialize_to_buffer_pretty_def serialized_def entry_text_def Let_def split: if_splits)

lemma log_step:
  assumes "log_ok js s" and "call_fits (mok, opens, v)"
    and "log_seccomp_violation mok opens path (Some v) (Some s) = Ret (rc, s')"
  shows "\<exists>s1 js1. s' = Some s1 \<and> log_ok (js @ js1) s1 \<and> map json_abs js1 = logged path (mok, opens, v)"
proof -
  obtain r where r: "violation_json mok v = Ret r" "\<And>j. r = Some j \<Longrightarrow> printable 3 j"
    using violation_json_any [of mok v] assms(2) by (auto simp: call_fits_def)
  have refused: "\<exists>s1 js1. s' = Some s1 \<and> log_ok (js @ js1) s1 \<and> map json_abs js1 = logged path (mok, opens, v)"
    if "s' = Some s" "logged path (mok, opens, v) = []"
    using that assms(1) by (intro exI [of _ s] exI [of _ "[]"]) simp
  show ?thesis
  proof (cases "path = None \<or> r = None")
    case True
    then show ?thesis using assms(3) r(1)
      by (intro refused) (auto simp: log_seccomp_violation_def logged_def split: option.splits)
  next
    case False
    then obtain p j where pj: "path = Some p" "r = Some j" by auto
    obtain x where x: "json_serialize_to_string_pretty mok True (Some j) = Ret x" "x = None \<or> x = Some (entry_text j)"
      using assms(3) pretty_text [of mok j] by (auto simp: log_seccomp_violation_def pj r(1) elim!: obind_Ret_E)
    show ?thesis
    proof (cases "x = None \<or> \<not> opens")
      case True
      then show ?thesis using assms(3) r(1) x(1)
        by (intro refused) (auto simp: log_seccomp_violation_def logged_def pj split: option.splits)
    next
      case False
      then have "x = Some (entry_text j)" "opens" using x(2) by auto
      then have "s' = Some \<lparr> first_in_array = False, log_content = log_content s
          @ (if first_in_array s then ''['' else '','') @ entry_text j @ [CHR 0x0A] \<rparr>"
        and "logged path (mok, opens, v) = [json_abs j]"
        using assms(3) r(1) x(1) by (auto simp: log_seccomp_violation_def logged_def pj)
      then show ?thesis
        using assms(1) r(2) [OF pj(2)] by (intro exI exI [of _ "[j]"] conjI) (auto simp: log_ok_def log_text_snoc)
    qed
  qed
qed

text \<open>The logger as such a log: its entries are JSON objects, read as trees.\<close>

definition write_violation :: "string option \<Rightarrow> log_call \<Rightarrow> log_state \<Rightarrow> log_state outcome" where
  "write_violation path c s = (case c of (mok, opens, v) \<Rightarrow>
     obind (log_seccomp_violation mok opens path (Some v) (Some s)) (\<lambda>(rc, s'). ub_unless s'))"

lemma run_log_calls: "run_log path calls s = run_writes (write_violation path) calls s"
proof (induction calls arbitrary: s)
  case (Cons c calls)
  then have "run_log path calls = run_writes (write_violation path) calls" by (rule ext)
  moreover obtain mok opens v where "c = (mok, opens, v)" by (metis prod_cases3)
  ultimately show ?case
    by (simp add: write_violation_def [of path "(mok, opens, v)"] obind_assoc case_prod_unfold)
qed simp

lemma run_log_append: "run_log p (xs @ ys) s = obind (run_log p xs s) (run_log p ys)"
  using run_writes_append [of "write_violation p" xs ys s] run_log_calls [of p] by presburger

interpretation violations: append_log "write_violation path" log_ok json_abs "logged path" call_fits for path
proof
  fix js s c s' assume ok: "log_ok js s" "call_fits c" and w: "write_violation path c s = Ret s'"
  obtain mok opens v where c: "c = (mok, opens, v)" by (metis prod_cases3)
  obtain rc so where so: "log_seccomp_violation mok opens path (Some v) (Some s) = Ret (rc, so)" "ub_unless so = Ret s'"
    using w by (auto simp: write_violation_def c elim!: obind_Ret_E)
  show "\<exists>js'. log_ok (js @ js') s' \<and> map json_abs js' = logged path c"
    using log_step [OF ok(1) ok(2) [unfolded c] so(1)] so(2) by (auto simp: c)
qed

lemma log_run:
  assumes "log_ok js s" and "list_all call_fits calls" and "run_log path calls s = Ret s'"
  shows "\<exists>js'. log_ok (js @ js') s' \<and> map json_abs js' = concat (map (logged path) calls)"
  using violations.run_appends [OF assms(1,2)] assms(3) by (simp add: run_log_calls)

lemma closed_log_reads:
  assumes "log_ok js s" and "js \<noteq> []" and "logger_close True path (log_content s) = (0, file)"
    and "serves mok (24 * length file + 128)"
  shows "\<exists>v. json_parse_string mok file = Ret (Some v) \<and> json_abs v = TArray (map json_abs js)"
proof -
  have whole: "file = log_text (map entry_text js) @ '']'' @ [CHR 0x0A]"
    using assms(1,3) by (auto simp: logger_close_def log_ok_def split: if_splits)
  have "serves mok (24 * length (log_text (map entry_text js)) + 128)"
    using assms(4) by (rule serves_mono) (simp add: whole)
  then show ?thesis
    using log_parses [of js mok "[CHR 0x0A]"] assms(1,2) by (simp add: whole log_ok_def)
qed

text \<open>
  C10. The log is one JSON array: whatever violations are logged to a fresh file, in whatever
  order allocations and \<^verbatim>\<open>fopen\<close> fail on the way, if at least one was logged then after
  \<^verbatim>\<open>logger_close\<close> the file reads as an array with one element for each violation logged, in
  order, each the object its call built. Used: 32-bit pids.
\<close>

theorem log_is_json_array:
  assumes "list_all call_fits calls"
    and "run_log path calls \<lparr> first_in_array = True, log_content = [] \<rparr> = Ret s"
    and "concat (map (logged path) calls) \<noteq> []"
    and "logger_close True path (log_content s) = (0, file)"
    and "serves mok (24 * length file + 128)"
  shows "\<exists>v. json_parse_string mok file = Ret (Some v) \<and> json_abs v = TArray (concat (map (logged path) calls))"
proof -
  have "log_ok [] \<lparr> first_in_array = True, log_content = [] \<rparr>" by (simp add: log_ok_def)
  then obtain js where js: "log_ok js s" "map json_abs js = concat (map (logged path) calls)"
    using log_run [OF _ assms(1,2), of "[]"] by auto
  then show ?thesis using closed_log_reads [OF js(1) _ assms(4,5)] assms(3) by force
qed



section \<open>What an object says\<close>

lemma hex_digit_val: "n < 16 \<Longrightarrow> xdigit_val (hex_digit n) = Some n \<and> (of_char (hex_digit n) :: nat) < 128"
proof -
  have "list_all (\<lambda>n. xdigit_val (hex_digit n) = Some n \<and> (of_char (hex_digit n) :: nat) < 128) [0..<16]"
    by (simp add: upt_rec hex_digit_def xdigit_val_def)
  then show "n < 16 \<Longrightarrow> ?thesis" by (simp add: list_all_iff)
qed

lemma hex_val_snoc: "hex_val (s @ [c]) = hex_val s * 16 + the (xdigit_val c)"
  by (simp add: hex_val_def)

lemma hex_str_val: "hex_val (hex_str n) = n"
proof (induction n rule: hex_str.induct)
  case (1 n)
  show ?case
  proof (cases "n < 16")
    case True
    then show ?thesis by (subst hex_str.simps) (simp add: hex_val_def hex_digit_val)
  next
    case False
    then show ?thesis using 1 by (subst hex_str.simps) (simp add: hex_val_snoc hex_digit_val)
  qed
qed

lemma hex_str_ascii: "list_all (\<lambda>c. (of_char c :: nat) < 128 \<and> xdigit_val c \<noteq> None) (hex_str n)"
proof (induction n rule: hex_str.induct)
  case (1 n)
  show ?case
  proof (cases "n < 16")
    case True
    then show ?thesis by (subst hex_str.simps) (simp add: hex_digit_val)
  next
    case False
    then show ?thesis using 1 by (subst hex_str.simps) (simp add: hex_digit_val)
  qed
qed

lemma ascii_valid:
  assumes "list_all (\<lambda>c. (of_char c :: nat) < 128) s"
  shows "is_valid_utf8 s (length s)"
proof -
  have v: "verify_utf8_sequence (drop pos s) = Some 1" if "pos < length s" for pos
  proof -
    have "(of_char (s ! pos) :: nat) < 128" using assms that by (simp add: list_all_iff)
    moreover from this have "num_bytes_in_utf8_sequence (of_char (s ! pos)) = 1" by (simp add: num_bytes_arith)
    ultimately show ?thesis using that by (simp add: verify_utf8_sequence_def byte_at_def Let_def)
  qed
  have "valid_utf8_from s (length s) pos" for pos
  proof (induction "length s - pos" arbitrary: pos)
    case (Suc k)
    then show ?case using v [of pos] Suc.hyps(1) [of "pos + 1"]
      by (subst valid_utf8_from.simps) simp
  qed (subst valid_utf8_from.simps, simp)
  then show ?thesis by (simp add: is_valid_utf8_def)
qed

lemma hex_register_text:
  "no_nul (hex_register w)" "is_valid_utf8 (hex_register w) (length (hex_register w))"
  "hex_val (drop 2 (hex_register w)) = unat w"
proof -
  have ascii: "list_all (\<lambda>c. (of_char c :: nat) < 128 \<and> xdigit_val c \<noteq> None) (hex_str (unat w))" by (rule hex_str_ascii)
  then show "is_valid_utf8 (hex_register w) (length (hex_register w))"
    by (intro ascii_valid) (auto simp: hex_register_def list_all_iff)
  have "c \<noteq> CHR 0x00" if "c \<in> set (hex_str (unat w))" for c
    using ascii that by (auto simp: list_all_iff xdigit_val_def Let_def)
  then show "no_nul (hex_register w)" by (auto simp: hex_register_def no_nul_def list_all_iff)
  show "hex_val (drop 2 (hex_register w)) = unat w" by (simp add: hex_register_def hex_str_val)
qed










lemma hex_str_length: "n < 16 ^ k \<Longrightarrow> length (hex_str n) \<le> max 1 k"
proof (induction k arbitrary: n)
  case 0
  then show ?case by (subst hex_str.simps) simp
next
  case (Suc k)
  show ?case
  proof (cases "n < 16")
    case True
    then show ?thesis by (subst hex_str.simps) simp
  next
    case False
    have "n div 16 < 16 ^ k" using Suc.prems by (simp add: less_mult_imp_div_less mult.commute)
    moreover from this False have "k \<noteq> 0" by (intro notI) simp
    ultimately show ?thesis using Suc.IH [of "n div 16"] False by (subst hex_str.simps) simp
  qed
qed












definition sample_violation :: SeccompViolation where
  "sample_violation = \<lparr> sv_pid = 1234, sv_timestamp = Some ''t'', sv_syscall = 42, sv_syscall_name = Some ''connect'',
     sv_rdi = 3, sv_rsi = 0, sv_rdx = 16, sv_r10 = 0, sv_r8 = 0, sv_r9 = 0, sv_rbp = 0, sv_rip = 0,
     sv_resolved_func = None, sv_resolved_file = Some [CHR 0xFF] \<rparr>"




text \<open>
  Registers are logged without loss: the digits after \<open>0x\<close> read as the 64-bit value, and the
  text is plain ASCII of at most 18 characters, so \<^verbatim>\<open>snprintf\<close> into 32 bytes never truncates it.
\<close>

theorem hex_register_roundtrip:
  "take 2 (hex_register w) = ''0x'' \<and> word_of_nat (hex_val (drop 2 (hex_register w))) = w
   \<and> length (hex_register w) \<le> 18 \<and> is_valid_utf8 (hex_register w) (length (hex_register w))"
  using hex_register_text [of w] hex_str_length [of "unat w" 16] unsigned_less [of w, where 'a = nat]
  by (simp add: hex_register_def)

lemma nothing_set:
  assumes "mem_limited mok" and "\<not> mok 128"
  shows "set_optional mok (JSON_Object [] [] [] [] [] 0 0) k x = Ret (False, JSON_Object [] [] [] [] [] 0 0)"
proof (cases x)
  case None
  then show ?thesis by (simp add: set_optional_def)
next
  case (Some v)
  let ?o = "JSON_Object [] [] [] [] [] 0 0 :: json json_object"
  have "\<not> can_grow mok ?o" using assms(2) by (simp add: can_grow_def grown_capacity_def STARTING_CAPACITY_def)
  then have "json_object_grow_and_rehash mok ?o = Ret None"
    using grow_fails [OF assms(1)] by (simp add: json_object_grow_and_rehash_def)
  moreover obtain ix where "json_object_get_cell_ix ?o k (length k) (full_hash k) = Ret (ix, False)"
    by (rule get_cell_ix_absent_any [OF empty_object(2)]) simp
  ultimately show ?thesis
    by (simp add: Some set_optional_def json_object_set_value_def full_hash_def Let_def json_object_get_count_def)
qed

text \<open>Logging with hardly any memory: the object exists, but none of its members is stored.\<close>

definition starved :: "(nat \<Rightarrow> bool) \<Rightarrow> bool" where
  "starved mok \<longleftrightarrow> mem_limited mok \<and> \<not> mok 128 \<and> mok 3 \<and> mok 32 \<and> mok 72"

lemma starved_violation:
  assumes "starved mok"
  shows "violation_json mok v = Ret (Some (JObject (JSON_Object [] [] [] [] [] 0 0)))"
    and "json_serialize_to_string_pretty mok True (Some (JObject (JSON_Object [] [] [] [] [] 0 0))) = Ret (Some ''{}'')"
proof -
  let ?o = "JSON_Object [] [] [] [] [] 0 0 :: json json_object"
  have lim: "mem_limited mok" "\<not> mok 128" "mok 3" "mok 32" "mok 72" using assms by (simp_all add: starved_def)
  have init: "json_value_get_object (json_value_init_object mok) = Some ?o"
    using lim by (simp add: json_value_init_object_def json_object_make_def empty_object(1))
  have keep: "ignoring (set_optional mok ?o k x) = Ret ?o" for k x
    using nothing_set [OF lim(1,2), of k x] by (simp add: ignoring_def)
  have regs: "write_registers mok rs ?o = Ret ?o" for rs
    by (induction rs) (auto simp: write_hex_register_def json_object_set_string_def keep)
  have "ignoring (json_object_set_value mok ?o ''registers'' (JObject ?o) False) = Ret ?o"
    using keep [of "''registers''" "Some (JObject ?o)"] by (simp add: set_optional_def)
  then show "violation_json mok v = Ret (Some (JObject ?o))"
    by (simp add: violation_json_def init json_object_set_number_def json_object_set_string_def keep set_if_given_def
        set_registers_def regs)
  show "json_serialize_to_string_pretty mok True (Some (JObject ?o)) = Ret (Some ''{}'')"
    using lim by (simp add: json_serialize_to_string_pretty_def json_serialization_size_pretty_def
        json_serialize_to_buffer_pretty_def serialized_def Let_def numeral_3_eq_3 [symmetric])
qed

lemma starved_log:
  assumes "starved mok"
  shows "log_seccomp_violation mok opens (Some path) (Some v) (Some s) = Ret (if opens
      then (0, Some \<lparr> first_in_array = False, log_content = log_content s @ (if first_in_array s then ''['' else '','')
        @ ''{}'' @ [CHR 0x0A] \<rparr>)
      else (- 1, Some s))"
    and "logged (Some path) (mok, opens, v) = (if opens then [TObject []] else [])"
  by (simp_all add: log_seccomp_violation_def logged_def starved_violation [OF assms] items_def)

theorem log_is_json_array_witness:
  "\<exists>s v. run_log (Some ''log.json'')
       [(\<lambda>n. n = 3 \<or> n = 32 \<or> n = 72, False, sample_violation), (\<lambda>n. n = 3 \<or> n = 32 \<or> n = 72, True, sample_violation)]
       \<lparr> first_in_array = True, log_content = [] \<rparr> = Ret s
     \<and> log_content s = ''[{}'' @ [CHR 0x0A]
     \<and> json_parse_string (\<lambda>n. n < 1024) (snd (logger_close True (Some ''log.json'') (log_content s))) = Ret (Some v)
     \<and> json_abs v = TArray [TObject []]"
proof -
  let ?mok = "\<lambda>n. n = 3 \<or> n = 32 \<or> n = (72 :: nat)"
  let ?calls = "[(?mok, False, sample_violation), (?mok, True, sample_violation)]"
  have st: "starved ?mok" by (auto simp: starved_def mem_limited_def)
  then have lim: "mem_limited ?mok" by (simp add: starved_def)
  let ?fresh = "\<lparr> first_in_array = True, log_content = [] \<rparr>"
  let ?after = "\<lparr> first_in_array = False, log_content = ''[{}'' @ [CHR 0x0A] \<rparr>"
  have c1: "log_seccomp_violation ?mok False (Some ''log.json'') (Some sample_violation) (Some ?fresh) = Ret (- 1, Some ?fresh)"
    by (simp add: starved_log [OF st])
  have c2: "log_seccomp_violation ?mok True (Some ''log.json'') (Some sample_violation) (Some ?fresh) = Ret (0, Some ?after)"
    by (simp add: starved_log [OF st])
  have run: "run_log (Some ''log.json'') ?calls ?fresh = Ret ?after"
    by (simp only: run_log.simps c1 c2 obind.simps prod.case ub_unless_def option.case)
  have l: "concat (map (logged (Some ''log.json'')) ?calls) = [TObject []]"
    by (simp add: starved_log [OF st])
  have fits: "list_all call_fits ?calls"
    using lim by (simp add: call_fits_def pid_fits_def sample_violation_def)
  have closed_log: "logger_close True (Some ''log.json'') (log_content ?after) = (0, ''[{}'' @ [CHR 0x0A] @ '']'' @ [CHR 0x0A])"
    by (simp add: logger_close_def)
  have "serves (\<lambda>n. n < 1024) (24 * length (''[{}'' @ [CHR 0x0A] @ '']'' @ [CHR 0x0A]) + 128)"
    by (auto simp: serves_def mem_limited_def)
  moreover have "concat (map (logged (Some ''log.json'')) ?calls) \<noteq> []" by (simp only: l) simp
  ultimately obtain v where v: "json_parse_string (\<lambda>n. n < 1024) (''[{}'' @ [CHR 0x0A] @ '']'' @ [CHR 0x0A]) = Ret (Some v)"
      "json_abs v = TArray [TObject []]"
    using log_is_json_array [OF fits run _ closed_log] unfolding l by blast
  show ?thesis
    by (rule exI [of _ ?after], rule exI [of _ v], intro conjI)
      (rule run, simp, simp only: closed_log snd_conv v(1), rule v(2))
qed

end
