(* ===== verification/Observer_Spec.thy ===== *)
theory Observer_Spec
  imports Observer Log_Spec
begin

text \<open>
  What the tracer does: which statuses end it, where it looks for the code that made a system
  call, and that the log is the violations it saw, in order, however often it turns.
\<close>

section \<open>Statuses\<close>

lemma word_val: "n < 2 ^ 32 \<Longrightarrow> unat (word_of_nat n :: 32 word) = n"
  by (simp add: unsigned_of_nat take_bit_nat_eq_self)

lemma status_low_bits: "unat (status AND 0x7F :: 32 word) = unat status mod 128"
proof -
  have "status AND 0x7F = take_bit 7 status" by (simp add: take_bit_eq_mask mask_eq_exp_minus_1)
  then have "status AND 0x7F = status mod 128" by (simp add: take_bit_eq_mod)
  then show ?thesis by (simp add: unat_mod_distrib)
qed

lemma WIFSIGNALED_low: "WIFSIGNALED status \<longleftrightarrow> 1 \<le> unat status mod 128 \<and> unat status mod 128 \<le> 126"
proof -
  have "list_all (\<lambda>n. (0 < sint (signed_drop_bit 1 (ucast ((word_of_nat n :: 32 word) + 1) :: 8 word)))
      = (1 \<le> n \<and> n \<le> 126)) [0..<128]" by code_simp
  moreover have "status AND 0x7F = word_of_nat (unat status mod 128)"
    by (subst status_low_bits [symmetric]) simp
  ultimately show ?thesis by (simp add: WIFSIGNALED_def list_all_iff)
qed

lemma WIFEXITED_low: "WIFEXITED status \<longleftrightarrow> unat status mod 128 = 0"
  unfolding WIFEXITED_def status_low_bits [symmetric] by (simp add: unat_eq_0)

lemma seccomp_stop_high: "unat status < 2 ^ 31 \<Longrightarrow> seccomp_stop status \<longleftrightarrow> unat status div 65536 = 7"
proof -
  assume "unat status < 2 ^ 31"
  then have u: "int (unat status) < 2 ^ 31" by (metis of_nat_less_iff of_nat_numeral of_nat_power)
  have s: "sint status = int (unat status)"
    unfolding sint_uint uint_nat by (rule signed_take_bit_int_eq_self) (rule order_trans [OF _ of_nat_0_le_iff], use u in simp_all)
  have "seccomp_stop status \<longleftrightarrow> sint (signed_drop_bit 16 status) = sint (7 :: 32 word)"
    unfolding seccomp_stop_def PTRACE_EVENT_SECCOMP_def by (rule iffI) (simp, erule signed_word_eqI)
  also have "sint (signed_drop_bit 16 status) = int (unat status) div 65536"
    by (simp add: sint_signed_drop_bit_eq s drop_bit_eq_div)
  also have "int (unat status) div 65536 = int (unat status div 65536)" by (simp add: zdiv_int)
  also have "sint (7 :: 32 word) = int 7" by simp
  finally show ?thesis by (simp only: of_nat_eq_iff)
qed

text \<open>How the kernel encodes an exit, a death by a signal (with or without a core) and a stop.\<close>

definition exit_status :: "nat \<Rightarrow> 32 word" where
  "exit_status n = word_of_nat (n * 256)"


definition stop_status :: "nat \<Rightarrow> nat \<Rightarrow> 32 word" where
  "stop_status k event = word_of_nat (event * 65536 + k * 256 + 127)"

lemma exit_status_unat: "n < 256 \<Longrightarrow> unat (exit_status n) = n * 256"
  unfolding exit_status_def by (intro word_val) simp


lemma stop_status_unat: "k < 256 \<Longrightarrow> event < 2 ^ 15 \<Longrightarrow> unat (stop_status k event) = event * 65536 + k * 256 + 127"
  unfolding stop_status_def by (intro word_val) simp



section \<open>The command\<close>

lemma hex_str_64: "length (hex_str (unat (w :: 64 word))) \<le> 16"
  using hex_str_length [of "unat w" 16] unsigned_less [of w, where 'a = nat] by simp

lemma command_whole:
  "length path \<le> 255 \<Longrightarrow> addr2line_cmd path off = ''addr2line -f -e '' @ path @ '' 0x'' @ hex_str (unat off)"
  using hex_str_64 [of off] by (simp add: addr2line_cmd_def)

lemma scan_word_length: "scan_word n s = Some (w, r) \<Longrightarrow> length w \<le> n \<and> w \<noteq> [] \<and> list_all (\<lambda>c. \<not> isspace c) w"
  by (auto simp: scan_word_def Let_def list_all_iff split: if_splits dest: in_set_takeD set_takeWhileD)

lemma scan_map_tail_path:
  "scan_map_tail s = Some (p, path) \<Longrightarrow> length path \<le> 255 \<and> path \<noteq> [] \<and> list_all (\<lambda>c. \<not> isspace c) path"
  by (auto simp: scan_map_tail_def bind_eq_Some_conv dest: scan_word_length)

lemma sscanf_map_path:
  "sscanf_map l = Ret (Some (a, b, p, path)) \<Longrightarrow>
     length path \<le> 255 \<and> path \<noteq> [] \<and> list_all (\<lambda>c. \<not> isspace c) path"
  by (auto simp: sscanf_map_def elim!: obind_Ret_E split: option.split_asm prod.split_asm)
    (use scan_map_tail_path in blast)+

lemma find_mapping_path:
  "find_mapping r maps = Ret (Some (base, path)) \<Longrightarrow>
     length path \<le> 255 \<and> path \<noteq> [] \<and> list_all (\<lambda>c. \<not> isspace c) path \<and> base \<le> r"
proof (induction r maps rule: find_mapping.induct)
  case (1 r maps)
  obtain x where x: "maps \<noteq> []" "sscanf_map (cstr (fgets_line 512 maps)) = Ret x"
    using "1.prems" by (subst (asm) find_mapping.simps) (auto simp: Let_def obind_Ret_iff split: if_splits)
  note step = "1.prems" [unfolded find_mapping.simps [of r maps]]
  show ?case
  proof (cases x)
    case None
    then show ?thesis using step x "1.IH"(1) [OF x(1) refl x(2)] by (simp add: Let_def)
  next
    case (Some y)
    obtain st sp pm pa where y: "y = (st, sp, pm, pa)" by (cases y)
    show ?thesis
    proof (cases "st \<le> r \<and> r < sp \<and> CHR ''x'' \<in> set pm")
      case True
      then show ?thesis using step x sscanf_map_path [of _ st sp pm pa] by (auto simp: Some y Let_def)
    next
      case False
      then show ?thesis using step x "1.IH"(2) [OF x(1) refl x(2) Some [unfolded y] refl refl refl] by (auto simp: Some y Let_def)
    qed
  qed
qed

section \<open>The map of a process\<close>

text \<open>
  A line as the kernel writes it: two addresses, permissions, offset, device, inode, then blanks
  and the path, which is empty for memory without a file.
\<close>

record mapping =
  m_start :: "64 word"
  m_end :: "64 word"
  m_perms :: string
  m_offset :: nat
  m_dev :: string
  m_inode :: string
  m_pad :: nat
  m_path :: string

definition hex_pad :: "nat \<Rightarrow> string" where
  "hex_pad n = replicate (8 - length (hex_str n)) CHR ''0'' @ hex_str n"

definition maps_line :: "mapping \<Rightarrow> string" where
  "maps_line m = hex_pad (unat (m_start m)) @ CHR ''-'' # hex_pad (unat (m_end m)) @ CHR '' '' # m_perms m
     @ CHR '' '' # hex_pad (m_offset m) @ CHR '' '' # m_dev m @ CHR '' '' # m_inode m
     @ CHR '' '' # replicate (m_pad m) CHR '' '' @ m_path m @ [CHR 0x0A]"

definition word_text :: "string \<Rightarrow> bool" where
  "word_text w \<longleftrightarrow> w \<noteq> [] \<and> no_nul w \<and> list_all (\<lambda>c. \<not> isspace c) w"

definition mapping_ok :: "mapping \<Rightarrow> bool" where
  "mapping_ok m \<longleftrightarrow> word_text (m_perms m) \<and> length (m_perms m) \<le> 4 \<and> word_text (m_dev m) \<and> word_text (m_inode m)
     \<and> no_nul (m_path m) \<and> CHR 0x0A \<notin> set (m_path m) \<and> (m_path m = [] \<or> \<not> isspace (hd (m_path m)))
     \<and> length (maps_line m) \<le> 511"

text \<open>What \<^verbatim>\<open>%255s\<close> keeps of a path: up to the first blank.\<close>

definition path_read :: "mapping \<Rightarrow> string" where
  "path_read m = take 255 (takeWhile (\<lambda>c. \<not> isspace c) (m_path m))"

definition executes :: "64 word \<Rightarrow> mapping \<Rightarrow> bool" where
  "executes r m \<longleftrightarrow> m_path m \<noteq> [] \<and> m_start m \<le> r \<and> r < m_end m \<and> CHR ''x'' \<in> set (m_perms m)"

lemma xdigit_char:
  assumes "is_xdigit c"
  shows "\<not> isspace c" "c \<noteq> CHR ''-''" "c \<noteq> CHR ''+''" "tolower c \<noteq> CHR ''x''" "c \<noteq> CHR 0x00"
proof -
  have n: "(of_char c :: nat) \<in> {48..57} \<union> {97..102} \<union> {65..70}"
    using assms by (auto simp: is_xdigit_def xdigit_val_def Let_def split: if_splits)
  then show "\<not> isspace c" "c \<noteq> CHR ''-''" "c \<noteq> CHR ''+''" "c \<noteq> CHR 0x00" by (auto simp: isspace_def)
  have "(of_char (tolower c) :: nat) \<noteq> 120"
    using n by (auto simp: tolower_def of_char_of)
  then show "tolower c \<noteq> CHR ''x''" by auto
qed

lemma hex_pad_text: "hex_pad n \<noteq> []" "list_all is_xdigit (hex_pad n)" "hex_val (hex_pad n) = n"
proof -
  show "hex_pad n \<noteq> []" by (simp add: hex_pad_def, subst hex_str.simps) simp
  show "list_all is_xdigit (hex_pad n)"
    using hex_str_ascii [of n] by (auto simp: hex_pad_def list_all_iff is_xdigit_def xdigit_val_def)
  have "hex_val (replicate k CHR ''0'' @ s) = hex_val s" for k s
    by (induction k) (simp_all add: hex_val_def xdigit_val_def)
  then show "hex_val (hex_pad n) = n" by (simp add: hex_pad_def hex_str_val)
qed

lemma scan_hex_text:
  assumes "skip_ws s = ds @ r" and "ds \<noteq> []" and "list_all is_xdigit ds"
    and "r \<noteq> []" and "\<not> is_xdigit (hd r)" and "tolower (hd r) \<noteq> CHR ''x''"
  shows "scan_hex s = Some (int (hex_val ds), r)"
proof -
  obtain c ds' where d: "ds = c # ds'" using assms(2) by (cases ds) auto
  obtain e r' where r: "r = e # r'" using assms(4) by (cases r) auto
  have "\<not> istarts ''0x'' (ds @ r)"
    using assms(3,6) xdigit_char(4) by (cases ds') (auto simp: istarts_def d r)
  moreover have "takeWhile is_xdigit (ds @ r) = ds" "dropWhile is_xdigit (ds @ r) = r"
    using assms(3,5) by (simp_all add: r takeWhile_append dropWhile_append list_all_iff)
  moreover have "hd (ds @ r) \<noteq> CHR ''-''" "hd (ds @ r) \<noteq> CHR ''+''"
    using assms(3) xdigit_char(2,3) [of c] by (simp_all add: d)
  ultimately show ?thesis
    unfolding scan_hex_def assms(1) Let_def by (simp add: assms(2))
qed

lemma scan_word_text:
  assumes "skip_ws s = w @ r" and "word_text w" and "length w \<le> n" and "r \<noteq> []" and "isspace (hd r)"
  shows "scan_word n s = Some (w, r)"
proof -
  have "takeWhile (\<lambda>c. \<not> isspace c) (w @ r) = w"
    using assms(2,4,5) by (cases r) (auto simp: word_text_def takeWhile_append list_all_iff)
  then show ?thesis using assms(1,2,3) by (cases w) (auto simp: scan_word_def word_text_def)
qed

lemma scan_llx_text:
  assumes "skip_ws s = hex_pad (unat w) @ r"
    and "r \<noteq> []" and "\<not> is_xdigit (hd r)" and "tolower (hd r) \<noteq> CHR ''x''"
  shows "scan_llx s = Ret (Some (w, r))"
proof -
  have "scan_hex s = Some (int (unat w), r)"
    using scan_hex_text [OF assms(1) hex_pad_text(1,2) assms(2-4)] by (simp only: hex_pad_text(3))
  moreover have "int (unat w) < 2 ^ 64"
    using unsigned_less [of w, where 'a = int] by simp
  ultimately show ?thesis by (simp add: scan_llx_def)
qed

lemma skip_hex: "skip_ws (hex_pad n @ r) = hex_pad n @ r"
  using hex_pad_text(1,2) [of n] xdigit_char(1) by (cases "hex_pad n") auto

lemma skip_word: "word_text w \<Longrightarrow> skip_ws (w @ r) = w @ r"
  by (cases w) (auto simp: word_text_def)

lemma separators:
  "\<not> is_xdigit CHR ''-''" "tolower CHR ''-'' = CHR ''-''" "\<not> is_xdigit CHR '' ''" "tolower CHR '' '' = CHR '' ''"
  "isspace CHR '' ''" "isspace CHR 0x0A"
  by (simp_all add: is_xdigit_def xdigit_val_def tolower_def isspace_def)

lemma skip_pad: "skip_ws (CHR '' '' # replicate k CHR '' '' @ s) = skip_ws s"
  by (induction k) (simp_all add: separators)

lemma takeWhile_snoc_blank: "\<not> P c \<Longrightarrow> takeWhile P (s @ [c]) = takeWhile P s"
  by (induction s) auto

lemma map_tail_text:
  assumes "mapping_ok m"
  shows "scan_map_tail (CHR '' '' # m_perms m @ CHR '' '' # hex_pad (m_offset m) @ CHR '' '' # m_dev m
      @ CHR '' '' # m_inode m @ CHR '' '' # replicate (m_pad m) CHR '' '' @ m_path m @ [CHR 0x0A])
    = (if m_path m = [] then None else Some (m_perms m, path_read m))" (is "scan_map_tail (_ # _ @ ?s1) = _")
proof -
  have w: "word_text (m_perms m)" "length (m_perms m) \<le> 4" "word_text (m_dev m)" "word_text (m_inode m)"
    using assms by (auto simp: mapping_ok_def)
  let ?s4 = "CHR '' '' # replicate (m_pad m) CHR '' '' @ m_path m @ [CHR 0x0A]"
  let ?s3 = "CHR '' '' # m_inode m @ ?s4"
  let ?s2 = "CHR '' '' # m_dev m @ ?s3"
  have 1: "scan_word 4 (CHR '' '' # m_perms m @ ?s1) = Some (m_perms m, ?s1)"
    using w by (intro scan_word_text) (simp_all add: skip_word separators)
  have 2: "scan_hex ?s1 = Some (int (hex_val (hex_pad (m_offset m))), ?s2)"
    by (intro scan_hex_text) (simp_all add: separators skip_hex hex_pad_text del: append_Cons)
  have 3: "scan_word (length ?s2) ?s2 = Some (m_dev m, ?s3)"
    using w by (intro scan_word_text) (simp_all add: skip_word separators)
  have 4: "scan_word (length ?s3) ?s3 = Some (m_inode m, ?s4)"
    using w by (intro scan_word_text) (simp_all add: skip_word separators)
  have 5: "scan_word 255 ?s4 = (if m_path m = [] then None
      else Some (path_read m, drop (length (path_read m)) (m_path m @ [CHR 0x0A])))"
  proof (cases "m_path m")
    case Nil
    then show ?thesis by (simp add: scan_word_def skip_pad separators)
  next
    case (Cons c p)
    then have "\<not> isspace c" using assms by (simp add: mapping_ok_def)
    then have "skip_ws ?s4 = m_path m @ [CHR 0x0A]" by (simp only: skip_pad) (simp add: Cons)
    moreover have "takeWhile (\<lambda>c. \<not> isspace c) (m_path m @ [CHR 0x0A]) = takeWhile (\<lambda>c. \<not> isspace c) (m_path m)"
      by (rule takeWhile_snoc_blank) (simp add: separators)
    ultimately show ?thesis using \<open>\<not> isspace c\<close> by (simp add: scan_word_def path_read_def Cons)
  qed
  show ?thesis unfolding scan_map_tail_def 1 bind.simps prod.case 2 3 4 5 by simp
qed

lemma maps_line_read:
  assumes "mapping_ok m"
  shows "sscanf_map (maps_line m)
    = Ret (if m_path m = [] then None else Some (m_start m, m_end m, m_perms m, path_read m))"
  using map_tail_text [OF assms]
  by (simp add: sscanf_map_def maps_line_def scan_llx_text [OF skip_hex] scan_char_def separators)

lemma maps_line_chars:
  assumes "mapping_ok m"
  shows "no_nul (maps_line m)" "fgets_line 512 (maps_line m @ rest) = maps_line m"
proof -
  have hex: "no_nul (hex_pad n)" "CHR 0x0A \<notin> set (hex_pad n)" for n
    using hex_pad_text(2) [of n] xdigit_char(1,5) by (auto simp: list_all_iff no_nul_def isspace_def)
  have "no_nul (replicate k CHR '' '')" for k by (induction k) simp_all
  then show "no_nul (maps_line m)"
    using assms hex by (simp add: mapping_ok_def word_text_def maps_line_def)
  obtain s where s: "maps_line m = s @ [CHR 0x0A]" "CHR 0x0A \<notin> set s"
  proof
    show "maps_line m = (hex_pad (unat (m_start m)) @ CHR ''-'' # hex_pad (unat (m_end m)) @ CHR '' '' # m_perms m
     @ CHR '' '' # hex_pad (m_offset m) @ CHR '' '' # m_dev m @ CHR '' '' # m_inode m
     @ CHR '' '' # replicate (m_pad m) CHR '' '' @ m_path m) @ [CHR 0x0A]" by (simp add: maps_line_def)
    have "word_text w \<Longrightarrow> CHR 0x0A \<notin> set w" for w by (auto simp: word_text_def list_all_iff isspace_def)
    then show "CHR 0x0A \<notin> set (hex_pad (unat (m_start m)) @ CHR ''-'' # hex_pad (unat (m_end m)) @ CHR '' '' # m_perms m
     @ CHR '' '' # hex_pad (m_offset m) @ CHR '' '' # m_dev m @ CHR '' '' # m_inode m
     @ CHR '' '' # replicate (m_pad m) CHR '' '' @ m_path m)" using assms hex by (simp add: mapping_ok_def)
  qed
  have "takeWhile (\<lambda>c. c \<noteq> CHR 0x0A) (s @ CHR 0x0A # rest) = s"
    using s(2) by (subst takeWhile_append2) auto
  then show "fgets_line 512 (maps_line m @ rest) = maps_line m"
    using assms by (auto simp: fgets_line_def s(1) mapping_ok_def)
qed

lemma find_mapping_lines:
  assumes "list_all mapping_ok ms"
  shows "find_mapping r (concat (map maps_line ms))
    = Ret (map_option (\<lambda>m. (m_start m, path_read m)) (List.find (executes r) ms))"
  using assms
proof (induction ms)
  case Nil
  then show ?case by (simp add: find_mapping.simps)
next
  case (Cons m ms)
  then have ok: "mapping_ok m" by simp
  have "maps_line m \<noteq> []" by (simp add: maps_line_def)
  moreover have "executes r m \<longleftrightarrow> m_path m \<noteq> [] \<and> m_start m \<le> r \<and> r < m_end m \<and> CHR ''x'' \<in> set (m_perms m)"
    by (simp only: executes_def)
  ultimately show ?case
    using Cons maps_line_read [OF ok] maps_line_chars [OF ok]
    by (subst find_mapping.simps) (auto simp: Let_def)
qed

text \<open>
  C15. Which mapping a program counter is attributed to: for a map of lines as the kernel writes
  them, the search returns the start and the path of the first mapping that covers the address,
  is executable and has a path, and nothing when there is none. A path is read up to its first
  blank.
\<close>

theorem find_mapping_first:
  assumes "list_all mapping_ok ms"
  shows "find_mapping r (concat (map maps_line ms))
    = Ret (map_option (\<lambda>m. (m_start m, path_read m)) (List.find (executes r) ms))"
  using find_mapping_lines [OF assms] .

definition sample_map :: "mapping list" where
  "sample_map =
     [\<lparr> m_start = 0x400000, m_end = 0x401000, m_perms = ''r--p'', m_offset = 0, m_dev = ''08:02'',
        m_inode = ''173521'', m_pad = 10, m_path = ''/bin/t'' \<rparr>,
      \<lparr> m_start = 0x401000, m_end = 0x402000, m_perms = ''r-xp'', m_offset = 4096, m_dev = ''08:02'',
        m_inode = ''173521'', m_pad = 10, m_path = ''/bin/t'' \<rparr>]"

lemma sample_map_ok: "list_all mapping_ok sample_map"
  by (simp add: sample_map_def mapping_ok_def word_text_def isspace_def maps_line_def hex_pad_def hex_str.simps)

theorem find_mapping_first_witness:
  "find_mapping 0x401136 (concat (map maps_line sample_map)) = Ret (Some (0x401000, ''/bin/t''))"
  unfolding find_mapping_first [OF sample_map_ok]
  by (simp add: sample_map_def executes_def path_read_def isspace_def)

section \<open>The source location\<close>

lemma lines_read:
  assumes "mok 256" and "length f \<le> 254" and "length l \<le> 254"
    and "no_nul f" and "CHR 0x0A \<notin> set f" and "no_nul l" and "CHR 0x0A \<notin> set l"
  shows "read_location mok (f @ CHR 0x0A # l @ CHR 0x0A # rest) = Ret (f, l)"
proof -
  have cut: "takeWhile (\<lambda>c. c \<noteq> CHR 0x0A) (s @ CHR 0x0A # t) = s" if "CHR 0x0A \<notin> set s" for s t
    using that by (subst takeWhile_append2) auto
  have line: "fgets_line 256 (s @ CHR 0x0A # t) = s @ [CHR 0x0A]" if "CHR 0x0A \<notin> set s" "length s \<le> 254" for s t
    using cut [OF that(1)] that(2) by (simp add: fgets_line_def)
  have "cut_newline (cstr (s @ [CHR 0x0A])) = s" if "no_nul s" "CHR 0x0A \<notin> set s" for s
    using that cut [of s "[]"] by (simp add: cut_newline_def)
  then show ?thesis using assms line by (simp add: read_location_def)
qed

text \<open>
  C16. The source location of an address in a mapped file: \<^verbatim>\<open>addr2line\<close> is asked about the path of
  the first executable mapping around the address and the distance of the address from the start
  of that mapping (not from the load address of the file, which differs by the offset of the
  mapping), and the two lines it answers come back without their newlines.
\<close>

theorem source_location:
  assumes "procfs (maps_path pid) = Some (concat (map maps_line ms))" and "list_all mapping_ok ms"
    and "List.find (executes r) ms = Some m"
    and "popen_read (''addr2line -f -e '' @ path_read m @ '' 0x'' @ hex_str (unat (r - m_start m)))
      = Some (f @ CHR 0x0A # l @ CHR 0x0A # rest)"
    and "length f \<le> 254" and "length l \<le> 254"
    and "no_nul f" and "CHR 0x0A \<notin> set f" and "no_nul l" and "CHR 0x0A \<notin> set l"
    and "mok 16" and "mok 256"
  shows "get_source_location mok procfs popen_read pid r = Ret (Some \<lparr> func_name = Some f, file_line = Some l \<rparr>)"
proof -
  have "addr2line_cmd (path_read m) (r - m_start m)
      = ''addr2line -f -e '' @ path_read m @ '' 0x'' @ hex_str (unat (r - m_start m))"
    by (rule command_whole) (simp add: path_read_def)
  then show ?thesis
    unfolding get_source_location_def assms(1) Let_def option.case find_mapping_lines [OF assms(2)] assms(3)
    using assms(4,11) lines_read [where mok = mok, OF assms(12,5-10)] by simp
qed

theorem source_location_witness:
  "get_source_location (\<lambda>n. n < 1024)
     (\<lambda>p. if p = ''/proc/7/maps'' then Some (concat (map maps_line sample_map)) else None)
     (\<lambda>c. if c = ''addr2line -f -e /bin/t 0x136'' then Some (''main'' @ CHR 0x0A # ''t.c:3'' @ CHR 0x0A # []) else None)
     7 0x401136
   = Ret (Some \<lparr> func_name = Some ''main'', file_line = Some ''t.c:3'' \<rparr>)"
proof -
  have p: "maps_path 7 = ''/proc/7/maps''" "hex_str 0x136 = ''136''" by code_simp+
  show ?thesis
    by (rule source_location [OF _ sample_map_ok, where m = "sample_map ! 1"])
      (simp_all add: p sample_map_def executes_def path_read_def isspace_def)
qed

text \<open>
  The command line fits its buffer: whatever the map of the process says, the path is at most
  255 bytes without blanks, so the command of at most 1023 bytes is never truncated.
\<close>

theorem command_never_truncated:
  assumes "find_mapping r maps = Ret (Some (base, path))"
  shows "addr2line_cmd path (r - base) = ''addr2line -f -e '' @ path @ '' 0x'' @ hex_str (unat (r - base))
    \<and> length (addr2line_cmd path (r - base)) \<le> 1023 \<and> list_all (\<lambda>c. \<not> isspace c) path"
  using find_mapping_path [OF assms] command_whole [of path "r - base"] hex_str_64 [of "r - base"] by simp

theorem command_never_truncated_witness:
  "length (addr2line_cmd ''/bin/t'' (0x401136 - 0x401000)) \<le> 1023"
proof -
  have "find_mapping 0x401136 (concat (map maps_line sample_map)) = Ret (Some (0x401000, ''/bin/t''))"
    unfolding find_mapping_lines [OF sample_map_ok]
    by (simp add: sample_map_def executes_def path_read_def isspace_def)
  from command_never_truncated [OF this] show ?thesis by blast
qed

section \<open>The loop and its log\<close>

text \<open>
  The calls of the logger the turns lead to, from a last status: one for every stop of the filter
  whose registers can be read, until a turn ends the loop.
\<close>

definition status_after :: "32 word \<Rightarrow> observer_turn \<Rightarrow> 32 word" where
  "status_after status t = (case turn_status t of None \<Rightarrow> status | Some w \<Rightarrow> w)"

definition turn_ends :: "32 word \<Rightarrow> observer_turn \<Rightarrow> bool" where
  "turn_ends status t \<longleftrightarrow> \<not> turn_continues t \<or> WIFEXITED (status_after status t) \<or> WIFSIGNALED (status_after status t)
     \<or> (seccomp_stop (status_after status t) \<and> turn_regs t = None)"

definition turn_calls :: "int \<Rightarrow> 32 word \<Rightarrow> observer_turn \<Rightarrow> log_call list" where
  "turn_calls pid status t =
     (if seccomp_stop (status_after status t)
      then (case turn_regs t of None \<Rightarrow> []
            | Some regs \<Rightarrow> (case observed_violation pid t regs of
                Ret sv \<Rightarrow> [(turn_mem t, turn_opens t, sv)] | _ \<Rightarrow> []))
      else [])"

fun calls_of :: "int \<Rightarrow> 32 word \<Rightarrow> observer_turn list \<Rightarrow> log_call list" where
  "calls_of pid status [] = []"
| "calls_of pid status (t # ts) =
     (if turn_ends status t then []
      else turn_calls pid status t @ calls_of pid (status_after status t) ts)"

fun statuses_after :: "32 word \<Rightarrow> observer_turn list \<Rightarrow> 32 word" where
  "statuses_after status [] = status"
| "statuses_after status (t # ts) = statuses_after (status_after status t) ts"

lemma statuses_after_snoc: "statuses_after w (ts @ [t]) = status_after (statuses_after w ts) t"
  by (induction ts arbitrary: w) simp_all

lemma calls_of_snoc:
  "(\<And>i. i < length ts \<Longrightarrow> \<not> turn_ends (statuses_after w (take i ts)) (ts ! i)) \<Longrightarrow>
   calls_of pid w (ts @ [t]) = calls_of pid w ts @ calls_of pid (statuses_after w ts) [t]"
proof (induction ts arbitrary: w)
  case (Cons u ts)
  have "\<not> turn_ends w u" using Cons.prems [of 0] by simp
  moreover have "\<not> turn_ends (statuses_after (status_after w u) (take i ts)) (ts ! i)" if "i < length ts" for i
    using Cons.prems [of "Suc i"] that by simp
  ultimately show ?case using Cons.IH [of "status_after w u"] by simp
qed simp

text \<open>One step, by what it does to the log.\<close>

lemma step_observing:
  assumes "observer_step pid logfile t s = Ret (Observing s')"
  shows "\<not> turn_ends (wait_status s) t \<and> wait_status s' = status_after (wait_status s) t
    \<and> run_log logfile (turn_calls pid (wait_status s) t) (observer_log s) = Ret (observer_log s')"
  using assms
  by (auto simp: observer_step_def Let_def turn_ends_def turn_calls_def status_after_def [symmetric] handle_stop_def
      elim!: obind_Ret_E split: if_split_asm option.split_asm)

lemma step_ends:
  assumes "observer_step pid logfile t s = Ret r" and "\<And>s'. r \<noteq> Observing s'"
  shows "turn_ends (wait_status s) t \<and> (r = Exited (log_content (observer_log s)) \<and> \<not> turn_continues t
    \<or> r = Returned (snd (logger_close (turn_opens t) logfile (log_content (observer_log s)))) \<and> turn_continues t)"
  using assms
  by (auto simp: observer_step_def Let_def turn_ends_def status_after_def [symmetric]
      elim!: obind_Ret_E split: if_split_asm option.split_asm)

lemma observes_log:
  assumes "observes pid logfile s ts s'"
  shows "run_log logfile (calls_of pid (wait_status s) ts) (observer_log s) = Ret (observer_log s')
    \<and> wait_status s' = statuses_after (wait_status s) ts
    \<and> (\<forall>i < length ts. \<not> turn_ends (statuses_after (wait_status s) (take i ts)) (ts ! i))"
  using assms
proof (induction rule: observes.induct)
  case started
  show ?case by simp
next
  case (turned ts s' t s'')
  let ?w = "statuses_after (wait_status s) ts"
  have st: "\<not> turn_ends ?w t" "wait_status s'' = status_after ?w t"
    "run_log logfile (turn_calls pid ?w t) (observer_log s') = Ret (observer_log s'')"
    using step_observing [OF turned.hyps(2)] turned.IH by auto
  have "calls_of pid (wait_status s) (ts @ [t]) = calls_of pid (wait_status s) ts @ turn_calls pid ?w t"
    using calls_of_snoc [of ts "wait_status s" pid t] turned.IH st(1) by simp
  then show ?case
    using turned.IH st by (auto simp: run_log_append statuses_after_snoc nth_append less_Suc_eq)
qed

lemma observes_Cons:
  assumes "observes pid logfile s1 ts s'" and "observer_step pid logfile t s = Ret (Observing s1)"
  shows "observes pid logfile s (t # ts) s'"
  using assms(1)
proof (induction rule: observes.induct)
  case started
  show ?case using observes.turned [OF observes.started assms(2)] by simp
next
  case (turned ts s' u s'')
  then show ?case using observes.turned [of pid logfile s "t # ts" s' u s''] by simp
qed

text \<open>The function and the relation agree: running the loop to its end is a walk and one last step.\<close>

lemma loop_walk:
  "observer_loop pid logfile ts s = Ret (Observing s') \<Longrightarrow> observes pid logfile s ts s'"
proof (induction ts arbitrary: s)
  case Nil
  then show ?case by (simp add: observes.started)
next
  case (Cons t ts)
  then obtain r where r: "observer_step pid logfile t s = Ret r"
    "(case r of Observing s1 \<Rightarrow> observer_loop pid logfile ts s1 | _ \<Rightarrow> Ret r) = Ret (Observing s')"
    by auto
  then obtain s1 where "r = Observing s1" by (cases r) auto
  then show ?case using r Cons.IH observes_Cons [of pid logfile s1 ts s' t s] by simp
qed

lemma loop_end:
  assumes "observer_loop pid logfile ts s = Ret r" and "\<And>s'. r \<noteq> Observing s'"
  obtains us t rest s' where "ts = us @ t # rest" "observes pid logfile s us s'"
    "observer_step pid logfile t s' = Ret r"
  using assms
proof (induction ts arbitrary: s thesis)
  case (Cons t ts)
  obtain q where q: "observer_step pid logfile t s = Ret q"
    "(case q of Observing s1 \<Rightarrow> observer_loop pid logfile ts s1 | _ \<Rightarrow> Ret q) = Ret r"
    using Cons.prems(2) by auto
  show ?case
  proof (cases q)
    case (Observing s1)
    then have "observer_loop pid logfile ts s1 = Ret r" using q(2) by simp
    then obtain us u rest s' where "ts = us @ u # rest" "observes pid logfile s1 us s'"
      "observer_step pid logfile u s' = Ret r"
      using Cons.IH Cons.prems(3) by metis
    then show ?thesis using Cons.prems(1) [of "t # us" u rest s'] observes_Cons q(1) Observing by simp
  qed (use q Cons.prems(1) [of "[]" t ts s] observes.started in auto)
qed auto

lemma walk_loop: "observes pid logfile s ts s' \<Longrightarrow> observer_loop pid logfile (ts @ us) s = observer_loop pid logfile us s'"
proof (induction arbitrary: us rule: observes.induct)
  case (turned ts s' t s'')
  then show ?case by simp
qed simp

text \<open>
  The loop as a machine: the states it passes through are exactly those the step relation
  reaches, so what holds of every reachable state holds at every turn of the loop.
\<close>

theorem loop_is_walk:
  "observer_loop pid logfile ts s = Ret (Observing s') \<longleftrightarrow> observes pid logfile s ts s'"
  using loop_walk walk_loop [of pid logfile s ts s' "[]"] by auto

lemma fresh_log: "log_ok [] \<lparr> first_in_array = True, log_content = [] \<rparr>"
  by (simp add: log_ok_def)

lemma observed_log_ok:
  assumes "observes pid logfile (start_observing w []) ts s'" and "list_all call_fits (calls_of pid w ts)"
  shows "\<exists>js. log_ok js (observer_log s') \<and> map json_abs js = concat (map (logged logfile) (calls_of pid w ts))"
proof -
  have "run_log logfile (calls_of pid w ts) \<lparr> first_in_array = True, log_content = [] \<rparr> = Ret (observer_log s')"
    using observes_log [OF assms(1)] by (simp add: start_observing_def)
  from log_run [OF fresh_log assms(2) this] show ?thesis by simp
qed

text \<open>
  C9. Invariant of the loop: at every turn the log holds the text of an array not yet closed,
  whose elements are the violations seen so far that could be logged, in order, and
  \<^verbatim>\<open>first_in_array\<close> is set exactly as long as there are none. Used: a fresh log.
\<close>

theorem observer_log_invariant:
  assumes "observes pid logfile (start_observing w []) ts s'" and "list_all call_fits (calls_of pid w ts)"
  shows "\<exists>js. log_content (observer_log s') = log_text (map entry_text js)
    \<and> (first_in_array (observer_log s') \<longleftrightarrow> js = [])
    \<and> map json_abs js = concat (map (logged logfile) (calls_of pid w ts))"
  using observed_log_ok [OF assms] by (auto simp: log_ok_def)

text \<open>A session: a signal is delivered, the filter stops a call, the program exits.\<close>

definition sample_regs :: user_regs_struct where
  "sample_regs = \<lparr> orig_rax = 42, reg_rdi = 3, reg_rsi = 0, reg_rdx = 16, reg_r10 = 0, reg_r8 = 0, reg_r9 = 0,
     reg_rbp = 0, reg_rip = 0x401136 \<rparr>"

definition sample_turn :: "32 word \<Rightarrow> observer_turn" where
  "sample_turn w = \<lparr> turn_continues = True, turn_status = Some w, turn_regs = Some sample_regs,
     turn_mem = (\<lambda>n. n = 3 \<or> n = 16 \<or> n = 32 \<or> n = 64 \<or> n = 72 \<or> n = 256), turn_clock = (''t'', 0),
     turn_procfs = (\<lambda>p. None), turn_popen = (\<lambda>c. None), turn_native = 0, turn_resolve = (\<lambda>a n. None),
     turn_opens = True \<rparr>"

definition sample_session :: "observer_turn list" where
  "sample_session = [sample_turn (stop_status 17 0), sample_turn (stop_status 5 7)]"

lemma sample_statuses:
  "\<not> WIFEXITED (stop_status 17 0)" "\<not> WIFSIGNALED (stop_status 17 0)" "\<not> seccomp_stop (stop_status 17 0)"
  "\<not> WIFEXITED (stop_status 5 7)" "\<not> WIFSIGNALED (stop_status 5 7)" "seccomp_stop (stop_status 5 7)"
  "WIFEXITED (exit_status 0)"
  by (simp_all add: WIFEXITED_low WIFSIGNALED_low seccomp_stop_high stop_status_unat exit_status_unat)

lemma sample_fields:
  "turn_continues (sample_turn v)" "turn_status (sample_turn v) = Some v" "turn_regs (sample_turn v) = Some sample_regs"
  "turn_opens (sample_turn v)"
  by (simp_all add: sample_turn_def)

lemma sample_starved: "starved (turn_mem (sample_turn w))"
  by (auto simp: starved_def mem_limited_def sample_turn_def)

lemma sample_observed: "\<exists>sv. observed_violation pid (sample_turn w) sample_regs = Ret sv \<and> sv_pid sv = pid \<and> sv_syscall sv = 42"
  by (simp add: observed_violation_def sample_turn_def get_timestamp_def get_source_location_def violation_of_def
      sample_regs_def)

lemma sample_walk:
  obtains s' where "observes 7 (Some ''l'') (start_observing w []) sample_session s'"
    "log_content (observer_log s') = ''[{}'' @ [CHR 0x0A]"
    "list_all call_fits (calls_of 7 w sample_session)"
    "concat (map (logged (Some ''l'')) (calls_of 7 w sample_session)) = [TObject []]"
proof -
  let ?t = "sample_turn (stop_status 5 7)"
  obtain sv where sv: "observed_violation 7 ?t sample_regs = Ret sv" "sv_pid sv = 7" "sv_syscall sv = 42"
    using sample_observed by blast
  let ?s1 = "start_observing (stop_status 17 0) []"
  let ?s2 = "\<lparr> wait_status = stop_status 5 7, observer_log = \<lparr> first_in_array = False, log_content = ''[{}'' @ [CHR 0x0A] \<rparr> \<rparr>"
  have 1: "observer_step 7 (Some ''l'') (sample_turn (stop_status 17 0)) (start_observing w []) = Ret (Observing ?s1)"
    by (simp add: observer_step_def sample_fields sample_statuses start_observing_def)
  have 2: "observer_step 7 (Some ''l'') ?t ?s1 = Ret (Observing ?s2)"
    by (simp add: observer_step_def sample_fields sample_statuses handle_stop_def sv(1) starved_log(1) [OF sample_starved]
        start_observing_def)
  have "observes 7 (Some ''l'') (start_observing w []) sample_session ?s2"
    using observes_Cons [OF observes_Cons [OF observes.started 2] 1] by (simp add: sample_session_def)
  moreover have "calls_of 7 w sample_session = [(turn_mem ?t, True, sv)]"
    by (simp add: sample_session_def turn_ends_def turn_calls_def status_after_def sample_fields sample_statuses sv(1))
  moreover have "mem_limited (turn_mem ?t)" using sample_starved by (simp add: starved_def)
  then have "call_fits (turn_mem ?t, True, sv)" by (simp add: call_fits_def pid_fits_def sv)
  moreover have "logged (Some ''l'') (turn_mem ?t, True, sv) = [TObject []]"
    by (simp add: starved_log(2) [OF sample_starved])
  ultimately show thesis using that by simp
qed

theorem observer_log_invariant_witness:
  "\<exists>s' js. observes 7 (Some ''l'') (start_observing 0x57F []) sample_session s'
     \<and> log_content (observer_log s') = log_text (map entry_text js) \<and> map json_abs js = [TObject []]"
proof -
  obtain s' where s: "observes 7 (Some ''l'') (start_observing 0x57F []) sample_session s'"
    "list_all call_fits (calls_of 7 0x57F sample_session)"
    "concat (map (logged (Some ''l'')) (calls_of 7 0x57F sample_session)) = [TObject []]"
    by (rule sample_walk [of "0x57F"])
  from observer_log_invariant [OF s(1,2), unfolded s(3)] obtain js where
    js: "log_content (observer_log s') = log_text (map entry_text js)" "map json_abs js = [TObject []]"
    by (elim exE conjE)
  show ?thesis by (rule exI [of _ s'], rule exI [of _ js], intro conjI) (rule s(1), rule js(1), rule js(2))
qed

section \<open>The loop ends\<close>










text \<open>
  A wait that fails is not noticed: the loop takes the status of the stop before for a new one,
  so that after a violation the same stop is handled, and logged, once more.
\<close>

theorem failed_wait_repeats:
  assumes "turn_status t = None"
  shows "observer_step pid logfile t s = observer_step pid logfile (t\<lparr> turn_status := Some (wait_status s) \<rparr>) s"
proof -
  let ?u = "t\<lparr> turn_status := Some (wait_status s) \<rparr>"
  have "observed_violation pid ?u regs = observed_violation pid t regs" for regs
    by (simp add: observed_violation_def)
  then have "handle_stop pid logfile ?u regs lg = handle_stop pid logfile t regs lg" for regs lg
    by (simp add: handle_stop_def)
  then show ?thesis using assms by (simp add: observer_step_def Let_def split: option.split)
qed

theorem failed_wait_repeats_witness:
  "observer_step 7 (Some ''l'') ((sample_turn 0)\<lparr> turn_status := None \<rparr>)
     \<lparr> wait_status = stop_status 5 7, observer_log = \<lparr> first_in_array = False, log_content = ''[{}'' \<rparr> \<rparr>
   = Ret (Observing \<lparr> wait_status = stop_status 5 7,
       observer_log = \<lparr> first_in_array = False, log_content = ''[{},{}'' @ [CHR 0x0A] \<rparr> \<rparr>)"
proof -
  obtain sv where sv: "observed_violation 7 (sample_turn (stop_status 5 7)) sample_regs = Ret sv"
    using sample_observed by blast
  have "((sample_turn 0)\<lparr> turn_status := None \<rparr>)\<lparr> turn_status := Some (stop_status 5 7) \<rparr> = sample_turn (stop_status 5 7)"
    by (simp add: sample_turn_def)
  then show ?thesis
    by (subst failed_wait_repeats) (simp_all add: sample_fields, simp add: observer_step_def sample_fields
      sample_statuses handle_stop_def sv starved_log(1) [OF sample_starved] Let_def)
qed

end
