(* ===== verification/Main_Spec.thy ===== *)
theory Main_Spec
  imports Main_Program Ctx_Spec Observer_Spec "HOL-Library.Multiset"
begin

text \<open>
  Runs of the whole program: which command lines it takes, that the target never runs without
  its filter, that the filter is the one the profile file describes, and the log of a session.
\<close>

section \<open>Command lines\<close>

text \<open>The options given so far, as the results that gave them.\<close>

definition opt_bag :: "('a \<Rightarrow> opt_result) \<Rightarrow> 'a option \<Rightarrow> opt_result multiset" where
  "opt_bag f x = (case x of None \<Rightarrow> {#} | Some v \<Rightarrow> {#f v#})"

definition given :: "options \<Rightarrow> opt_result multiset" where
  "given opts = opt_bag OptTarget (target_binary opts) + opt_bag OptProfile (json_profile opts)
     + opt_bag OptLog (logfile opts)"

lemma opt_bag_simps [simp]: "opt_bag f None = {#}" "opt_bag f (Some v) = {#f v#}"
  by (simp_all add: opt_bag_def)

lemma given_no_options [simp]: "given no_options = {#}"
  by (simp add: given_def no_options_def)

fun opt_kind :: "opt_result \<Rightarrow> nat" where
  "opt_kind (OptTarget s) = 0"
| "opt_kind (OptProfile s) = 1"
| "opt_kind (OptLog s) = 2"
| "opt_kind OptHelp = 3"
| "opt_kind OptBad = 4"

lemma given_kinds: "size {#r \<in># given opts. opt_kind r = k#} \<le> 1" "r \<in># given opts \<Longrightarrow> opt_kind r < 3"
  by (cases "target_binary opts"; cases "json_profile opts"; cases "logfile opts"; simp add: given_def; auto)+

lemma given_inject: "given opts = given opts' \<longleftrightarrow> opts = (opts' :: options)"
proof
  assume eq: "given opts = given opts'"
  have "OptTarget s \<in># given o' \<longleftrightarrow> target_binary o' = Some s" "OptProfile s \<in># given o' \<longleftrightarrow> json_profile o' = Some s"
    "OptLog s \<in># given o' \<longleftrightarrow> logfile o' = Some s" for s and o' :: options
    by (cases "target_binary o'"; cases "json_profile o'"; cases "logfile o'"; auto simp: given_def)+
  then have "\<forall>s. (target_binary opts = Some s) = (target_binary opts' = Some s)"
    "\<forall>s. (json_profile opts = Some s) = (json_profile opts' = Some s)"
    "\<forall>s. (logfile opts = Some s) = (logfile opts' = Some s)" using eq by metis+
  then show "opts = opts'" by (metis (full_types) not_None_eq options.equality old.unit.exhaust)
qed simp

lemma twice_not_given:
  assumes "r \<in># given opts" and "opt_kind r = opt_kind r'"
  shows "given opts' \<noteq> given opts + mset (r' # rs)"
proof
  assume "given opts' = given opts + mset (r' # rs)"
  moreover obtain M where "given opts = add_mset r M" using assms(1) by (rule mset_add)
  ultimately have "size {#x \<in># given opts'. opt_kind x = opt_kind r#} \<ge> 2" using assms(2) by simp
  then show False using given_kinds(1) [of "opt_kind r" opts'] by simp
qed

lemma given_update:
  "target_binary opts = None \<Longrightarrow> given (opts\<lparr> target_binary := Some s \<rparr>) = add_mset (OptTarget s) (given opts)"
  "json_profile opts = None \<Longrightarrow> given (opts\<lparr> json_profile := Some s \<rparr>) = add_mset (OptProfile s) (given opts)"
  "logfile opts = None \<Longrightarrow> given (opts\<lparr> logfile := Some s \<rparr>) = add_mset (OptLog s) (given opts)"
  by (simp_all add: given_def)

lemma given_member:
  "target_binary opts = Some s \<Longrightarrow> OptTarget s \<in># given opts"
  "json_profile opts = Some s \<Longrightarrow> OptProfile s \<in># given opts"
  "logfile opts = Some s \<Longrightarrow> OptLog s \<in># given opts"
  by (simp_all add: given_def)

lemma read_options_bag:
  "read_options rs opts = pret opts' \<longleftrightarrow> given opts' = given opts + mset rs"
proof (induction rs opts rule: read_options.induct)
  case (1 opts)
  show ?case by (auto simp: given_inject)
next
  case (2 s rs opts)
  show ?case
  proof (cases "target_binary opts")
    case None
    then show ?thesis using 2 given_update(1) [OF None, of s] by simp
  next
    case (Some v)
    then show ?thesis using twice_not_given [OF given_member(1) [OF Some], of "OptTarget s" opts' rs] by simp
  qed
next
  case (3 s rs opts)
  show ?case
  proof (cases "json_profile opts")
    case None
    then show ?thesis using 3 given_update(2) [OF None, of s] by simp
  next
    case (Some v)
    then show ?thesis using twice_not_given [OF given_member(2) [OF Some], of "OptProfile s" opts' rs] by simp
  qed
next
  case (4 s rs opts)
  show ?case
  proof (cases "logfile opts")
    case None
    then show ?thesis using 4 given_update(3) [OF None, of s] by simp
  next
    case (Some v)
    then show ?thesis using twice_not_given [OF given_member(3) [OF Some], of "OptLog s" opts' rs] by simp
  qed
next
  case (5 rs opts)
  have "OptHelp \<notin># given opts'" using given_kinds(2) [of OptHelp opts'] by auto
  then show ?case by auto
next
  case (6 rs opts)
  have "OptBad \<notin># given opts'" using given_kinds(2) [of OptBad opts'] by auto
  then show ?case by auto
qed

lemma read_options_ends: "read_options rs opts \<in> {exit_with EXIT_SUCCESS, exit_with EXIT_FAILURE} \<union> range pret"
  by (induction rs opts rule: read_options.induct) auto

lemma command_line_bag:
  "command_line args = pret (t, p, l)
   \<longleftrightarrow> (\<exists>rs. getopt_scan args = (rs, []) \<and> mset rs = {#OptTarget t, OptProfile p, OptLog l#})"
proof -
  obtain rs ns where s: "getopt_scan args = (rs, ns)" by (cases "getopt_scan args")
  let ?o = "\<lparr> target_binary = Some t, json_profile = Some p, logfile = Some l \<rparr>"
  have "command_line args = pret (t, p, l) \<longleftrightarrow> ns = [] \<and> read_options rs no_options = pret ?o"
    using read_options_ends [of rs no_options]
    by (auto simp: command_line_def s split: option.splits if_splits intro!: options.equality)
  also have "\<dots> \<longleftrightarrow> ns = [] \<and> mset rs = {#OptTarget t, OptProfile p, OptLog l#}"
    by (auto simp: read_options_bag given_def no_options_def ac_simps)
  finally show ?thesis using s by auto
qed

lemma command_line_ends: "command_line args \<in> {exit_with EXIT_SUCCESS, exit_with EXIT_FAILURE} \<union> range pret"
proof -
  obtain rs ns where s: "getopt_scan args = (rs, ns)" by (cases "getopt_scan args")
  show ?thesis using read_options_ends [of rs no_options] by (auto simp: command_line_def s split: option.split)
qed

text \<open>
  C30. The command lines accepted: the program goes on exactly when the options are one target, one
  profile and one log, each once, in any order and any of the forms \<^verbatim>\<open>getopt_long\<close> reads, with no
  other word; otherwise it exits with 0 or 1 before it touches any file.
\<close>

theorem command_lines_accepted:
  "(command_line args = pret (t, p, l)
     \<longleftrightarrow> (\<exists>rs. getopt_scan args = (rs, []) \<and> mset rs = {#OptTarget t, OptProfile p, OptLog l#}))
   \<and> ((\<nexists>tpl. command_line args = pret tpl) \<longrightarrow> command_line args \<in> {exit_with 0, exit_with 1})"
  using command_line_bag [of args t p l] command_line_ends [of args] by (auto simp: EXIT_SUCCESS_def EXIT_FAILURE_def)

lemma scan_names:
  "getopt_scan (''--target'' # v # rest) = (case getopt_scan rest of (rs, ns) \<Rightarrow> (OptTarget v # rs, ns))"
  "getopt_scan (''--profile'' # v # rest) = (case getopt_scan rest of (rs, ns) \<Rightarrow> (OptProfile v # rs, ns))"
  "getopt_scan (''--log'' # v # rest) = (case getopt_scan rest of (rs, ns) \<Rightarrow> (OptLog v # rs, ns))"
  "getopt_scan (''-t'' # v # rest) = (case getopt_scan rest of (rs, ns) \<Rightarrow> (OptTarget v # rs, ns))"
  "getopt_scan (''-p'' # v # rest) = (case getopt_scan rest of (rs, ns) \<Rightarrow> (OptProfile v # rs, ns))"
  "getopt_scan (''-l'' # v # rest) = (case getopt_scan rest of (rs, ns) \<Rightarrow> (OptLog v # rs, ns))"
  "getopt_scan ((CHR ''-'' # CHR ''-'' # CHR ''l'' # CHR ''o'' # CHR ''g'' # CHR ''='' # v) # rest) = (case getopt_scan rest of (rs, ns) \<Rightarrow> (OptLog v # rs, ns))"
  by (simp_all add: long_option_def short_option_def long_names_def opt_with_argument_def)

text \<open>
  The usage line of the help text is accepted, with the long options, with the short ones, and
  mixed in another order, whatever the arguments are (they may start with a dash).
\<close>

theorem usage_accepted:
  "command_line [''--target'', t, ''--profile'', p, ''--log'', l] = pret (t, p, l)
   \<and> command_line [''-t'', t, ''-p'', p, ''-l'', l] = pret (t, p, l)
   \<and> command_line [''--log='' @ l, ''-t'', t, ''--profile'', p] = pret (t, p, l)"
  by (simp add: command_line_def scan_names no_options_def del: getopt_scan.simps(2))

theorem command_lines_accepted_witness:
  "command_line [''-t'', ''a'', ''-t'', ''b''] \<in> {exit_with 0, exit_with 1}"
proof -
  have "command_line [''-t'', ''a'', ''-t'', ''b''] \<noteq> pret tpl" for tpl
    by (simp add: command_line_def scan_names no_options_def del: getopt_scan.simps(2))
  then show ?thesis using command_lines_accepted [of "[''-t'', ''a'', ''-t'', ''b'']"] by blast
qed

section \<open>The child\<close>

lemma pbind_pret_iff: "pbind m f = pret y \<longleftrightarrow> (\<exists>x. m = pret x \<and> f x = pret y)"
proof (cases m)
  case (Ret r)
  then show ?thesis by (cases r) (simp_all add: pbind_def pret_def)
qed (simp_all add: pret_def)

lemma main_child:
  assumes "main w args = Ret (ChildRan acts)"
  obtains t p l ctx argv where "command_line args = pret (t, p, l)" "set_up w t p = pret (ctx, argv)"
    "acts = child w ctx argv" "w_fork w = 0"
proof -
  obtain r where r: "pbind (command_line args) (\<lambda>(t, p, l). pbind (set_up w t p) (\<lambda>(ctx, argv). pret (ctx, argv, l))) = Ret r"
    "(case r of Inl e \<Rightarrow> Ret (MainExit e) | Inr (ctx, argv, l) \<Rightarrow>
        if w_fork w < 0 then Ret (MainExit EXIT_FAILURE)
        else if w_fork w = 0 then Ret (ChildRan (child w ctx argv)) else parent w (w_fork w) l) = Ret (ChildRan acts)"
    using assms by (auto simp: main_def)
  then obtain ctx argv l where q: "r = Inr (ctx, argv, l)" by (cases r) auto
  then have "pbind (command_line args) (\<lambda>(t, p, l). pbind (set_up w t p) (\<lambda>(ctx, argv). pret (ctx, argv, l)))
      = pret (ctx, argv, l)" using r(1) by (simp add: pret_def)
  then obtain t p where tp: "command_line args = pret (t, p, l)" "set_up w t p = pret (ctx, argv)"
    by (auto simp: pbind_pret_iff)
  have "parent w k l \<noteq> Ret (ChildRan acts)" for k
    by (auto simp: parent_def)
  then have "acts = child w ctx argv \<and> w_fork w = 0"
    using r(2) by (auto simp: q split: if_splits)
  then show thesis using that tp by blast
qed

lemma set_up_steps:
  assumes "set_up w t p = pret (ctx, argv)"
  obtains profile rt rc where "0 \<le> rc"
    "parse_JSON (w_mem w) (Some (w_files w p)) (Some (w_profile w)) = Ret (rc, Some profile)"
    "build_seccomp_context (w_seccomp w) (w_mem w) (Some profile) (Some rt) = Ret (Built ctx)"
    "split_command (w_mem w) t = pret argv"
proof -
  obtain rc prof where 1: "parse_JSON (w_mem w) (Some (w_files w p)) (Some (w_profile w)) = Ret (rc, prof)" "0 \<le> rc"
    using assms by (auto simp: set_up_def pret_def exit_with_def elim!: obind_Ret_E split: if_split_asm)
  obtain rc2 rt where 2: "build_runtime_context (w_mem w) (w_uname w) (w_status w) (Some (w_runtime w)) = Ret (rc2, rt)" "0 \<le> rc2"
    using assms 1 by (auto simp: set_up_def pret_def exit_with_def elim!: obind_Ret_E split: if_split_asm)
  obtain b where b: "build_seccomp_context (w_seccomp w) (w_mem w) prof rt = Ret b"
    "(case b of Built ctx \<Rightarrow> pbind (split_command (w_mem w) t) (\<lambda>target_argv. pret (ctx, target_argv))
      | _ \<Rightarrow> exit_with EXIT_FAILURE) = pret (ctx, argv)"
    using assms 1 2 by (auto simp: set_up_def pret_def [of "(ctx, argv)"] elim!: obind_Ret_E)
  then have "b = Built ctx" "split_command (w_mem w) t = pret argv"
    by (auto simp: pbind_pret_iff split: built.splits)
  moreover obtain profile rt' where "prof = Some profile" "rt = Some rt'"
    using b(1) \<open>b = Built ctx\<close> by (cases prof; cases rt) (auto simp: build_seccomp_context_def)
  ultimately show thesis using that 1 b(1) by blast
qed

text \<open>
  C1. The target never runs without its filter: whenever the child process reaches \<^verbatim>\<open>execve\<close>, it has
  first stopped for the tracer and then successfully loaded a filter, and that filter is what
  \<^verbatim>\<open>build_seccomp_context\<close> built from a profile \<^verbatim>\<open>parse_JSON\<close> read without error.
\<close>

theorem no_run_without_filter:
  assumes "main w args = Ret (ChildRan acts)" and "Execve argv \<in> set acts"
  shows "\<exists>ctx rest t p l profile rt rc.
    acts = [TraceMe, RaiseTrap, LoadFilter ctx, FreeFilter ctx, Execve argv] @ rest \<and> 0 \<le> w_load w ctx
    \<and> command_line args = pret (t, p, l) \<and> split_command (w_mem w) t = pret argv
    \<and> parse_JSON (w_mem w) (Some (w_files w p)) (Some (w_profile w)) = Ret (rc, Some profile) \<and> 0 \<le> rc
    \<and> build_seccomp_context (w_seccomp w) (w_mem w) (Some profile) (Some rt) = Ret (Built ctx)"
proof -
  obtain t p l ctx argv' where m: "command_line args = pret (t, p, l)" "set_up w t p = pret (ctx, argv')"
    "acts = child w ctx argv'"
    by (rule main_child [OF assms(1)])
  have c: "acts = [TraceMe, RaiseTrap, LoadFilter ctx, FreeFilter ctx, Execve argv]
      @ (if w_execve w then [] else [ChildExit EXIT_FAILURE])" "0 \<le> w_load w ctx" "argv' = argv"
    using assms(2) by (auto simp: m(3) child_def split: if_splits)
  obtain profile rt rc where "0 \<le> rc"
    "parse_JSON (w_mem w) (Some (w_files w p)) (Some (w_profile w)) = Ret (rc, Some profile)"
    "build_seccomp_context (w_seccomp w) (w_mem w) (Some profile) (Some rt) = Ret (Built ctx)"
    "split_command (w_mem w) t = pret argv'"
    by (rule set_up_steps [OF m(2)])
  then show ?thesis using c m(1) by metis
qed

text \<open>
  The set-up of a run that goes well: the profile file carries a profile, the running system can be
  examined, and memory suffices.
\<close>

lemma set_up_well:
  assumes "profile_ok prof" and "txt1 = json_serialize_r esc pretty 0 (json_of (tree_of_profile prof))"
    and "serves (w_mem w) (24 * length txt1 + 128)" and "copies_fit (w_mem w) (tree_of_profile prof)"
    and "w_files w p = readable_file txt1"
    and "build_runtime_context (w_mem w) (w_uname w) (w_status w) (Some (w_runtime w)) = Ret (0, Some rt)"
    and "names_given prof" and "list_all (rule_ready (w_seccomp w) (w_mem w) rt) (profile_syscalls prof)"
    and "planned (w_seccomp w) prof rt = Built ctx"
    and "no_nul t" and "length t \<le> 1024" and "words t \<noteq> []" and "\<forall>n \<le> 16384. w_mem w n"
  shows "set_up w t p = pret (ctx, map Some (words t) @ [None])"
  using profile_reads_back [OF assms(1-4)] builder_plan [OF assms(7,8)] split_command_args [OF assms(10-13)]
  by (simp add: set_up_def assms(5,6,9))

text \<open>
  C2. From the profile file to the running target: for a command line with target, profile and log,
  a file that is the JSON text of a profile, and a system that can be examined, the child stops for
  the tracer, loads exactly the filter of the flat plan for that profile and that system, and
  executes the words of the target, closed by the null pointer.
\<close>

theorem profile_to_filter:
  assumes "command_line args = pret (t, p, l)"
    and "profile_ok prof" and "txt1 = json_serialize_r esc pretty 0 (json_of (tree_of_profile prof))"
    and "serves (w_mem w) (24 * length txt1 + 128)" and "copies_fit (w_mem w) (tree_of_profile prof)"
    and "w_files w p = readable_file txt1"
    and "build_runtime_context (w_mem w) (w_uname w) (w_status w) (Some (w_runtime w)) = Ret (0, Some rt)"
    and "names_given prof" and "list_all (rule_ready (w_seccomp w) (w_mem w) rt) (profile_syscalls prof)"
    and "planned (w_seccomp w) prof rt = Built ctx"
    and "no_nul t" and "length t \<le> 1024" and "words t \<noteq> []" and "\<forall>n \<le> 16384. w_mem w n"
    and "w_fork w = 0" and "w_traceme w" and "0 \<le> w_load w ctx" and "w_execve w"
  shows "main w args = Ret (ChildRan
    [TraceMe, RaiseTrap, LoadFilter ctx, FreeFilter ctx, Execve (map Some (words t) @ [None])])"
  using set_up_well [OF assms(2-14)] assms(15-18)
  by (simp add: main_def assms(1)) (simp add: pret_def child_def)

text \<open>A run over the sample profile, with the recording library.\<close>

definition sample_world :: "int \<Rightarrow> observer_turn list \<Rightarrow> scmp_call list world" where
  "sample_world pid turns = \<lparr> w_mem = (\<lambda>m. m < 2 ^ 34), w_files = (\<lambda>p. readable_file sample_text),
     w_uname = Some (''x86_64'', ''''), w_status = Some (''CapEff:0'' @ [CHR 0x0A]), w_seccomp = recorder,
     w_profile = zero_profile, w_runtime = zero_runtime_context, w_fork = pid, w_traceme = True, w_load = (\<lambda>c. 0),
     w_execve = True, w_first_wait = 0x57F, w_setoptions = True, w_log = (\<lambda>l. []), w_turns = turns \<rparr>"

definition sample_args :: "string list" where
  "sample_args = [''-t'', ''./t x'', ''-p'', ''p.json'', ''-l'', ''l'']"

definition sample_filter :: "scmp_call list" where
  "sample_filter = [ArchAdd 0xc000003e, ArchAdd 0x40000003, RuleAdd 0x7ff00000 42]"

lemma sample_args_read: "command_line sample_args = pret (''./t x'', ''p.json'', ''l'')"
  by (simp add: sample_args_def command_line_def scan_names no_options_def del: getopt_scan.simps(2))

lemma sample_runtime:
  "build_runtime_context (\<lambda>m. m < 2 ^ 34) (Some (''x86_64'', '''')) (Some (''CapEff:0'' @ [CHR 0x0A])) (Some zero_runtime_context)
   = Ret (0, Some (zero_runtime_context\<lparr> current_arch := Some ''SCMP_ARCH_X86_64'' \<rparr>))"
proof -
  have held: "build_held_caps (\<lambda>m. m < 2 ^ 34) (Some (''CapEff:0'' @ [CHR 0x0A])) ctx = (0, ctx)" for ctx
    unfolding build_held_caps_def option.case no_caps_line Let_def by simp
  have version: "sscanf_u_dot_u [] = Ret None" by (simp add: sscanf_u_dot_u_def scan_u_def Let_def)
  have zero: "zero_runtime_context\<lparr> current_arch := a, kernel_major := word_of_nat 0, kernel_minor := word_of_nat 0 \<rparr>
      = zero_runtime_context\<lparr> current_arch := a \<rparr>" for a by (simp add: zero_runtime_context_def)
  have arch: "arch_of_machine ''x86_64'' = ''SCMP_ARCH_X86_64''" by (simp add: arch_of_machine_def)
  show ?thesis
    unfolding build_runtime_context_def arch Let_def option.case prod.case version obind.simps zero held by simp
qed

lemma sample_planned:
  "names_given sample_profile" "list_all (rule_ready recorder (\<lambda>m. m < 2 ^ 34) rt) (profile_syscalls sample_profile)"
  "planned recorder sample_profile rt = Built sample_filter"
proof -
  show "names_given sample_profile" by (simp add: names_given_def sample_profile_def)
  show "list_all (rule_ready recorder (\<lambda>m. m < 2 ^ 34) rt) (profile_syscalls sample_profile)"
    by (simp add: rule_ready_def sample_profile_def rule_applies_def UINT_MAX_def)
  show "planned recorder sample_profile rt = Built sample_filter"
    by (simp add: planned_def sample_profile_def sample_filter_def arch_calls_def rule_calls_def applies_def
        rule_applies_def name_calls_def recorder_def map_arch_string_def arch_of_string_def arch_number_def
        resolve_rule_action_def map_action_string_def)
qed

lemma sample_words: "words ''./t x'' = [''./t'', ''x'']"
  by (simp add: words_word isspace_def)

theorem profile_to_filter_witness:
  "main (sample_world 0 []) sample_args = Ret (ChildRan
     [TraceMe, RaiseTrap, LoadFilter sample_filter, FreeFilter sample_filter, Execve [Some ''./t'', Some ''x'', None]])"
proof -
  have "main (sample_world 0 []) sample_args = Ret (ChildRan [TraceMe, RaiseTrap, LoadFilter sample_filter,
      FreeFilter sample_filter, Execve (map Some (words ''./t x'') @ [None])])"
    by (rule profile_to_filter [OF sample_args_read sample_profile_carried(1) sample_text_def,
          where rt = "zero_runtime_context\<lparr> current_arch := Some ''SCMP_ARCH_X86_64'' \<rparr>"])
      (simp_all add: sample_world_def sample_profile_carried(2,3) [simplified] sample_planned(1,3)
        sample_planned(2) [simplified] sample_words sample_runtime [simplified])
  then show ?thesis by (simp add: sample_words)
qed

lemma sample_set_up:
  "set_up (sample_world pid turns) ''./t x'' ''p.json'' = pret (sample_filter, [Some ''./t'', Some ''x'', None])"
proof -
  have "set_up (sample_world pid turns) ''./t x'' ''p.json'' = pret (sample_filter, map Some (words ''./t x'') @ [None])"
    by (rule set_up_well [OF sample_profile_carried(1) sample_text_def,
          where rt = "zero_runtime_context\<lparr> current_arch := Some ''SCMP_ARCH_X86_64'' \<rparr>"])
      (simp_all add: sample_world_def sample_profile_carried(2,3) [simplified] sample_planned(1,3)
        sample_planned(2) [simplified] sample_words sample_runtime [simplified])
  then show ?thesis by (simp add: sample_words)
qed

theorem no_run_without_filter_witness:
  "\<exists>acts. main (sample_world 0 []) sample_args = Ret (ChildRan acts)
     \<and> (\<exists>ctx rest. acts = [TraceMe, RaiseTrap, LoadFilter ctx, FreeFilter ctx, Execve [Some ''./t'', Some ''x'', None]] @ rest)"
proof -
  let ?acts = "child (sample_world 0 []) sample_filter [Some ''./t'', Some ''x'', None]"
  have "main (sample_world 0 []) sample_args = Ret (ChildRan ?acts)"
    by (simp add: main_def sample_args_read sample_set_up) (simp add: pret_def sample_world_def)
  moreover have "Execve [Some ''./t'', Some ''x'', None] \<in> set ?acts" by (simp add: child_def sample_world_def)
  ultimately show ?thesis using no_run_without_filter by blast
qed

section \<open>The tracer\<close>






end
