(* ===== verification/Parson_Copy.thy ===== *)
theory Parson_Copy
  imports Parson_Tree
begin

text \<open>
  Whole-value operations of \<^verbatim>\<open>include/parson.c\<close>: \<^verbatim>\<open>json_value_deep_copy\<close>, \<^verbatim>\<open>json_value_equals\<close> and
  \<^verbatim>\<open>json_validate\<close>, with the double arithmetic of the comparison, the typed getters by dotted path
  and the short names of the API. Each is shown to do on the tables what \<open>tree_equals\<close>,
  \<open>tree_matches\<close> and the identity do on trees.
\<close>

section \<open>Numbers: difference and order of doubles\<close>

definition signed_int :: "bool \<Rightarrow> nat \<Rightarrow> int" where
  "signed_int s m = (if s then - int m else int m)"

text \<open>The difference as a multiple of \<open>2^b\<close>, \<open>b\<close> the smaller exponent, rounded to nearest even.\<close>

fun f64_sub :: "f64 \<Rightarrow> f64 \<Rightarrow> f64" where
  "f64_sub (Finite s m e) (Finite s' m' e') =
     (let b = min e e';
          d = signed_int s m * 2 ^ nat (e - b) - signed_int s' m' * 2 ^ nat (e' - b);
          sign = (if d = 0 then m = 0 \<and> s \<and> \<not> s' else d < 0)
      in round_f64 sign (nat (abs d) * 2 ^ nat b) (2 ^ nat (- b)))"
| "f64_sub (Inf s) (Inf s') = (if s = s' then NaN else Inf s)"
| "f64_sub (Inf s) (Finite _ _ _) = Inf s"
| "f64_sub (Finite _ _ _) (Inf s) = Inf (\<not> s)"
| "f64_sub NaN _ = NaN"
| "f64_sub _ NaN = NaN"

fun f64_fabs :: "f64 \<Rightarrow> f64" where
  "f64_fabs (Finite s m e) = Finite False m e"
| "f64_fabs (Inf s) = Inf False"
| "f64_fabs NaN = NaN"

fun f64_less :: "f64 \<Rightarrow> f64 \<Rightarrow> bool" where
  "f64_less (Finite s m e) (Finite s' m' e') =
     (let b = min e e' in signed_int s m * 2 ^ nat (e - b) < signed_int s' m' * 2 ^ nat (e' - b))"
| "f64_less (Inf s) (Inf s') = (s \<and> \<not> s')"
| "f64_less (Inf s) (Finite _ _ _) = s"
| "f64_less (Finite _ _ _) (Inf s) = (\<not> s)"
| "f64_less NaN _ = False"
| "f64_less _ NaN = False"

definition EPSILON :: f64 where
  "EPSILON = round_f64 False 1 1000000"

definition numbers_close :: "f64 \<Rightarrow> f64 \<Rightarrow> bool" where
  "numbers_close x y = f64_less (f64_fabs (f64_sub x y)) EPSILON"

section \<open>Reading by a dotted path, and the short names\<close>

definition json_object_dotget_string :: "json json_object option \<Rightarrow> string \<Rightarrow> string option outcome" where
  "json_object_dotget_string obj name =
     obind (json_object_dotget_value obj name) (\<lambda>v. Ret (json_value_get_string v))"

definition json_object_dotget_string_len :: "json json_object option \<Rightarrow> string \<Rightarrow> nat outcome" where
  "json_object_dotget_string_len obj name =
     obind (json_object_dotget_value obj name) (\<lambda>v. Ret (json_value_get_string_len v))"

definition json_object_dotget_number :: "json json_object option \<Rightarrow> string \<Rightarrow> f64 outcome" where
  "json_object_dotget_number obj name =
     obind (json_object_dotget_value obj name) (\<lambda>v. Ret (json_value_get_number v))"

definition json_object_dotget_object ::
    "json json_object option \<Rightarrow> string \<Rightarrow> json json_object option outcome" where
  "json_object_dotget_object obj name =
     obind (json_object_dotget_value obj name) (\<lambda>v. Ret (json_value_get_object v))"

definition json_object_dotget_array ::
    "json json_object option \<Rightarrow> string \<Rightarrow> json json_array option outcome" where
  "json_object_dotget_array obj name =
     obind (json_object_dotget_value obj name) (\<lambda>v. Ret (json_value_get_array v))"

definition json_object_dotget_boolean :: "json json_object option \<Rightarrow> string \<Rightarrow> int outcome" where
  "json_object_dotget_boolean obj name =
     obind (json_object_dotget_value obj name) (\<lambda>v. Ret (json_value_get_boolean v))"

definition json_object_dothas_value :: "json json_object option \<Rightarrow> string \<Rightarrow> bool outcome" where
  "json_object_dothas_value obj name = obind (json_object_dotget_value obj name) (\<lambda>v. Ret (v \<noteq> None))"

definition json_object_dothas_value_of_type ::
    "json json_object option \<Rightarrow> string \<Rightarrow> JSON_Value_Type \<Rightarrow> bool outcome" where
  "json_object_dothas_value_of_type obj name ty =
     obind (json_object_dotget_value obj name) (\<lambda>v. Ret (v \<noteq> None \<and> json_value_get_type v = ty))"

definition json_object_dotremove :: "json json_object \<Rightarrow> string \<Rightarrow> (bool \<times> json json_object) outcome" where
  "json_object_dotremove obj name = json_object_dotremove_internal obj name"

definition json_type :: "json option \<Rightarrow> JSON_Value_Type" where
  "json_type v = json_value_get_type v"

definition json_string :: "json option \<Rightarrow> string option" where
  "json_string v = json_value_get_string v"

definition json_string_len :: "json option \<Rightarrow> nat" where
  "json_string_len v = json_value_get_string_len v"

definition json_number :: "json option \<Rightarrow> f64" where
  "json_number v = json_value_get_number v"

definition json_boolean :: "json option \<Rightarrow> int" where
  "json_boolean v = json_value_get_boolean v"

definition parson_strdup :: "(nat \<Rightarrow> bool) \<Rightarrow> string \<Rightarrow> string option" where
  "parson_strdup mok s = parson_strndup mok (cstr s) (length (cstr s))"

section \<open>Loops over the entries of a value\<close>

text \<open>
  A loop that builds up a state and stops with \<^verbatim>\<open>NULL\<close> at the first failure, and one that stops
  at the first entry that fails a test. The congruence rules let the recursive calls below see
  which entries they are made for.
\<close>

fun build_over :: "('s \<Rightarrow> 'a \<Rightarrow> 's option outcome) \<Rightarrow> 's \<Rightarrow> 'a list \<Rightarrow> 's option outcome" where
  "build_over f s [] = Ret (Some s)"
| "build_over f s (x # xs) =
     obind (f s x) (\<lambda>r. case r of None \<Rightarrow> Ret None | Some s' \<Rightarrow> build_over f s' xs)"

fun all_over :: "('a \<Rightarrow> bool outcome) \<Rightarrow> 'a list \<Rightarrow> bool outcome" where
  "all_over f [] = Ret True"
| "all_over f (x # xs) = obind (f x) (\<lambda>b. if b then all_over f xs else Ret False)"

lemma build_over_cong [fundef_cong]:
  assumes "xs = ys" and "s = t" and "\<And>u x. x \<in> set ys \<Longrightarrow> f u x = g u x"
  shows "build_over f s xs = build_over g t ys"
  unfolding assms(1,2) using assms(3)
  by (induction ys arbitrary: t) (auto intro!: obind_cong split: option.split)

lemma all_over_cong [fundef_cong]:
  assumes "xs = ys" and "\<And>x. x \<in> set ys \<Longrightarrow> f x = g x"
  shows "all_over f xs = all_over g ys"
  unfolding assms(1) using assms(2) by (induction ys) (auto intro!: obind_cong)

text \<open>The recursion goes down: what a lookup returns is smaller than the value looked into.\<close>

definition value_size :: "json option \<Rightarrow> nat" where
  "value_size v = (case v of None \<Rightarrow> 0 | Some w \<Rightarrow> Suc (size w))"

lemma value_size_elem: "value_size (json_array_get_value (Some a) i) < value_size (Some (JArray a))"
proof (cases "i < length (elems a)")
  case True
  have "size (elems a ! i) < Suc (size_list size (elems a))"
    using size_list_estimation' [of "elems a ! i" "elems a" "size (elems a ! i)" size] True by simp
  then show ?thesis using True
    by (cases a) (simp add: value_size_def json_array_get_value_def json_array_get_count_def)
qed (simp add: value_size_def json_array_get_value_def json_array_get_count_def)

lemma value_size_member:
  assumes "json_object_get_value (Some obj) key = Ret v"
  shows "value_size v < value_size (Some (JObject obj))"
proof (cases v)
  case (Some w)
  have "w \<in> set (item_values obj)"
    using assms Some unfolding json_object_get_value_def json_object_getn_value_def arr_def
    by (auto elim!: obind_Ret_E split: if_splits)
  then have "size w \<le> size_list size (item_values obj)"
    using size_list_estimation' [of w "item_values obj" "size w" size] by simp
  then show ?thesis using Some by (cases obj) (simp add: value_size_def)
qed (simp add: value_size_def)

section \<open>Copies\<close>

function json_value_deep_copy :: "(nat \<Rightarrow> bool) \<Rightarrow> json option \<Rightarrow> json option outcome" where
  "json_value_deep_copy mok value =
     (case value of
        Some (JArray temp_array) \<Rightarrow>
          (case json_value_get_array (json_value_init_array mok) of
             None \<Rightarrow> Ret None
           | Some temp_array_copy \<Rightarrow>
               obind (build_over (\<lambda>copy i.
                   obind (json_value_deep_copy mok (json_array_get_value (Some temp_array) i)) (\<lambda>c. case c of
                       None \<Rightarrow> Ret None
                     | Some temp_value_copy \<Rightarrow> json_array_add mok copy temp_value_copy))
                 temp_array_copy [0..<json_array_get_count (Some temp_array)])
               (\<lambda>r. Ret (map_option JArray r)))
      | Some (JObject temp_object) \<Rightarrow>
          (case json_value_get_object (json_value_init_object mok) of
             None \<Rightarrow> Ret None
           | Some temp_object_copy \<Rightarrow>
               obind (build_over (\<lambda>copy i.
                   obind (ub_unless (json_object_get_name temp_object i)) (\<lambda>temp_key.
                   obind (json_object_get_value (Some temp_object) temp_key) (\<lambda>temp_value.
                   obind (json_value_deep_copy mok temp_value) (\<lambda>c. case c of
                       None \<Rightarrow> Ret None
                     | Some temp_value_copy \<Rightarrow>
                         (case parson_strdup mok temp_key of
                            None \<Rightarrow> Ret None
                          | Some key_copy \<Rightarrow> json_object_add mok copy key_copy temp_value_copy)))))
                 temp_object_copy [0..<json_object_get_count temp_object])
               (\<lambda>r. Ret (map_option JObject r)))
      | Some (JBoolean b) \<Rightarrow> Ret (json_value_init_boolean mok (json_value_get_boolean value))
      | Some (JNumber x) \<Rightarrow> Ret (json_value_init_number mok (json_value_get_number value))
      | Some (JString temp_string) \<Rightarrow>
          (case parson_strndup mok temp_string (length temp_string) of
             None \<Rightarrow> Ret None
           | Some temp_string_copy \<Rightarrow> Ret (json_value_init_string_no_copy mok temp_string_copy))
      | Some JNull \<Rightarrow> Ret (json_value_init_null mok)
      | None \<Rightarrow> Ret None)"
  by pat_completeness auto
termination
  by (relation "measure (\<lambda>(mok, v). value_size v)") (simp_all add: value_size_elem value_size_member)

declare json_value_deep_copy.simps [simp del]

section \<open>Validation and equality\<close>

function json_validate :: "json option \<Rightarrow> json option \<Rightarrow> bool outcome" where
  "json_validate schema value =
     (if schema = None \<or> value = None then Ret False
      else if json_value_get_type schema \<noteq> json_value_get_type value \<and> json_value_get_type schema \<noteq> JSONNull
      then Ret False
      else case schema of
        Some (JArray schema_array) \<Rightarrow>
          if json_array_get_count (Some schema_array) = 0 then Ret True
          else all_over (\<lambda>i. json_validate (json_array_get_value (Some schema_array) 0)
                               (json_array_get_value (json_value_get_array value) i))
                 [0..<json_array_get_count (json_value_get_array value)]
      | Some (JObject schema_object) \<Rightarrow>
          (case json_value_get_object value of
             None \<Rightarrow> UB
           | Some value_object \<Rightarrow>
               if json_object_get_count schema_object = 0 then Ret True
               else if json_object_get_count value_object < json_object_get_count schema_object then Ret False
               else all_over (\<lambda>i.
                      obind (ub_unless (json_object_get_name schema_object i)) (\<lambda>key.
                      obind (json_object_get_value (Some schema_object) key) (\<lambda>temp_schema_value.
                      obind (json_object_get_value (Some value_object) key) (\<lambda>temp_value.
                        if temp_value = None then Ret False
                        else json_validate temp_schema_value temp_value))))
                    [0..<json_object_get_count schema_object])
      | Some _ \<Rightarrow> Ret True
      | None \<Rightarrow> Ret False)"
  by pat_completeness auto
termination
  by (relation "measure (\<lambda>(schema, v). value_size schema)") (simp_all add: value_size_elem value_size_member)

declare json_validate.simps [simp del]

function json_value_equals :: "json option \<Rightarrow> json option \<Rightarrow> bool outcome" where
  "json_value_equals a b =
     (if json_value_get_type a \<noteq> json_value_get_type b then Ret False
      else case (a, b) of
        (Some (JArray a_array), Some (JArray b_array)) \<Rightarrow>
          if json_array_get_count (Some a_array) \<noteq> json_array_get_count (Some b_array) then Ret False
          else all_over (\<lambda>i. json_value_equals (json_array_get_value (Some a_array) i)
                               (json_array_get_value (Some b_array) i))
                 [0..<json_array_get_count (Some a_array)]
      | (Some (JObject a_object), Some (JObject b_object)) \<Rightarrow>
          if json_object_get_count a_object \<noteq> json_object_get_count b_object then Ret False
          else all_over (\<lambda>i.
                 obind (ub_unless (json_object_get_name a_object i)) (\<lambda>key.
                 obind (json_object_get_value (Some a_object) key) (\<lambda>a_value.
                 obind (json_object_get_value (Some b_object) key) (\<lambda>b_value.
                   json_value_equals a_value b_value))))
               [0..<json_object_get_count a_object]
      | (Some (JString a_string), Some (JString b_string)) \<Rightarrow>
          Ret (length a_string = length b_string
               \<and> take (length a_string) a_string = take (length a_string) b_string)
      | (Some (JBoolean _), Some (JBoolean _)) \<Rightarrow>
          Ret (json_value_get_boolean a = json_value_get_boolean b)
      | (Some (JNumber _), Some (JNumber _)) \<Rightarrow>
          Ret (numbers_close (json_value_get_number a) (json_value_get_number b))
      | _ \<Rightarrow> Ret True)"
  by pat_completeness auto
termination
  by (relation "measure (\<lambda>(a, b). value_size a)") (auto intro: value_size_elem value_size_member)

declare json_value_equals.simps [simp del]

section \<open>Loop lemmas\<close>

lemma build_over_upto:
  assumes "P k s" and "k \<le> n"
    and step: "\<And>i s. k \<le> i \<Longrightarrow> i < n \<Longrightarrow> P i s \<Longrightarrow>
       \<exists>r. f s i = Ret r \<and> (\<forall>s'. r = Some s' \<longrightarrow> P (Suc i) s') \<and> (Q \<longrightarrow> r \<noteq> None)"
  shows "\<exists>r. build_over f s [k..<n] = Ret r \<and> (\<forall>s'. r = Some s' \<longrightarrow> P n s') \<and> (Q \<longrightarrow> r \<noteq> None)"
  using assms
proof (induction "n - k" arbitrary: k s)
  case (Suc m)
  then have k: "k < n" by simp
  obtain r where r: "f s k = Ret r" "\<And>s'. r = Some s' \<Longrightarrow> P (Suc k) s'" "Q \<Longrightarrow> r \<noteq> None"
    using Suc.prems(3) [OF order_refl k Suc.prems(1)] by blast
  show ?case
  proof (cases r)
    case None
    then show ?thesis using r(1,3) k by (auto simp: upt_conv_Cons)
  next
    case (Some s')
    have "\<exists>r. build_over f s' [Suc k..<n] = Ret r \<and> (\<forall>s'. r = Some s' \<longrightarrow> P n s') \<and> (Q \<longrightarrow> r \<noteq> None)"
      using Suc.hyps(2) k r(2) [OF Some] Suc.prems(3) by (intro Suc.hyps(1)) simp_all
    then show ?thesis using r(1) Some k by (simp add: upt_conv_Cons)
  qed
qed simp

lemma all_over_Ret:
  assumes "\<And>x. x \<in> set xs \<Longrightarrow> f x = Ret (p x)"
  shows "all_over f xs = Ret (list_all p xs)"
  using assms by (induction xs) auto

lemma all_over_upto: "(\<And>i. i < n \<Longrightarrow> f i = Ret (p i)) \<Longrightarrow> all_over f [0..<n] = Ret (\<forall>i<n. p i)"
  using all_over_Ret [of "[0..<n]" f p] by (auto simp: list_all_iff)

section \<open>Looking up what is stored\<close>

lemma get_value_items: "obj_ok obj \<Longrightarrow> json_object_get_value (Some obj) key = Ret (map_of (items obj) key)"
  using getn_value_map [of obj "length key" key] by (simp add: json_object_get_value_def)

lemma stored_member:
  assumes "obj_ok obj" and "i < length (names obj)"
  shows "json_object_get_name obj i = Some (names obj ! i)"
    and "json_object_get_value (Some obj) (names obj ! i) = Ret (Some (item_values obj ! i))"
    and "items obj ! i = (names obj ! i, item_values obj ! i)"
    and "item_values obj ! i \<in> set (item_values obj)"
proof -
  have len: "length (item_values obj) = length (names obj)" using obj_ok_fields(2) [OF assms(1)] .
  show "json_object_get_name obj i = Some (names obj ! i)"
    using assms(2) by (simp add: json_object_get_name_def json_object_get_count_def)
  have "map_of (items obj) (names obj ! i) = Some (item_values obj ! i)"
    using assms(2) len obj_ok_fields(7) [OF assms(1)] by (simp add: items_def map_of_zip_nth)
  then show "json_object_get_value (Some obj) (names obj ! i) = Ret (Some (item_values obj ! i))"
    using get_value_items [OF assms(1)] by simp
  show "items obj ! i = (names obj ! i, item_values obj ! i)" using assms(2) len by (simp add: items_def)
  show "item_values obj ! i \<in> set (item_values obj)" using assms(2) len by simp
qed

lemma well_formed_parts:
  "well_formed (Suc d) (JArray a) \<Longrightarrow> i < length (elems a) \<Longrightarrow> well_formed d (elems a ! i)"
  "members_ok d obj \<Longrightarrow> obj_ok obj"
  "members_ok d obj \<Longrightarrow> i < length (names obj) \<Longrightarrow> well_formed d (item_values obj ! i)"
  "members_ok d obj \<Longrightarrow> i < length (names obj) \<Longrightarrow> no_nul (names obj ! i)"
  by (auto simp: elems_ok_def members_ok_def list_all_iff stored_member(4))

section \<open>A copy is the same value\<close>

text \<open>The size of the blocks a copy asks for, in units of the tree and the bytes of its keys.\<close>

primrec copy_size :: "jtree \<Rightarrow> nat" where
  "copy_size (TObject kvs) = Suc (sum_list (map (\<lambda>(k, n). length k + n) (map (map_prod id copy_size) kvs)))"
| "copy_size (TArray ts) = Suc (sum_list (map copy_size ts))"
| "copy_size (TString s) = Suc (length s)"
| "copy_size (TNumber x) = 1"
| "copy_size (TBoolean b) = 1"
| "copy_size TNull = 1"

definition memory_for_copy :: "(nat \<Rightarrow> bool) \<Rightarrow> jtree \<Rightarrow> bool" where
  "memory_for_copy mok t \<longleftrightarrow> (\<forall>n\<le>64 * copy_size t + 64. mok n)"

lemma copy_size_pos: "0 < copy_size t"
  by (cases t) simp_all

lemma copy_size_elem: "t \<in> set ts \<Longrightarrow> copy_size t \<le> copy_size (TArray ts)"
  using member_le_sum_list [of "copy_size t" "map copy_size ts"] by simp

lemma copy_size_member: "(k, t) \<in> set kvs \<Longrightarrow> length k + copy_size t \<le> copy_size (TObject kvs)"
  using member_le_sum_list [of "length k + copy_size t"
      "map (\<lambda>(k, n). length k + n) (map (map_prod id copy_size) kvs)"]
  by (force simp: comp_def)

lemma copy_size_length: "length ts < copy_size (TArray ts)" "length kvs < copy_size (TObject kvs)"
proof -
  have "length ts \<le> sum_list (map copy_size ts)"
  proof (induction ts)
    case (Cons t ts)
    then show ?case using copy_size_pos [of t] by simp
  qed simp
  then show "length ts < copy_size (TArray ts)" by simp
  have "length kvs \<le> sum_list (map (\<lambda>(k, n). length k + n) (map (map_prod id copy_size) kvs))"
  proof (induction kvs)
    case (Cons kv kvs)
    then show ?case using copy_size_pos [of "snd kv"] by (cases kv) simp
  qed simp
  then show "length kvs < copy_size (TObject kvs)" by simp
qed

lemma memory_smaller: "memory_for_copy mok t \<Longrightarrow> copy_size u \<le> copy_size t \<Longrightarrow> memory_for_copy mok u"
  by (auto simp: memory_for_copy_def)

lemma memory_serves:
  "memory_for_copy mok t \<Longrightarrow> mem_limited mok \<Longrightarrow> n < copy_size t \<Longrightarrow> serves mok (24 * n + 128)"
  unfolding memory_for_copy_def serves_def by auto


lemma map_fst_values: "map fst (map (\<lambda>(k, v). (k, f v)) kvs) = map fst kvs"
  by (induction kvs) auto

lemma add_with_memory:
  assumes "obj_ok obj" and "k \<notin> set (names obj)" and "serves mok (24 * n + 128)" and "length (names obj) < n"
  shows "json_object_add mok obj k v \<noteq> Ret None"
proof -
  have "0 < budget mok n obj" using assms(3,4) by (simp add: budget_def)
  then show ?thesis using json_object_add_absent [OF assms(1,2)] by (metis option.distinct(1) outcome.inject)
qed

text \<open>
  The statement by induction on the levels: the copy ends, is well formed and says the same, and
  there is one when memory suffices.
\<close>

definition copies :: "nat \<Rightarrow> (nat \<Rightarrow> bool) \<Rightarrow> json \<Rightarrow> bool" where
  "copies d mok v \<longleftrightarrow>
     (\<exists>r. json_value_deep_copy mok (Some v) = Ret r
        \<and> (\<forall>w. r = Some w \<longrightarrow> well_formed d w \<and> json_abs w = json_abs v)
        \<and> (memory_for_copy mok (json_abs v) \<longrightarrow> r \<noteq> None))"

lemma copiesE:
  assumes "copies d mok v"
  obtains "json_value_deep_copy mok (Some v) = Ret None" "\<not> memory_for_copy mok (json_abs v)"
  | w where "json_value_deep_copy mok (Some v) = Ret (Some w)" "well_formed d w" "json_abs w = json_abs v"
  using assms unfolding copies_def by (metis not_None_eq)

lemma memory_32: "memory_for_copy mok t \<Longrightarrow> mok 32 \<and> mok 72"
  using copy_size_pos [of t] by (auto simp: memory_for_copy_def)

lemma copies_array:
  assumes lim: "mem_limited mok" and a: "elems_ok d a"
    and IH: "\<And>v. well_formed d v \<Longrightarrow> copies d mok v"
  shows "copies (Suc d) mok (JArray a)"
proof (cases "json_value_get_array (json_value_init_array mok)")
  case None
  then have "\<not> (mok 32 \<and> mok 72)" by (auto simp: json_value_init_array_def json_array_make_def split: if_splits)
  then show ?thesis using None memory_32 by (auto simp: copies_def json_value_deep_copy.simps simp del: json_abs.simps)
next
  case (Some c)
  let ?n = "length (elems a)"
  let ?P = "\<lambda>i c. elems_ok d c \<and> map json_abs (elems c) = map json_abs (take i (elems a))"
  let ?Q = "memory_for_copy mok (json_abs (JArray a))"
  let ?f = "\<lambda>copy i. obind (json_value_deep_copy mok (json_array_get_value (Some a) i)) (\<lambda>c. case c of
       None \<Rightarrow> Ret None | Some temp_value_copy \<Rightarrow> json_array_add mok copy temp_value_copy)"
  have c0: "?P 0 c" using Some by (auto simp: json_value_init_array_def json_array_make_def elems_ok_def split: if_splits)
  have "\<exists>r. build_over ?f c [0..<?n] = Ret r \<and> (\<forall>s'. r = Some s' \<longrightarrow> ?P ?n s') \<and> (?Q \<longrightarrow> r \<noteq> None)"
  proof (rule build_over_upto)
    fix i c assume i: "i < ?n" and P: "?P i c"
    have v: "well_formed d (elems a ! i)" using a i by (simp add: elems_ok_def list_all_iff)
    have m: "?Q \<Longrightarrow> memory_for_copy mok (json_abs (elems a ! i))"
      using i by (rule_tac memory_smaller) (auto intro!: copy_size_elem simp del: copy_size.simps)
    have g: "json_array_get_value (Some a) i = Some (elems a ! i)"
      using i by (simp add: json_array_get_value_def json_array_get_count_def)
    show "\<exists>r. ?f c i = Ret r \<and> (\<forall>s'. r = Some s' \<longrightarrow> ?P (Suc i) s') \<and> (?Q \<longrightarrow> r \<noteq> None)"
    proof (cases rule: copiesE [OF IH [OF v]])
      case 1
      then show ?thesis using g m by (auto simp del: json_abs.simps)
    next
      case (2 w)
      have len: "length (elems c) = i" using arg_cong [OF conjunct2 [OF P], of length] i by simp
      have fits: "?Q \<Longrightarrow> json_array_add mok c w \<noteq> Ret None"
      proof -
        assume ?Q
        then have "serves mok (24 * ?n + 128)"
          using lim copy_size_length(1) [of "map json_abs (elems a)"]
            by (intro memory_serves) (simp_all del: copy_size.simps)
        then obtain c' where "json_array_add mok c w = Ret (Some c')"
          using len i P by (auto simp: elems_ok_def elim: array_add_fits)
        then show ?thesis by simp
      qed
      show ?thesis
      proof (cases rule: array_add_cases [OF conjunct1 [OF P] 2(2), of mok])
        case 1
        then show ?thesis using g 2(1) fits by auto
      next
        case w: (2 c')
        then show ?thesis using g 2 P i by (simp add: take_Suc_conv_app_nth)
      qed
    qed
  qed (use c0 in simp_all)
  then show ?thesis using Some
    by (auto simp: copies_def json_value_deep_copy.simps [of _ "Some (JArray a)"] json_array_get_count_def)
qed


lemma copies_object:
  assumes lim: "mem_limited mok" and o: "members_ok d obj"
    and IH: "\<And>v. well_formed d v \<Longrightarrow> copies d mok v"
  shows "copies (Suc d) mok (JObject obj)"
proof (cases "json_value_get_object (json_value_init_object mok)")
  case None
  then have "\<not> (mok 32 \<and> mok 72)"
    by (auto simp: json_value_init_object_def json_object_make_def json_object_init_def split: if_splits)
  then show ?thesis using None memory_32 by (auto simp: copies_def json_value_deep_copy.simps simp del: json_abs.simps)
next
  case (Some c)
  let ?n = "length (names obj)" and ?kvs = "map (\<lambda>(k, v). (k, json_abs v)) (items obj)"
  let ?P = "\<lambda>i c. members_ok d c \<and> map (\<lambda>(k, v). (k, json_abs v)) (items c) = take i ?kvs"
  let ?Q = "memory_for_copy mok (TObject ?kvs)"
  let ?f = "\<lambda>copy i. obind (ub_unless (json_object_get_name obj i)) (\<lambda>temp_key.
     obind (json_object_get_value (Some obj) temp_key) (\<lambda>temp_value.
     obind (json_value_deep_copy mok temp_value) (\<lambda>c. case c of
         None \<Rightarrow> Ret None
       | Some temp_value_copy \<Rightarrow>
           (case parson_strdup mok temp_key of
              None \<Rightarrow> Ret None
            | Some key_copy \<Rightarrow> json_object_add mok copy key_copy temp_value_copy))))"
  have ok: "obj_ok obj" by (rule well_formed_parts(2) [OF o])
  have len: "length ?kvs = ?n" using length_items [OF ok] by simp
  have c0: "?P 0 c" using Some init_object_ok [of mok c d]
    by (auto simp: json_value_init_object_def json_object_make_def json_object_init_def items_def split: if_splits)
  have "\<exists>r. build_over ?f c [0..<?n] = Ret r \<and> (\<forall>s'. r = Some s' \<longrightarrow> ?P ?n s') \<and> (?Q \<longrightarrow> r \<noteq> None)"
  proof (rule build_over_upto)
    fix i c assume i: "i < ?n" and P: "?P i c"
    let ?k = "names obj ! i" and ?v = "item_values obj ! i"
    note st = stored_member [OF ok i]
    have c: "obj_ok c" using P well_formed_parts(2) by blast
    have kvs: "?kvs ! i = (?k, json_abs ?v)" using st(3) i len by (simp add: length_items [OF ok])
    have new: "?k \<notin> set (names c)"
    proof -
      have "names c = map fst (take i ?kvs)" using P fst_items [OF c] by (metis map_fst_values)
      then have "names c = take i (names obj)" using map_fst_values [of json_abs "items obj"] fst_items [OF ok]
        by (simp only: take_map [symmetric])
      then show ?thesis using i obj_ok_fields(7) [OF ok] by (auto simp: in_set_conv_nth nth_eq_iff_index_eq)
    qed
    have m: "length ?k + copy_size (json_abs ?v) \<le> copy_size (TObject ?kvs)"
      using i len kvs by (intro copy_size_member) (metis nth_mem)
    have key: "parson_strdup mok ?k = (if mok (length ?k + 1) then Some ?k else None)"
      using well_formed_parts(4) [OF o i] by (simp add: parson_strdup_def parson_strndup_def)
    show "\<exists>r. ?f c i = Ret r \<and> (\<forall>s'. r = Some s' \<longrightarrow> ?P (Suc i) s') \<and> (?Q \<longrightarrow> r \<noteq> None)"
    proof (cases rule: copiesE [OF IH [OF well_formed_parts(3) [OF o i]]])
      case 1
      then have "\<not> ?Q" using memory_smaller [OF _ add_leD2 [OF m]] by blast
      then show ?thesis using st(1,2) 1(1) by simp
    next
      case (2 w)
      have "length (items c) = length (take i ?kvs)" using arg_cong [OF conjunct2 [OF P], of length] by simp
      then have lc: "length (names c) = i" using i length_items [OF c] length_items [OF ok] by simp
      have fits: "?Q \<Longrightarrow> mok (length ?k + 1) \<and> json_object_add mok c ?k w \<noteq> Ret None"
        using m memory_serves [OF _ lim, of "TObject ?kvs" ?n] copy_size_length(2) [of ?kvs] len i lc
        by (intro conjI add_with_memory [OF c new, of mok ?n])
          (auto simp: memory_for_copy_def simp del: copy_size.simps)
      show ?thesis
      proof (cases rule: add_cases [OF c lim, of ?k w])
        case 1
        then show ?thesis using st key 2(1) fits by auto
      next
        case (2 c')
        then show ?thesis
          using st key \<open>json_value_deep_copy mok (Some _) = _\<close> \<open>well_formed d w\<close> \<open>json_abs w = _\<close> P i len kvs fits
            items_snoc [OF c 2(2,3)] well_formed_parts(4) [OF o i]
          by (auto simp: members_ok_def take_Suc_conv_app_nth)
      qed
    qed
  qed (use c0 in simp_all)
  then show ?thesis using Some len
    by (auto simp: copies_def json_value_deep_copy.simps [of _ "Some (JObject obj)"] json_object_get_count_def items_map)
qed

lemma deep_copy_copies: "mem_limited mok \<Longrightarrow> well_formed d v \<Longrightarrow> copies d mok v"
proof (induction d arbitrary: v)
  case (Suc d)
  show ?case
  proof (cases v)
    case (JObject obj) then show ?thesis using Suc copies_object by simp
  next
    case (JArray a) then show ?thesis using Suc copies_array by simp
  next
    case (JString s)
    then show ?thesis
      using memory_32 [of mok "TString s"]
      by (auto simp: copies_def json_value_deep_copy.simps parson_strndup_def json_value_init_string_no_copy_def)
        (auto simp: memory_for_copy_def)
  qed (use Suc.prems(2) memory_32 in \<open>auto simp: copies_def json_value_deep_copy.simps
      json_value_init_number_def json_value_init_boolean_def json_value_init_null_def dest: memory_32\<close>)
qed simp

section \<open>Equality of trees\<close>

text \<open>What \<^verbatim>\<open>json_value_equals\<close> decides: members by key in any order, numbers up to \<open>EPSILON\<close>.\<close>

function tree_equals :: "jtree \<Rightarrow> jtree \<Rightarrow> bool" where
  "tree_equals a b =
     (case (a, b) of
        (TObject kvs, TObject kvs') \<Rightarrow>
          length kvs = length kvs'
        \<and> list_all (\<lambda>(k, x). case map_of kvs' k of None \<Rightarrow> False | Some y \<Rightarrow> tree_equals x y) kvs
      | (TArray xs, TArray ys) \<Rightarrow> length xs = length ys \<and> list_all (\<lambda>(x, y). tree_equals x y) (zip xs ys)
      | (TString s, TString s') \<Rightarrow> s = s'
      | (TNumber x, TNumber y) \<Rightarrow> numbers_close x y
      | (TBoolean x, TBoolean y) \<Rightarrow> x = y
      | (TNull, TNull) \<Rightarrow> True
      | _ \<Rightarrow> False)"
  by pat_completeness auto
termination
proof (relation "measure (\<lambda>(a, b). size a)", goal_cases)
  case (2 a b a' b' kvs kvs' kv k x y)
  then have "size x \<le> size_list (size_prod (\<lambda>_. 0) size) kvs" by (intro size_list_estimation' [of kv]) auto
  then show ?case using 2 by auto
next
  case (3 a b a' b' xs ys xy x y)
  then have "size x \<le> size_list size xs" by (intro size_list_estimation' [of x]) (auto dest: set_zip_leftD)
  then show ?case using 3 by auto
qed simp

declare tree_equals.simps [simp del]

lemma tree_equals_cases:
  "tree_equals (TObject kvs) (TObject kvs') \<longleftrightarrow> length kvs = length kvs'
     \<and> (\<forall>i<length kvs. \<exists>y. map_of kvs' (fst (kvs ! i)) = Some y \<and> tree_equals (snd (kvs ! i)) y)"
  "tree_equals (TArray xs) (TArray ys) \<longleftrightarrow> length xs = length ys \<and> (\<forall>i<length xs. tree_equals (xs ! i) (ys ! i))"
  "tree_equals (TString s) (TString s') \<longleftrightarrow> s = s'"
  "tree_equals (TNumber x) (TNumber y) \<longleftrightarrow> numbers_close x y"
  "tree_equals (TBoolean c) (TBoolean c') \<longleftrightarrow> c = c'" "tree_equals TNull TNull"
  by (auto simp: tree_equals.simps [of "TObject _"] tree_equals.simps [of "TArray _"] tree_equals.simps [of "TString _"]
      tree_equals.simps [of "TNumber _"] tree_equals.simps [of "TBoolean _"] tree_equals.simps [of TNull]
      list_all_length split_beta split: option.splits)

text \<open>A tree has the type of its value; trees of different types are not equal.\<close>

definition tree_type :: "jtree \<Rightarrow> JSON_Value_Type" where
  "tree_type t = (case t of TObject _ \<Rightarrow> JSONObject | TArray _ \<Rightarrow> JSONArray | TString _ \<Rightarrow> JSONString
     | TNumber _ \<Rightarrow> JSONNumber | TBoolean _ \<Rightarrow> JSONBoolean | TNull \<Rightarrow> JSONNull)"

lemma type_tree: "json_value_get_type (Some v) = tree_type (json_abs v)"
  by (cases v) (simp_all add: tree_type_def)

lemma tree_equals_type: "tree_equals a b \<Longrightarrow> tree_type a = tree_type b"
  by (cases a; cases b) (simp_all add: tree_type_def tree_equals.simps)

lemma equals_tree:
  "well_formed d a \<Longrightarrow> well_formed d' b \<Longrightarrow>
   json_value_equals (Some a) (Some b) = Ret (tree_equals (json_abs a) (json_abs b))"
proof (induction d arbitrary: a b d')
  case (Suc d)
  obtain e where d': "d' = Suc e" using Suc.prems(2) by (cases d') simp_all
  show ?case
  proof (cases "json_value_get_type (Some a) = json_value_get_type (Some b)")
    case False
    then show ?thesis
      using tree_equals_type [of "json_abs a" "json_abs b"]
      by (auto simp: json_value_equals.simps [of "Some a"] type_tree simp del: json_value_get_type.simps)
  next
    case True
    show ?thesis
    proof (cases a)
      case (JObject oa)
      then obtain ob where b: "b = JObject ob" using True by (cases b) simp_all
      have oa: "obj_ok oa" and ob: "obj_ok ob" using Suc.prems JObject b d' by (simp_all add: members_ok_def)
      let ?n = "length (names oa)"
      have "all_over (\<lambda>i.
                 obind (ub_unless (json_object_get_name oa i)) (\<lambda>key.
                 obind (json_object_get_value (Some oa) key) (\<lambda>a_value.
                 obind (json_object_get_value (Some ob) key) (\<lambda>b_value.
                   json_value_equals a_value b_value)))) [0..<?n]
          = Ret (\<forall>i<?n. \<exists>y. map_of (map (\<lambda>(k, v). (k, json_abs v)) (items ob)) (names oa ! i) = Some y
                \<and> tree_equals (json_abs (item_values oa ! i)) y)"
      proof (rule all_over_upto)
        fix i assume i: "i < ?n"
        have w: "well_formed d (item_values oa ! i)" using Suc.prems(1) JObject i by (simp add: well_formed_parts)
        have *: "json_value_equals (Some (item_values oa ! i)) (map_of (items ob) (names oa ! i))
            = Ret (\<exists>y. map_option json_abs (map_of (items ob) (names oa ! i)) = Some y
                \<and> tree_equals (json_abs (item_values oa ! i)) y)"
        proof (cases "map_of (items ob) (names oa ! i)")
          case None
          have "json_value_get_type (Some v) \<noteq> JSONError" for v by (cases v) simp_all
          then show ?thesis using None by (simp add: json_value_equals.simps [of _ None])
        next
          case (Some y)
          then have "y \<in> set (item_values ob)" by (auto simp: items_def dest!: map_of_SomeD set_zip_rightD)
          then have "well_formed e y" using Suc.prems(2) b d' by (simp add: members_ok_def list_all_iff)
          then show ?thesis using Some Suc.IH [OF w] by simp
        qed
        show "obind (ub_unless (json_object_get_name oa i)) (\<lambda>key.
                 obind (json_object_get_value (Some oa) key) (\<lambda>a_value.
                 obind (json_object_get_value (Some ob) key) (\<lambda>b_value.
                   json_value_equals a_value b_value)))
            = Ret (\<exists>y. map_of (map (\<lambda>(k, v). (k, json_abs v)) (items ob)) (names oa ! i) = Some y
                \<and> tree_equals (json_abs (item_values oa ! i)) y)"
          using stored_member(1,2) [OF oa i] get_value_items [OF ob] * by (simp add: map_of_map_values)
      qed
      then show ?thesis
        using stored_member(3) [OF oa] length_items [OF oa] length_items [OF ob]
        by (auto simp: JObject b json_value_equals.simps [of "Some (JObject oa)"] json_object_get_count_def
            items_map tree_equals_cases)
    next
      case (JArray x)
      then obtain y where b: "b = JArray y" using True by (cases b) simp_all
      have "all_over (\<lambda>i. json_value_equals (json_array_get_value (Some x) i) (json_array_get_value (Some y) i))
              [0..<length (elems x)]
          = Ret (\<forall>i<length (elems x). tree_equals (json_abs (elems x ! i)) (json_abs (elems y ! i)))"
        if "length (elems x) = length (elems y)"
        by (rule all_over_upto)
          (use Suc.prems Suc.IH JArray b d' that in \<open>auto simp: json_array_get_value_def json_array_get_count_def
            elems_ok_def list_all_length\<close>)
      then show ?thesis
        by (auto simp: JArray b json_value_equals.simps [of "Some (JArray x)"] json_array_get_count_def
            tree_equals_cases)
    next
      case (JString s)
      then obtain s' where b: "b = JString s'" using True by (cases b) simp_all
      show ?thesis using JString b by (auto simp: json_value_equals.simps tree_equals_cases)
    qed (use True in \<open>cases b; auto simp: json_value_equals.simps tree_equals_cases\<close>)+
  qed
qed simp

section \<open>Equality is reflexive and symmetric\<close>

lemma fabs_round: "f64_fabs (round_f64 s p q) = round_f64 False p q"
  by (simp add: round_f64_def Let_def split: prod.split)

lemma fabs_sub_sym: "f64_fabs (f64_sub x y) = f64_fabs (f64_sub y x)"
proof (cases x; cases y)
  fix s m e s' m' e' assume xy: "x = Finite s m e" "y = Finite s' m' e'"
  have "min e e' = min e' e" by simp
  moreover have "abs (a - b) = abs (b - a)" for a b :: int by simp
  ultimately show ?thesis by (simp only: xy f64_sub.simps Let_def fabs_round)
qed auto

lemma close_sym: "numbers_close x y = numbers_close y x"
  unfolding numbers_close_def by (subst fabs_sub_sym) (rule refl)

lemma EPSILON_value: "EPSILON = Finite False 4722366482869645 (- 72)"
proof -
  have "bitlen 1000000 = 20"
    using bitlen_le_iff [of 1000000 20] bitlen_le_iff [of 1000000 19] by simp
  then show ?thesis
    by (simp add: EPSILON_def round_f64_def ulp_exponent_def scale_down_def div_near_def Let_def)
qed

lemma close_refl: "\<not> is_number_invalid x \<Longrightarrow> numbers_close x x"
proof -
  assume "\<not> is_number_invalid x"
  then obtain s m e where "x = Finite s m e" by (cases x) (simp_all add: is_number_invalid_def)
  then have "f64_fabs (f64_sub x x) = Finite False 0 (- 1074)" by (simp add: fabs_round round_f64_def)
  then show "numbers_close x x" by (simp add: numbers_close_def EPSILON_value signed_int_def)
qed

text \<open>Trees with distinct keys and finite numbers, as those of well-formed values are.\<close>

fun proper :: "jtree \<Rightarrow> bool" where
  "proper (TObject kvs) = (distinct (map fst kvs) \<and> list_all (\<lambda>kv. proper (snd kv)) kvs)"
| "proper (TArray ts) = list_all proper ts"
| "proper (TNumber x) = (\<not> is_number_invalid x)"
| "proper (TString s) = True"
| "proper (TBoolean c) = True"
| "proper TNull = True"

lemma well_formed_proper: "well_formed d v \<Longrightarrow> proper (json_abs v)"
proof (induction d arbitrary: v)
  case (Suc d)
  show ?case
  proof (cases v)
    case (JObject obj)
    then have o: "members_ok d obj" using Suc.prems by simp
    have "distinct (map fst (items obj))"
      using fst_items obj_ok_fields(7) well_formed_parts(2) [OF o] by metis
    moreover have "proper (json_abs w)" if "(k, w) \<in> set (items obj)" for k w
      using that o Suc.IH by (auto simp: items_def members_ok_def list_all_iff dest: set_zip_rightD)
    ultimately show ?thesis by (auto simp: JObject items_map list_all_iff comp_def split_beta)
  next
    case (JArray a)
    then show ?thesis using Suc by (auto simp: elems_ok_def list_all_iff)
  qed (use Suc.prems in simp_all)
qed simp

lemma tree_equals_refl: "proper t \<Longrightarrow> tree_equals t t"
proof (induction t rule: proper.induct)
  case (1 kvs)
  have "map_of kvs (fst (kvs ! i)) = Some (snd (kvs ! i))" if "i < length kvs" for i
    using 1(2) that by (intro map_of_is_SomeI) simp_all
  moreover have "tree_equals (snd (kvs ! i)) (snd (kvs ! i))" if "i < length kvs" for i
    using 1 that by (simp add: list_all_length)
  ultimately show ?case unfolding tree_equals_cases by blast
qed (auto simp: tree_equals_cases close_refl list_all_length)

text \<open>As many distinct keys on both sides, each of one on the other: the same keys.\<close>

lemma same_keys:
  assumes "distinct (map fst kvs)" and "distinct (map fst kvs')" and "length kvs = length kvs'"
    and "\<And>i. i < length kvs \<Longrightarrow> map_of kvs' (fst (kvs ! i)) \<noteq> None"
  shows "fst ` set kvs = fst ` set kvs'"
proof (rule card_subset_eq)
  show "fst ` set kvs \<subseteq> fst ` set kvs'"
    using assms(4) by (force simp: in_set_conv_nth map_of_eq_None_iff)
  show "card (fst ` set kvs) = card (fst ` set kvs')"
    using assms(1-3) by (metis distinct_card length_map set_map)
qed simp

lemma tree_equals_swap: "proper a \<Longrightarrow> proper b \<Longrightarrow> tree_equals a b \<Longrightarrow> tree_equals b a"
proof (induction a arbitrary: b rule: proper.induct)
  case (1 kvs)
  obtain kvs' where b: "b = TObject kvs'" using 1(4) tree_equals_type [OF 1(4)]
    by (cases b) (simp_all add: tree_type_def)
  have e: "length kvs = length kvs'"
    "\<And>i. i < length kvs \<Longrightarrow> \<exists>y. map_of kvs' (fst (kvs ! i)) = Some y \<and> tree_equals (snd (kvs ! i)) y"
    using 1(4) by (auto simp: b tree_equals_cases)
  have d: "distinct (map fst kvs)" "distinct (map fst kvs')" using 1(2,3) b by simp_all
  have "\<exists>y. map_of kvs (fst (kvs' ! i)) = Some y \<and> tree_equals (snd (kvs' ! i)) y" if i: "i < length kvs'" for i
  proof -
    have "fst (kvs' ! i) \<in> fst ` set kvs"
      using same_keys [OF d e(1)] e(2) i by (metis image_eqI nth_mem option.distinct(1))
    then obtain j where j: "j < length kvs" "fst (kvs ! j) = fst (kvs' ! i)" by (force simp: in_set_conv_nth)
    have "map_of kvs' (fst (kvs' ! i)) = Some (snd (kvs' ! i))" using d(2) i by (intro map_of_is_SomeI) simp_all
    then have "tree_equals (snd (kvs ! j)) (snd (kvs' ! i))" using e(2) [OF j(1)] j(2) by simp
    then have "tree_equals (snd (kvs' ! i)) (snd (kvs ! j))"
      using 1(1) [of "kvs ! j" "snd (kvs' ! i)"] 1(2,3) j(1) i b by (simp add: list_all_length)
    moreover have "map_of kvs (fst (kvs ! j)) = Some (snd (kvs ! j))" using d(1) j(1) by (intro map_of_is_SomeI) simp_all
    ultimately show ?thesis using j(2) by auto
  qed
  then show ?case using e(1) by (simp add: b tree_equals_cases)
next
  case (2 ts)
  then obtain ts' where b: "b = TArray ts'" using tree_equals_type [OF 2(4)] by (cases b) (simp_all add: tree_type_def)
  show ?case using 2 by (auto simp: b tree_equals_cases list_all_length)
next
  case (3 x b)
  then show ?case using tree_equals_type [OF 3(3)] by (cases b) (simp_all add: tree_type_def tree_equals_cases close_sym)
next
  case (4 s b)
  then show ?case using tree_equals_type [OF 4(3)] by (cases b) (simp_all add: tree_type_def tree_equals_cases)
next
  case (5 c b)
  then show ?case using tree_equals_type [OF 5(3)] by (cases b) (simp_all add: tree_type_def tree_equals_cases)
next
  case (6 b)
  then show ?case using tree_equals_type [OF 6(3)] by (cases b) (simp_all add: tree_type_def tree_equals_cases)
qed

section \<open>Validation of trees\<close>

text \<open>A schema asks for the members it names; the first element of an array is for all of them.\<close>

function tree_matches :: "jtree \<Rightarrow> jtree \<Rightarrow> bool" where
  "tree_matches schema t =
     (case (schema, t) of
        (TNull, _) \<Rightarrow> True
      | (TObject ss, TObject kvs) \<Rightarrow>
          list_all (\<lambda>(k, s). case map_of kvs k of None \<Rightarrow> False | Some u \<Rightarrow> tree_matches s u) ss
      | (TArray ss, TArray ts) \<Rightarrow> (case ss of [] \<Rightarrow> True | s # _ \<Rightarrow> list_all (\<lambda>u. tree_matches s u) ts)
      | _ \<Rightarrow> tree_type schema = tree_type t)"
  by pat_completeness auto
termination
proof (relation "measure (\<lambda>(s, t). size s)", goal_cases)
  case (2 a b a' b' ss kvs kv k s u)
  then have "size s \<le> size_list (size_prod (\<lambda>_. 0) size) ss" by (intro size_list_estimation' [of kv]) auto
  then show ?case using 2 by auto
qed auto

declare tree_matches.simps [simp del]

lemma tree_matches_cases:
  "tree_matches TNull t"
  "tree_matches (TObject ss) (TObject kvs) \<longleftrightarrow>
     (\<forall>i<length ss. \<exists>u. map_of kvs (fst (ss ! i)) = Some u \<and> tree_matches (snd (ss ! i)) u)"
  "tree_matches (TArray []) (TArray ts)"
  "tree_matches (TArray (u # us)) (TArray ts) \<longleftrightarrow> (\<forall>i<length ts. tree_matches u (ts ! i))"
  by (auto simp: tree_matches.simps [of TNull] tree_matches.simps [of "TObject _"] tree_matches.simps [of "TArray _"]
      list_all_length split_beta split: option.splits)

lemma tree_matches_type:
  "tree_matches s t \<Longrightarrow> tree_type s = tree_type t \<or> s = TNull"
  by (cases s; cases t) (simp_all add: tree_type_def tree_matches.simps)

text \<open>The members of a schema are found among as many members at least.\<close>

lemma found_keys_fit:
  assumes "distinct (map fst ss)" and "\<And>i. i < length ss \<Longrightarrow> map_of kvs (fst (ss ! i)) \<noteq> None"
  shows "length ss \<le> length kvs"
proof -
  have "set (map fst ss) \<subseteq> fst ` set kvs"
    using assms(2) by (force simp: in_set_conv_nth map_of_eq_None_iff)
  then have "card (set (map fst ss)) \<le> card (fst ` set kvs)" by (intro card_mono) simp_all
  also have "\<dots> \<le> length kvs" using card_image_le [of "set kvs" fst] card_length [of kvs] by simp
  finally show ?thesis using distinct_card [OF assms(1)] by simp
qed

lemma validate_tree:
  "well_formed d s \<Longrightarrow> well_formed d' v \<Longrightarrow>
   json_validate (Some s) (Some v) = Ret (tree_matches (json_abs s) (json_abs v))"
proof (induction d arbitrary: s v d')
  case (Suc d)
  obtain e where d': "d' = Suc e" using Suc.prems(2) by (cases d') simp_all
  show ?case
  proof (cases "json_value_get_type (Some s) = json_value_get_type (Some v) \<or> s = JNull")
    case False
    then have "json_value_get_type (Some s) \<noteq> JSONNull" "json_abs s \<noteq> TNull" by (cases s; simp)+
    moreover from this have "\<not> tree_matches (json_abs s) (json_abs v)"
      using False tree_matches_type [of "json_abs s" "json_abs v"] unfolding type_tree by blast
    ultimately show ?thesis using False by (simp add: json_validate.simps [of "Some s"])
  next
    case True
    show ?thesis
    proof (cases s)
      case (JObject os)
      then obtain ov where v: "v = JObject ov" using True by (cases v) simp_all
      have os: "obj_ok os" and ov: "obj_ok ov" using Suc.prems JObject v d' by (simp_all add: members_ok_def)
      let ?n = "length (names os)" and ?kvs = "map (\<lambda>(k, v). (k, json_abs v)) (items ov)"
      let ?m = "\<lambda>i. \<exists>u. map_of ?kvs (names os ! i) = Some u \<and> tree_matches (json_abs (item_values os ! i)) u"
      have "all_over (\<lambda>i.
                 obind (ub_unless (json_object_get_name os i)) (\<lambda>key.
                 obind (json_object_get_value (Some os) key) (\<lambda>temp_schema_value.
                 obind (json_object_get_value (Some ov) key) (\<lambda>temp_value.
                   if temp_value = None then Ret False
                   else json_validate temp_schema_value temp_value)))) [0..<?n] = Ret (\<forall>i<?n. ?m i)"
      proof (rule all_over_upto)
        fix i assume i: "i < ?n"
        have w: "well_formed d (item_values os ! i)" using Suc.prems(1) JObject i by (simp add: well_formed_parts)
        have "(if map_of (items ov) (names os ! i) = None then Ret False
               else json_validate (Some (item_values os ! i)) (map_of (items ov) (names os ! i))) = Ret (?m i)"
        proof (cases "map_of (items ov) (names os ! i)")
          case (Some y)
          then have "y \<in> set (item_values ov)" by (auto simp: items_def dest!: map_of_SomeD set_zip_rightD)
          then have "well_formed e y" using Suc.prems(2) v d' by (simp add: members_ok_def list_all_iff)
          then show ?thesis using Some Suc.IH [OF w] by (simp add: map_of_map_values)
        qed (simp add: map_of_map_values)
        then show "obind (ub_unless (json_object_get_name os i)) (\<lambda>key.
                 obind (json_object_get_value (Some os) key) (\<lambda>temp_schema_value.
                 obind (json_object_get_value (Some ov) key) (\<lambda>temp_value.
                   if temp_value = None then Ret False
                   else json_validate temp_schema_value temp_value))) = Ret (?m i)"
          using stored_member(1,2) [OF os i] get_value_items [OF ov] by simp
      qed
      moreover have "tree_matches (json_abs s) (json_abs v) \<longleftrightarrow> (\<forall>i<?n. ?m i)"
        using stored_member(3) [OF os] length_items [OF os]
        by (auto simp: JObject v items_map tree_matches_cases)
      moreover have "(\<forall>i<?n. ?m i) \<Longrightarrow> ?n \<le> length (names ov)"
        using found_keys_fit [of "items os" ?kvs] fst_items [OF os] obj_ok_fields(7) [OF os] length_items [OF os]
          length_items [OF ov] stored_member(3) [OF os] by auto
      ultimately show ?thesis
        by (auto simp: JObject v json_validate.simps [of "Some (JObject os)"] json_object_get_count_def)
    next
      case (JArray x)
      then obtain y where v: "v = JArray y" using True by (cases v) simp_all
      have "all_over (\<lambda>i. json_validate (json_array_get_value (Some x) 0) (json_array_get_value (Some y) i))
              [0..<length (elems y)]
          = Ret (\<forall>i<length (elems y). tree_matches (json_abs (elems x ! 0)) (json_abs (elems y ! i)))"
        if "elems x \<noteq> []"
        by (rule all_over_upto)
          (use Suc.prems Suc.IH JArray v d' that in \<open>auto simp: json_array_get_value_def json_array_get_count_def
            elems_ok_def list_all_length\<close>)
      then show ?thesis
        by (cases "elems x") (auto simp: JArray v json_validate.simps [of "Some (JArray x)"] json_array_get_count_def
            tree_matches_cases)
    next
      case JNull
      then show ?thesis by (simp add: json_validate.simps tree_matches_cases)
    qed (use True in \<open>cases v; auto simp: json_validate.simps tree_matches.simps tree_type_def\<close>)+
  qed
qed simp

section \<open>Properties of copies, equality and validation\<close>

text \<open>
  C25. \<^verbatim>\<open>json_value_deep_copy\<close> on a well-formed value, under any allocation failures, returns
  \<^verbatim>\<open>NULL\<close> or a well-formed value that says the same (and that \<^verbatim>\<open>json_value_equals\<close> holds equal to
  the original); it never returns a partial copy or leaves its data, and returns a copy whenever
  memory suffices.
\<close>

theorem deep_copy_same:
  assumes "mem_limited mok" and "tidy v"
  shows "\<exists>r. json_value_deep_copy mok (Some v) = Ret r
           \<and> (\<forall>w. r = Some w \<longrightarrow> tidy w \<and> json_abs w = json_abs v \<and> json_value_equals (Some v) (Some w) = Ret True)
           \<and> (memory_for_copy mok (json_abs v) \<longrightarrow> r \<noteq> None)"
proof -
  obtain d where d: "well_formed d v" using assms(2) by (auto simp: tidy_def)
  obtain r where r: "json_value_deep_copy mok (Some v) = Ret r"
      "\<And>w. r = Some w \<Longrightarrow> well_formed d w \<and> json_abs w = json_abs v"
      "memory_for_copy mok (json_abs v) \<Longrightarrow> r \<noteq> None"
    using deep_copy_copies [OF assms(1) d] unfolding copies_def by blast
  have "json_value_equals (Some v) (Some w) = Ret True" if "r = Some w" for w
    using equals_tree [OF d, of d w] r(2) [OF that] tree_equals_refl [OF well_formed_proper [OF d]] by simp
  then show ?thesis using r unfolding tidy_def by blast
qed

theorem deep_copy_same_witness:
  "\<exists>w. json_value_deep_copy (\<lambda>m. m < 2 ^ 34) (Some (JArray (JSON_Array [JString ''ab'', JNull] 16))) = Ret (Some w)
     \<and> json_abs w = TArray [TString ''ab'', TNull]"
proof -
  let ?v = "JArray (JSON_Array [JString ''ab'', JNull] 16)" and ?mok = "\<lambda>m :: nat. m < 2 ^ 34"
  have v: "tidy ?v" unfolding tidy_def by (auto simp: elems_ok_def intro!: exI [of _ "Suc (Suc 0)"])
  have lim: "mem_limited ?mok" by (auto simp: mem_limited_def)
  have mem: "memory_for_copy ?mok (json_abs ?v)" by (auto simp: memory_for_copy_def)
  obtain r where "json_value_deep_copy ?mok (Some ?v) = Ret r" "\<forall>w. r = Some w \<longrightarrow> json_abs w = json_abs ?v" "r \<noteq> None"
    using deep_copy_same [OF lim v] mem by blast
  then show ?thesis by auto
qed

text \<open>
  C27. \<^verbatim>\<open>json_value_equals\<close> decides the equality \<open>tree_equals\<close> of what two well-formed values say:
  the same keys with equal members in any order, the same elements, strings byte for byte,
  numbers closer than 0.000001. The answer does not depend on the order of the arguments and
  every value equals itself.
\<close>

theorem value_equality:
  assumes "tidy a" and "tidy b"
  shows "json_value_equals (Some a) (Some b) = Ret (tree_equals (json_abs a) (json_abs b))
       \<and> json_value_equals (Some b) (Some a) = json_value_equals (Some a) (Some b)
       \<and> json_value_equals (Some a) (Some a) = Ret True"
proof -
  obtain d e where d: "well_formed d a" and e: "well_formed e b" using assms by (auto simp: tidy_def)
  note p = well_formed_proper [OF d] well_formed_proper [OF e]
  have "tree_equals (json_abs a) (json_abs b) = tree_equals (json_abs b) (json_abs a)"
    using tree_equals_swap p by blast
  then show ?thesis
    using equals_tree [OF d e] equals_tree [OF e d] equals_tree [OF d d] tree_equals_refl [OF p(1)] by simp
qed

theorem value_equality_witness:
  "json_value_equals (Some (JArray (JSON_Array [JBoolean True, JString ''a''] 16)))
     (Some (JArray (JSON_Array [JBoolean True, JString ''b''] 2))) = Ret False"
proof -
  have "tidy (JArray (JSON_Array [JBoolean True, JString ''a''] 16))"
    "tidy (JArray (JSON_Array [JBoolean True, JString ''b''] 2))"
    unfolding tidy_def by (auto simp: elems_ok_def intro!: exI [of _ "Suc (Suc 0)"])
  from value_equality [OF this] show ?thesis by (auto simp: tree_equals_cases less_Suc_eq)
qed

text \<open>
  C28. \<^verbatim>\<open>json_validate\<close> decides whether a value matches a schema: null matches everything, an object
  every object with matching members under each of its keys (the test of the counts adds
  nothing), an empty array every array and any other array those whose elements all match its
  first, and any other value the values of its type.
\<close>

theorem validation:
  assumes "tidy schema" and "tidy v"
  shows "json_validate (Some schema) (Some v) = Ret (tree_matches (json_abs schema) (json_abs v))"
  using assms validate_tree by (auto simp: tidy_def)

theorem validation_witness:
  "json_validate (Some (JArray (JSON_Array [JString ''''] 16)))
     (Some (JArray (JSON_Array [JString ''read'', JNull] 16))) = Ret False"
proof -
  have "tidy (JArray (JSON_Array [JString ''''] 16))" "tidy (JArray (JSON_Array [JString ''read'', JNull] 16))"
    unfolding tidy_def by (auto simp: elems_ok_def intro!: exI [of _ "Suc (Suc 0)"])
  from validation [OF this] show ?thesis
    by (auto simp: tree_matches_cases tree_matches.simps [of "TString _"] tree_type_def less_Suc_eq)
qed

end
