(* ===== verification/Parson_Remove.thy ===== *)
theory Parson_Remove
  imports Parson_Object
begin

text \<open>
  Removal from the object table: the last item takes the index of the removed one, then the slots
  behind the hole move back so that no item is cut off from its home slot.
\<close>

section \<open>Cyclic distance\<close>

definition gap :: "nat \<Rightarrow> nat \<Rightarrow> nat \<Rightarrow> nat" where
  "gap cap a b = (if a \<le> b then b - a else b + cap - a)"

lemma gap_next:
  assumes "j < cap" and "i < cap" and "gap cap i j + 1 < cap"
  shows "gap cap i ((j + 1) mod cap) = gap cap i j + 1"
  using assms by (cases "j + 1 = cap") (auto simp: gap_def split: if_splits)

lemma gap_before:
  assumes "j < cap" and "e < cap" and "0 < gap cap j e"
  shows "gap cap ((j + 1) mod cap) e = gap cap j e - 1"
  using assms by (cases "j + 1 = cap") (auto simp: gap_def split: if_splits)

lemma gap_reach:
  assumes "home < cap" and "ix < cap"
  shows "gap cap home ix < cap" and "(home + gap cap home ix) mod cap = ix"
  using assms by (auto simp: gap_def)

lemma gap_of_reach: "home < cap \<Longrightarrow> d < cap \<Longrightarrow> gap cap home ((home + d) mod cap) = d"
  by (cases "home + d < cap") (auto simp: gap_def le_mod_geq)

text \<open>The test of the code says that the way from \<open>k\<close> to \<open>j\<close> passes \<open>i\<close>.\<close>

lemma passes_hole:
  assumes "i < cap" and "j < cap" and "k < cap" and "i \<noteq> j"
  shows "(i < j \<and> (k \<le> i \<or> j < k)) \<or> (j < i \<and> k \<le> i \<and> j < k) \<longleftrightarrow> gap cap k i < gap cap k j"
  using assms by (cases "k \<le> i"; cases "k \<le> j") (auto simp: gap_def)

lemma gap_through:
  assumes "h < cap" and "i < cap" and "j < cap" and "p < cap"
    and "gap cap h i < gap cap h p" and "gap cap i j < gap cap i p"
  shows "gap cap h j < gap cap h p"
  using assms by (auto simp: gap_def split: if_splits)

lemma gap_inj:
  "i < cap \<Longrightarrow> p < cap \<Longrightarrow> q < cap \<Longrightarrow> gap cap i p = gap cap i q \<Longrightarrow> p = q"
  by (simp add: gap_def split: if_splits)

lemma probe_reaches_gap:
  assumes "home < cap" and "ix < cap"
  shows "probe_reaches cs cap home ix \<longleftrightarrow> (\<forall>x<cap. gap cap home x < gap cap home ix \<longrightarrow> cs ! x \<noteq> None)"
proof
  assume "probe_reaches cs cap home ix"
  then obtain d where d: "d < cap" "ix = (home + d) mod cap" "\<forall>d'<d. cs ! ((home + d') mod cap) \<noteq> None"
    unfolding probe_reaches_def by blast
  show "\<forall>x<cap. gap cap home x < gap cap home ix \<longrightarrow> cs ! x \<noteq> None"
    using d gap_of_reach [OF assms(1) d(1)] gap_reach [OF assms(1)] by metis
next
  assume *: "\<forall>x<cap. gap cap home x < gap cap home ix \<longrightarrow> cs ! x \<noteq> None"
  have "cs ! ((home + d') mod cap) \<noteq> None" if "d' < gap cap home ix" for d'
    using * that gap_of_reach [OF assms(1), of d'] gap_reach(1) [OF assms] assms(1) by simp
  then show "probe_reaches cs cap home ix"
    unfolding probe_reaches_def using gap_reach [OF assms] by metis
qed

section \<open>The loop that moves items back\<close>

text \<open>
  Items \<open>k\<close> with home slots \<open>home k\<close> and one slot \<open>i\<close> that holds none but still counts as used:
  every item is in its slot, every other used slot holds an item, and probing reaches them all.
\<close>

definition holed :: "nat \<Rightarrow> (nat \<Rightarrow> nat) \<Rightarrow> nat \<Rightarrow> nat \<Rightarrow> nat option list \<Rightarrow> nat list \<Rightarrow> bool" where
  "holed cap home n i cs ixs \<longleftrightarrow>
     length cs = cap \<and> length ixs = n \<and> i < cap \<and> cs ! i \<noteq> None
   \<and> (\<forall>k<n. home k < cap \<and> ixs ! k < cap \<and> ixs ! k \<noteq> i \<and> cs ! (ixs ! k) = Some k)
   \<and> (\<forall>ix<cap. ix \<noteq> i \<longrightarrow> (\<forall>k. cs ! ix = Some k \<longrightarrow> k < n \<and> ixs ! k = ix))
   \<and> (\<forall>k<n. \<forall>x<cap. gap cap (home k) x < gap cap (home k) (ixs ! k) \<longrightarrow> cs ! x \<noteq> None)"

lemma holed_sizes: "holed cap home n i cs ixs \<Longrightarrow> length cs = cap \<and> length ixs = n \<and> i < cap \<and> cs ! i \<noteq> None"
  by (simp add: holed_def)

lemma holed_item:
  assumes "holed cap home n i cs ixs" and "k < n"
  shows "home k < cap" "ixs ! k < cap" "ixs ! k \<noteq> i" "cs ! (ixs ! k) = Some k"
  using assms by (simp_all add: holed_def)

lemma holed_slot:
  assumes "holed cap home n i cs ixs" and "ix < cap" and "ix \<noteq> i" and "cs ! ix = Some k"
  shows "k < n" "ixs ! k = ix"
  using assms unfolding holed_def by blast+

lemma holed_path:
  assumes "holed cap home n i cs ixs" and "k < n" and "x < cap" and "gap cap (home k) x < gap cap (home k) (ixs ! k)"
  shows "cs ! x \<noteq> None"
  using assms unfolding holed_def by blast

definition past_hole :: "nat \<Rightarrow> (nat \<Rightarrow> nat) \<Rightarrow> nat \<Rightarrow> nat list \<Rightarrow> nat \<Rightarrow> bool" where
  "past_hole cap home i ixs k \<longleftrightarrow> gap cap (home k) i < gap cap (home k) (ixs ! k)"

text \<open>The items in the slots from the hole up to \<open>j\<close> are reached without it.\<close>

definition checked :: "nat \<Rightarrow> (nat \<Rightarrow> nat) \<Rightarrow> nat \<Rightarrow> nat \<Rightarrow> nat \<Rightarrow> nat list \<Rightarrow> bool" where
  "checked cap home n i j ixs \<longleftrightarrow>
     (\<forall>k<n. 0 < gap cap i (ixs ! k) \<and> gap cap i (ixs ! k) \<le> gap cap i j \<longrightarrow> \<not> past_hole cap home i ixs k)"

lemma free_stops:
  assumes H: "holed cap home n i cs ixs" and C: "checked cap home n i j ixs"
    and j: "j < cap" "gap cap i j + 1 < cap" and free: "cs ! ((j + 1) mod cap) = None" and k: "k < n"
  shows "\<not> past_hole cap home i ixs k"
proof
  assume p: "past_hole cap home i ixs k"
  let ?j = "(j + 1) mod cap" and ?h = "home k" and ?p = "ixs ! k"
  have i: "i < cap" using holed_sizes [OF H] by simp
  note b = i holed_item [OF H k]
  have jn: "?j < cap" "gap cap i ?j = gap cap i j + 1" using j b(1) gap_next by simp_all
  have "0 < gap cap i ?p" using b by (auto simp: gap_def)
  then have "gap cap i j < gap cap i ?p" using C k p unfolding checked_def by (meson not_le_imp_less)
  moreover have "?p \<noteq> ?j" using free b(5) by auto
  then have "gap cap i ?p \<noteq> gap cap i ?j" using gap_inj [OF b(1,3) jn(1)] by blast
  ultimately have "gap cap i ?j < gap cap i ?p" using jn(2) by linarith
  then have "gap cap ?h ?j < gap cap ?h ?p" using gap_through [OF b(2,1) jn(1) b(3)] p by (simp add: past_hole_def)
  then show False using holed_path [OF H k jn(1)] free by simp
qed

lemma move_back_holed:
  assumes H: "holed cap home n i cs ixs" and j: "j < cap" "j \<noteq> i" and c: "cs ! j = Some c"
    and p: "gap cap (home c) i < gap cap (home c) j"
  shows "holed cap home n j (cs[i := Some c]) (ixs[c := i])"
proof -
  note c' = holed_slot [OF H j c]
  have b: "length cs = cap" "length ixs = n" "i < cap" using holed_sizes [OF H] by simp_all
  have other: "ixs ! k \<noteq> j" if "k < n" "k \<noteq> c" for k
    using holed_item(4) [OF H that(1)] that(2) c by auto
  show ?thesis unfolding holed_def
  proof (intro conjI allI impI)
    fix k assume k: "k < n"
    show "home k < cap" "(ixs[c := i]) ! k < cap" "(ixs[c := i]) ! k \<noteq> j"
        "(cs[i := Some c]) ! ((ixs[c := i]) ! k) = Some k"
      using holed_item [OF H k] other [OF k] b j c' by (simp_all add: nth_list_update)
    fix x assume x: "x < cap" and g: "gap cap (home k) x < gap cap (home k) (ixs[c := i] ! k)"
    have "gap cap (home k) x < gap cap (home k) (ixs ! k)"
      using g p c' b(2) by (cases "k = c") auto
    then have "cs ! x \<noteq> None" by (rule holed_path [OF H k x])
    then show "(cs[i := Some c]) ! x \<noteq> None" using x b by (cases "x = i") simp_all
  next
    fix ix k assume "ix < cap" "ix \<noteq> j" "(cs[i := Some c]) ! ix = Some k"
    then show "k < n" "ixs[c := i] ! k = ix"
      using holed_slot [OF H, of ix k] b c' by (auto simp: nth_list_update split: if_splits)
  qed (use b j c c' in simp_all)
qed

lemma checked_more:
  assumes H: "holed cap home n i cs ixs" and C: "checked cap home n i j ixs"
    and j: "j < cap" "gap cap i j + 1 < cap" and c: "cs ! ((j + 1) mod cap) = Some c"
    and p: "\<not> gap cap (home c) i < gap cap (home c) ((j + 1) mod cap)"
  shows "checked cap home n i ((j + 1) mod cap) ixs"
  unfolding checked_def
proof (intro allI impI)
  let ?j = "(j + 1) mod cap"
  fix k assume k: "k < n" and g: "0 < gap cap i (ixs ! k) \<and> gap cap i (ixs ! k) \<le> gap cap i ?j"
  have b: "i < cap" "ixs ! k < cap" using holed_sizes [OF H] holed_item(2) [OF H k] by simp_all
  have jn: "?j < cap" "gap cap i ?j = gap cap i j + 1" using j b(1) gap_next by simp_all
  show "\<not> past_hole cap home i ixs k"
  proof (cases "gap cap i (ixs ! k) = gap cap i ?j")
    case True
    then have "ixs ! k = ?j" using gap_inj [OF b jn(1)] by blast
    moreover from this have "k = c" using holed_item(4) [OF H k] c by simp
    ultimately show ?thesis using p by (simp add: past_hole_def)
  next
    case False
    then show ?thesis using C k g jn(2) by (simp add: checked_def)
  qed
qed

lemma shift_back_holed:
  assumes cap: "cap = 2 ^ e" "e < 32"
  shows "holed cap (\<lambda>k. slot cap (hs ! k)) (length hs) i cs ixs \<Longrightarrow>
    checked cap (\<lambda>k. slot cap (hs ! k)) (length hs) i j ixs \<Longrightarrow> j < cap \<Longrightarrow>
    gap cap i j + todo < cap \<Longrightarrow> (\<exists>f<cap. cs ! f = None \<and> 0 < gap cap j f \<and> gap cap j f \<le> todo) \<Longrightarrow>
    \<exists>i' cs' ixs'. shift_back todo cap hs i j cs ixs = Ret (i', cs', ixs')
      \<and> holed cap (\<lambda>k. slot cap (hs ! k)) (length hs) i' cs' ixs'
      \<and> (\<forall>k<length hs. \<not> past_hole cap (\<lambda>k. slot cap (hs ! k)) i' ixs' k)"
proof (induction todo arbitrary: i j cs ixs)
  case (Suc todo)
  let ?home = "\<lambda>k. slot cap (hs ! k)" and ?n = "length hs" and ?j = "(j + 1) mod cap"
  have step: "slot cap (word_of_nat (j + 1)) = ?j" using slot_of_nat [of e "j + 1"] cap by simp
  have i: "i < cap" and len: "length cs = cap" "length ixs = ?n" using holed_sizes [OF Suc.prems(1)] by simp_all
  have jn: "?j < cap" "gap cap i ?j = gap cap i j + 1"
    using gap_next [OF Suc.prems(3) i] Suc.prems(3,4) by simp_all
  then have ne: "?j \<noteq> i" by (auto simp: gap_def)
  obtain f where f: "f < cap" "cs ! f = None" "0 < gap cap j f" "gap cap j f \<le> Suc todo"
    using Suc.prems(5) by blast
  show ?case
  proof (cases "cs ! ?j")
    case None
    then show ?thesis
      using step jn len Suc.prems(1) free_stops [OF Suc.prems(1,2,3) _ None] Suc.prems(4)
      by (simp add: Let_def del: of_nat_add of_nat_Suc)
  next
    case (Some c)
    have c: "c < ?n" by (rule holed_slot(1) [OF Suc.prems(1) jn(1) ne Some])
    have fj: "f \<noteq> ?j" using f(2) Some by auto
    have "gap cap ?j f = gap cap j f - 1" by (rule gap_before [OF Suc.prems(3) f(1,3)])
    moreover have "gap cap ?j ?j = 0" by (simp add: gap_def)
    then have "gap cap ?j f \<noteq> 0" using gap_inj [OF jn(1) f(1) jn(1)] fj by metis
    ultimately have f': "0 < gap cap ?j f" "gap cap ?j f \<le> todo" using f(4) by auto
    have home: "slot cap h < cap" for h using slot_mod [of e h] cap by simp
    note test = passes_hole [OF i jn(1) home ne [symmetric], of "hs ! c"]
    show ?thesis
    proof (cases "gap cap (?home c) i < gap cap (?home c) ?j")
      case True
      have fi: "f \<noteq> i" using f(2) holed_sizes [OF Suc.prems(1)] by auto
      have "\<exists>i' cs' ixs'. shift_back todo cap hs ?j ?j (cs[i := Some c]) (ixs[c := i]) = Ret (i', cs', ixs')
          \<and> holed cap ?home ?n i' cs' ixs' \<and> (\<forall>k<?n. \<not> past_hole cap ?home i' ixs' k)"
      proof (rule Suc.IH)
        show "holed cap ?home ?n ?j (cs[i := Some c]) (ixs[c := i])"
          by (rule move_back_holed [OF Suc.prems(1) jn(1) ne Some True])
        show "checked cap ?home ?n ?j ?j (ixs[c := i])" by (auto simp: checked_def gap_def)
        show "gap cap ?j ?j + todo < cap" using Suc.prems(4) by (simp add: gap_def)
        show "\<exists>f<cap. cs[i := Some c] ! f = None \<and> 0 < gap cap ?j f \<and> gap cap ?j f \<le> todo"
          using f(1,2) f' fi by (intro exI [of _ f]) simp
      qed (rule jn(1))
      then show ?thesis using step jn(1) len c i Some True test by (simp add: Let_def del: of_nat_add of_nat_Suc)
    next
      case False
      have "\<exists>i' cs' ixs'. shift_back todo cap hs i ?j cs ixs = Ret (i', cs', ixs')
          \<and> holed cap ?home ?n i' cs' ixs' \<and> (\<forall>k<?n. \<not> past_hole cap ?home i' ixs' k)"
      proof (rule Suc.IH [OF Suc.prems(1)])
        show "checked cap ?home ?n i ?j ixs"
          by (rule checked_more [OF Suc.prems(1,2,3) _ Some False]) (use Suc.prems(4) in simp)
        show "gap cap i ?j + todo < cap" using Suc.prems(4) jn(2) by simp
        show "\<exists>f<cap. cs ! f = None \<and> 0 < gap cap ?j f \<and> gap cap ?j f \<le> todo"
          using f(1,2) f' by (intro exI [of _ f]) simp
      qed (rule jn(1))
      moreover have "\<not> ((i < ?j \<and> (?home c \<le> i \<or> ?j < ?home c)) \<or> (?j < i \<and> ?home c \<le> i \<and> ?j < ?home c))"
        using test False by blast
      then have "shift_back (Suc todo) cap hs i j cs ixs = shift_back todo cap hs i ?j cs ixs"
        unfolding shift_back.simps step Let_def arr_def len(1)
        by (simp only: jn(1) Some c obind.simps option.case if_True if_False)
      ultimately show ?thesis by simp
    qed
  qed
qed auto

section \<open>Removing an item\<close>

lemma length_move_last [simp]: "length (move_last xs i) = length xs - 1"
  by (simp add: move_last_def)

lemma nth_move_last: "k < length xs - 1 \<Longrightarrow> move_last xs i ! k = xs ! (if k = i then length xs - 1 else k)"
  by (cases "xs = []") (auto simp: move_last_def nth_butlast last_conv_nth nth_list_update)

lemma move_last_map: "move_last (map f xs) i = map f (move_last xs i)"
  by (intro nth_equalityI) (auto simp: nth_move_last)

lemma move_last_zip:
  "length xs = length ys \<Longrightarrow> zip (move_last xs i) (move_last ys i) = move_last (zip xs ys) i"
  by (intro nth_equalityI) (auto simp: nth_move_last)

lemma distinct_move_last: "distinct xs \<Longrightarrow> distinct (move_last xs i)"
  by (auto simp: distinct_conv_nth nth_move_last)

text \<open>The cells once the last item has its new index; the slot of the removed item is the hole.\<close>

definition relinked :: "'v json_object \<Rightarrow> nat \<Rightarrow> nat option list" where
  "relinked obj i = (let l = length (names obj) - 1
     in if i < l then (cells obj)[cell_ixs obj ! l := Some i] else cells obj)"

lemma relinked_used:
  assumes "obj_ok obj" and "i < length (names obj)" and "x < cell_capacity obj" and "cells obj ! x \<noteq> None"
  shows "relinked obj i ! x \<noteq> None"
  using assms(3,4) obj_ok_fields(4) [OF assms(1)]
  by (cases "cell_ixs obj ! (length (names obj) - 1) = x") (simp_all add: relinked_def Let_def)

lemma relinked_free:
  assumes "obj_ok obj" and "i < length (names obj)" and "x < cell_capacity obj" and "cells obj ! x = None"
  shows "relinked obj i ! x = None"
proof -
  have "cell_ixs obj ! (length (names obj) - 1) \<noteq> x"
    using obj_ok_links(2) [OF assms(1), of "length (names obj) - 1"] assms(2,4) by fastforce
  then show ?thesis using assms(4) by (simp add: relinked_def Let_def)
qed

lemma relinked_holed:
  assumes ok: "obj_ok obj" and i: "i < length (names obj)"
  shows "holed (cell_capacity obj) (\<lambda>k. slot (cell_capacity obj) (move_last (hashes obj) i ! k))
           (length (names obj) - 1) (cell_ixs obj ! i) (relinked obj i) (move_last (cell_ixs obj) i)"
proof -
  let ?l = "length (names obj) - 1" and ?cap = "cell_capacity obj"
  note f = obj_ok_fields [OF ok] and l = obj_ok_links [OF ok]
  have inj: "cell_ixs obj ! a \<noteq> cell_ixs obj ! b" if "a < length (names obj)" "b < length (names obj)" "a \<noteq> b" for a b
    using l(2) [OF that(1)] l(2) [OF that(2)] that(3) by auto
  have cap: "0 < ?cap" using l(1) [OF i] by linarith
  have src: "(if k = i then ?l else k) < length (names obj)" "(if k = i then ?l else k) \<noteq> i" if "k < ?l" for k
    using that i by auto
  have ixs: "move_last (cell_ixs obj) i ! k = cell_ixs obj ! (if k = i then ?l else k)"
    and hs: "move_last (hashes obj) i ! k = full_hash (names obj ! (if k = i then ?l else k))" if "k < ?l" for k
    using that f(1,3) f(8) [OF src(1) [OF that]] by (simp_all only: nth_move_last)
  show ?thesis unfolding holed_def
  proof (intro conjI allI impI)
    show "length (relinked obj i) = ?cap" using f(4) by (simp add: relinked_def Let_def)
    show "length (move_last (cell_ixs obj) i) = ?l" using f(3) by simp
    show "cell_ixs obj ! i < ?cap" by (rule l(1) [OF i])
    show "relinked obj i ! (cell_ixs obj ! i) \<noteq> None"
      by (rule relinked_used [OF ok i l(1) [OF i]]) (simp add: l(2) [OF i])
  next
    fix k assume k: "k < ?l"
    let ?r = "if k = i then ?l else k"
    show "slot ?cap (move_last (hashes obj) i ! k) < ?cap" using slot_cap(1) [OF ok cap] cap by simp
    show "move_last (cell_ixs obj) i ! k < ?cap" unfolding ixs [OF k] by (rule l(1) [OF src(1) [OF k]])
    show "move_last (cell_ixs obj) i ! k \<noteq> cell_ixs obj ! i"
      unfolding ixs [OF k] by (rule inj [OF src(1) [OF k] i src(2) [OF k]])
    show "relinked obj i ! (move_last (cell_ixs obj) i ! k) = Some k"
      unfolding ixs [OF k] using k i l(1) [of ?l] l(2) [of k] f(4) inj [of ?l k]
      by (auto simp: relinked_def Let_def)
    fix x assume x: "x < ?cap"
      and g: "gap ?cap (slot ?cap (move_last (hashes obj) i ! k)) x
            < gap ?cap (slot ?cap (move_last (hashes obj) i ! k)) (move_last (cell_ixs obj) i ! k)"
    have "probe_reaches (cells obj) ?cap (unat (full_hash (names obj ! ?r)) mod ?cap) (cell_ixs obj ! ?r)"
      using ok src(1) [OF k] unfolding obj_ok_def by blast
    then have "cells obj ! x \<noteq> None"
      using g x cap unfolding ixs [OF k] hs [OF k] slot_cap(1) [OF ok cap]
      by (subst (asm) probe_reaches_gap) (use l(1) [OF src(1) [OF k]] in auto)
    then show "relinked obj i ! x \<noteq> None" by (rule relinked_used [OF ok i x])
  next
    fix ix k assume ix: "ix < ?cap" "ix \<noteq> cell_ixs obj ! i" "relinked obj i ! ix = Some k"
    have "k < ?l \<and> cell_ixs obj ! (if k = i then ?l else k) = ix"
    proof (cases "i < ?l \<and> ix = cell_ixs obj ! ?l")
      case True
      then show ?thesis using ix f(4) by (simp add: relinked_def Let_def)
    next
      case False
      then have "cells obj ! ix = Some k" using ix(3) by (auto simp: relinked_def Let_def split: if_splits)
      then have "k < length (names obj)" "cell_ixs obj ! k = ix" using l(3,4) [OF ix(1)] by blast+
      moreover have "k \<noteq> i" using calculation ix(2) by auto
      moreover have "k \<noteq> ?l" using False calculation i by auto
      ultimately show ?thesis by auto
    qed
    then show "k < ?l" "move_last (cell_ixs obj) i ! k = ix" using ixs by auto
  qed
qed

lemma closed_hole_ok:
  assumes ok: "obj_ok obj" and i: "i < length (names obj)"
    and H: "holed (cell_capacity obj) (\<lambda>k. slot (cell_capacity obj) (move_last (hashes obj) i ! k))
              (length (names obj) - 1) h cs ixs"
    and P: "\<forall>k<length (names obj) - 1.
              \<not> past_hole (cell_capacity obj) (\<lambda>k. slot (cell_capacity obj) (move_last (hashes obj) i ! k)) h ixs k"
  shows "obj_ok (JSON_Object (cs[h := None]) (move_last (hashes obj) i) (move_last (names obj) i)
                   (move_last (item_values obj) i) ixs (item_capacity obj) (cell_capacity obj))"
    (is "obj_ok ?o")
proof -
  let ?cap = "cell_capacity obj" and ?l = "length (names obj) - 1"
  note f = obj_ok_fields [OF ok] and H' = holed_sizes [OF H]
  have cap: "0 < ?cap" using obj_ok_links(1) [OF ok i] by linarith
  have "hashes obj = map full_hash (names obj)" using ok by (simp add: obj_ok_def)
  then have hs: "move_last (hashes obj) i = map full_hash (move_last (names obj) i)" by (simp add: move_last_map)
  have "table_sizes ?o" using ok H' by (auto simp: obj_ok_def table_sizes_def)
  moreover have "table_links ?o"
    using holed_item [OF H] holed_slot [OF H] H' by (auto simp: table_links_def nth_list_update split: if_splits)
  moreover have "probe_reaches (cs[h := None]) ?cap (unat (full_hash (move_last (names obj) i ! k)) mod ?cap) (ixs ! k)"
    if k: "k < ?l" for k
  proof -
    let ?home = "slot ?cap (move_last (hashes obj) i ! k)"
    have "move_last (hashes obj) i ! k = full_hash (move_last (names obj) i ! k)" using hs k by simp
    then have home: "unat (full_hash (move_last (names obj) i ! k)) mod ?cap = ?home"
      using slot_cap(1) [OF ok cap] by simp
    have np: "\<not> gap ?cap ?home h < gap ?cap ?home (ixs ! k)" using P k by (simp add: past_hole_def)
    have "cs[h := None] ! x \<noteq> None" if x: "x < ?cap" "gap ?cap ?home x < gap ?cap ?home (ixs ! k)" for x
      using holed_path [OF H k x] x(2) np by (cases "x = h") simp_all
    then show ?thesis unfolding home using probe_reaches_gap holed_item(1,2) [OF H k] by blast
  qed
  ultimately show ?thesis using hs f(7) by (simp add: obj_ok_def distinct_move_last)
qed

lemma remove_present:
  assumes ok: "obj_ok obj" and i: "i < length (names obj)"
  obtains obj' where "json_object_remove_internal obj (names obj ! i) = Ret (Some obj')" "obj_ok obj'"
    "items obj' = move_last (items obj) i" "names obj' = move_last (names obj) i"
    "item_values obj' = move_last (item_values obj) i"
proof -
  let ?cap = "cell_capacity obj" and ?l = "length (names obj) - 1" and ?cell = "cell_ixs obj ! i"
  let ?hs = "move_last (hashes obj) i" and ?ixs = "move_last (cell_ixs obj) i" and ?name = "names obj ! i"
  let ?home = "\<lambda>k. slot ?cap (?hs ! k)"
  note f = obj_ok_fields [OF ok] and l = obj_ok_links [OF ok]
  have cell: "?cell < ?cap" by (rule l(1) [OF i])
  then have cap: "0 < ?cap" by linarith
  obtain e where e: "e < 32" "?cap = 2 ^ e" by (rule obj_ok_power [OF ok cap])
  have n: "length ?hs = ?l" using f(1) by simp
  note H = relinked_holed [OF ok i]
  obtain g where g: "g < ?cap" "cells obj ! g = None" using free_slot_exists [OF ok cap] by blast
  have gc: "g \<noteq> ?cell" using g(2) l(2) [OF i] by auto
  have "\<exists>h cs ixs. shift_back (?cap - 1) ?cap ?hs ?cell ?cell (relinked obj i) ?ixs = Ret (h, cs, ixs)
      \<and> holed ?cap ?home (length ?hs) h cs ixs \<and> (\<forall>k<length ?hs. \<not> past_hole ?cap ?home h ixs k)"
  proof (rule shift_back_holed [OF e(2,1)])
    show "holed ?cap ?home (length ?hs) ?cell (relinked obj i) ?ixs" unfolding n by (rule H)
    show "checked ?cap ?home (length ?hs) ?cell ?cell ?ixs" by (auto simp: checked_def gap_def)
    show "gap ?cap ?cell ?cell + (?cap - 1) < ?cap" using cap by (simp add: gap_def)
    show "\<exists>f<?cap. relinked obj i ! f = None \<and> 0 < gap ?cap ?cell f \<and> gap ?cap ?cell f \<le> ?cap - 1"
      using g gc cell relinked_free [OF ok i g] gap_reach(1) [OF cell g(1)]
      by (intro exI [of _ g]) (auto simp: gap_def)
  qed (rule cell)
  then obtain h cs ixs where s: "shift_back (?cap - 1) ?cap ?hs ?cell ?cell (relinked obj i) ?ixs = Ret (h, cs, ixs)"
      "holed ?cap ?home ?l h cs ixs" "\<forall>k<?l. \<not> past_hole ?cap ?home h ixs k"
    unfolding n by blast
  let ?o = "JSON_Object (cs[h := None]) ?hs (move_last (names obj) i) (move_last (item_values obj) i) ixs
              (item_capacity obj) ?cap"
  have relink: "(if i < json_object_get_count obj - 1
      then obind (arr ?ixs i) (\<lambda>ix. arr_set (cells obj) ix (Some i)) else Ret (cells obj)) = Ret (relinked obj i)"
    using f(3,4) l(1) [of ?l] i
    by (auto simp: relinked_def Let_def json_object_get_count_def nth_move_last)
  have found: "json_object_get_cell_ix obj ?name (length ?name) (hash_string ?name (length ?name)) = Ret (Some ?cell, True)"
    using get_cell_ix_found [OF ok i, of "length ?name" ?name] by (simp add: full_hash_def)
  have "json_object_remove_internal obj ?name = Ret (Some ?o)"
    unfolding json_object_remove_internal_def found
    using cell f(4) l(2) [OF i] relink s(1) holed_sizes [OF s(2)] by (simp add: Let_def)
  moreover have "obj_ok ?o" by (rule closed_hole_ok [OF ok i s(2,3)])
  ultimately show thesis using f(2) by (intro that [of ?o]) (simp_all add: items_def move_last_zip)
qed

lemma remove_absent:
  assumes "obj_ok obj" and "name \<notin> set (names obj)"
  shows "json_object_remove_internal obj name = Ret None"
proof -
  obtain ix where "json_object_get_cell_ix obj name (length name) (full_hash name) = Ret (ix, False)"
    by (rule get_cell_ix_absent_any [OF assms])
  then show ?thesis by (simp add: json_object_remove_internal_def full_hash_def)
qed

text \<open>What is left, as a map and as a set of entries.\<close>

lemma set_move_last:
  assumes "i < length xs" and "distinct xs"
  shows "set (move_last xs i) = set xs - {xs ! i}"
proof -
  have "x \<in> set (move_last xs i) \<longleftrightarrow> x \<in> set xs - {xs ! i}" for x
  proof
    assume "x \<in> set (move_last xs i)"
    then obtain k where "k < length xs - 1" "x = xs ! (if k = i then length xs - 1 else k)"
      by (auto simp: in_set_conv_nth nth_move_last)
    then show "x \<in> set xs - {xs ! i}" using assms by (auto simp: nth_eq_iff_index_eq)
  next
    assume "x \<in> set xs - {xs ! i}"
    then obtain k where k: "k < length xs" "x = xs ! k" "k \<noteq> i" by (auto simp: in_set_conv_nth)
    show "x \<in> set (move_last xs i)"
    proof (cases "k = length xs - 1")
      case True
      then have "move_last xs i ! i = x" "i < length (move_last xs i)" using k assms(1) by (auto simp: nth_move_last)
      then show ?thesis by (metis nth_mem)
    next
      case False
      then have "move_last xs i ! k = x" "k < length (move_last xs i)" using k by (auto simp: nth_move_last)
      then show ?thesis by (metis nth_mem)
    qed
  qed
  then show ?thesis by blast
qed

lemma key_unique:
  assumes "distinct (map fst xs)" and "i < length xs" and "kv \<in> set xs" and "fst kv = fst (xs ! i)"
  shows "kv = xs ! i"
proof -
  obtain j where j: "j < length xs" "xs ! j = kv" using assms(3) by (auto simp: in_set_conv_nth)
  then have "map fst xs ! j = map fst xs ! i" using assms(2,4) by simp
  then have "j = i" using nth_eq_iff_index_eq [OF assms(1), of j i] j(1) assms(2) by simp
  then show ?thesis using j(2) by simp
qed

lemma distinct_singleton:
  assumes "distinct (map fst xs)" and "set xs = {x}"
  shows "xs = [x]"
proof -
  have "length xs = 1" using distinct_card [of xs] assms by (simp add: distinct_map)
  then show ?thesis using assms(2) by (cases xs) auto
qed

section \<open>Stores that forget\<close>

text \<open>
  A keyed store with a removal that keeps the other entries, in some order: what is removed is
  not found any more, everything else is, and the key can be put again.
\<close>

locale deleting_store = keyed_store +
  fixes del :: "'a \<Rightarrow> string \<Rightarrow> 'a option outcome"
  assumes del_present: "inv s \<Longrightarrow> k \<in> fst ` set (entries s) \<Longrightarrow>
      \<exists>s'. del s k = Ret (Some s') \<and> inv s' \<and> set (entries s') = {kv \<in> set (entries s). fst kv \<noteq> k}"
    and del_absent: "inv s \<Longrightarrow> k \<notin> fst ` set (entries s) \<Longrightarrow> del s k = Ret None"
begin

lemma get_del:
  assumes "inv s" and "k \<in> fst ` set (entries s)"
  shows "\<exists>s'. del s k = Ret (Some s') \<and> inv s' \<and> set (entries s') = {kv \<in> set (entries s). fst kv \<noteq> k}
              \<and> (\<forall>j. get s' j = (if j = k then Ret None else get s j))"
proof -
  obtain s' where s': "del s k = Ret (Some s')" "inv s'" "set (entries s') = {kv \<in> set (entries s). fst kv \<noteq> k}"
    using del_present [OF assms] by blast
  have d: "distinct (map fst (entries s))" "distinct (map fst (entries s'))"
    using distinct_entries assms(1) s'(2) by blast+
  have "map_of (entries s') j = (if j = k then None else map_of (entries s) j)" for j
  proof (cases "j = k")
    case True
    then show ?thesis using s'(3) by (auto simp: map_of_eq_None_iff)
  next
    case False
    have "map_of (entries s') j = Some x \<longleftrightarrow> map_of (entries s) j = Some x" for x
      using d s'(3) False by (simp add: map_of_eq_Some_iff)
    then show ?thesis using False by (metis not_None_eq)
  qed
  then show ?thesis using s' get_entry [OF assms(1)] get_entry [OF s'(2)] by auto
qed

lemma put_again:
  assumes "inv s" and "k \<in> fst ` set (entries s)" and "key_ok k"
  shows "\<exists>s'. del s k = Ret (Some s') \<and> (0 < room s' \<longrightarrow> (\<exists>s''. put s' k v = Ret (Some s'') \<and> inv s''
              \<and> (\<forall>j. get s'' j = (if j = k then Ret (Some v) else get s j))))"
proof -
  obtain s' where s': "del s k = Ret (Some s')" "inv s'" "set (entries s') = {kv \<in> set (entries s). fst kv \<noteq> k}"
      "\<forall>j. get s' j = (if j = k then Ret None else get s j)"
    using get_del [OF assms(1,2)] by blast
  have again: "\<exists>s''. put s' k v = Ret (Some s'') \<and> inv s'' \<and> (\<forall>j. get s'' j = (if j = k then Ret (Some v) else get s j))"
    if room: "0 < room s'"
  proof -
    have new: "k \<notin> fst ` set (entries s')" using s'(3) by auto
    obtain s'' where s'': "put s' k v = Ret (Some s'')" "inv s''" "entries s'' = entries s' @ [(k, v)]"
      using put_new [OF s'(2) new room assms(3)] by blast
    have none: "map_of (entries s') k = None" using new by (simp add: map_of_eq_None_iff)
    have "get s'' j = (if j = k then Ret (Some v) else get s' j)" for j
      using get_entry [OF s''(2), of j] get_entry [OF s'(2), of j] none
      by (auto simp: s''(3) map_add_def split: option.split)
    then show ?thesis using s'' s'(4) by auto
  qed
  show ?thesis by (rule exI [of _ s'], rule conjI [OF s'(1)], rule impI, rule again)
qed

end

interpretation removes: deleting_store "set_fresh mok" get_by_name items obj_ok "budget mok n"
    "\<lambda>k. mok (length k + 1)" json_object_remove_internal for mok n
proof (unfold_locales, goal_cases)
  case (1 s k)
  then obtain i where i: "i < length (names s)" "names s ! i = k" by (auto simp: keys_items in_set_conv_nth)
  have n: "i < length (items s)" "items s ! i = (k, item_values s ! i)"
    using i length_items [OF 1(1)] obj_ok_fields(2) [OF 1(1)] by (auto simp: items_def)
  have dk: "distinct (map fst (items s))" using fst_items obj_ok_fields(7) 1(1) by metis
  have "fst (items s ! i) = k" by (simp add: n(2))
  then have "kv = items s ! i \<longleftrightarrow> fst kv = k" if "kv \<in> set (items s)" for kv
    using key_unique [OF dk n(1) that] by metis
  then have "set (items s) - {items s ! i} = {kv \<in> set (items s). fst kv \<noteq> k}" by blast
  moreover have "distinct (items s)" using dk by (simp add: distinct_map)
  moreover obtain s' where "json_object_remove_internal s (names s ! i) = Ret (Some s')" "obj_ok s'"
      "items s' = move_last (items s) i"
    by (rule remove_present [OF 1(1) i(1)])
  ultimately show ?case using set_move_last [OF n(1)] i(2) by (intro exI [of _ s']) simp
next
  case (2 s k)
  then show ?case by (intro remove_absent) (simp_all add: keys_items)
qed

section \<open>Property of removal\<close>

text \<open>
  C23. \<^verbatim>\<open>json_object_remove\<close> on any consistent object never leaves the arrays, fails exactly when
  the key is absent, and otherwise leaves a consistent object with exactly the other entries:
  moving the items behind the freed slot back keeps every one of them within reach, so that
  every other prefix of a name is looked up as before and the removed key is found no more.
\<close>

theorem object_remove_deletes:
  assumes "obj_ok obj"
  shows "if name \<notin> set (names obj) then json_object_remove_internal obj name = Ret None
         else \<exists>obj'. json_object_remove_internal obj name = Ret (Some obj') \<and> obj_ok obj'
                   \<and> set (items obj') = {kv \<in> set (items obj). fst kv \<noteq> name}
                   \<and> (\<forall>key n. n \<le> length key \<longrightarrow>
                        json_object_getn_value obj' key n
                          = (if take n key = name then Ret None else json_object_getn_value obj key n))"
proof (cases "name \<in> set (names obj)")
  case True
  obtain obj' where o': "json_object_remove_internal obj name = Ret (Some obj')" "obj_ok obj'"
      "set (items obj') = {kv \<in> set (items obj). fst kv \<noteq> name}"
      "\<forall>j. get_by_name obj' j = (if j = name then Ret None else get_by_name obj j)"
    using removes.get_del [OF assms, of name] True by (auto simp: keys_items [OF assms])
  have g: "get_by_name ob (take n key) = json_object_getn_value ob key n"
    if "n \<le> length key" "obj_ok ob" for ob :: "'a json_object" and key n
    using that getn_value_map [OF that(2), of n key] getn_value_map [OF that(2), of n "take n key"]
    by (simp add: get_by_name_def)
  have "json_object_getn_value obj' key n
          = (if take n key = name then Ret None else json_object_getn_value obj key n)" if n: "n \<le> length key" for key n
    using o'(4) [rule_format, of "take n key"] unfolding g [OF n o'(2)] g [OF n assms] .
  then show ?thesis using o' True by auto
qed (simp add: remove_absent [OF assms])

theorem object_remove_deletes_witness:
  "\<exists>obj obj'. add_items (json_object_add (\<lambda>m. m < 2 ^ 34)) (JSON_Object [] [] [] [] [] 0 0)
                [(''a'', 1 :: nat), (''b'', 2)] = Ret (Some obj)
            \<and> json_object_remove_internal obj ''a'' = Ret (Some obj')
            \<and> items obj' = [(''b'', 2)] \<and> json_object_getn_value obj' ''a'' 1 = Ret None"
proof -
  let ?mok = "\<lambda>m :: nat. m < 2 ^ 34" and ?o = "JSON_Object [] [] [] [] [] 0 0 :: nat json_object"
  have "serves ?mok (24 * 2 + 128)" by (rule serves_16G) simp
  then have "length [(''a'', 1 :: nat), (''b'', 2)] \<le> budget ?mok 2 ?o" by (simp add: budget_def)
  then obtain obj where obj: "add_items (json_object_add ?mok) ?o [(''a'', 1), (''b'', 2)] = Ret (Some obj)" "obj_ok obj"
      "items obj = [(''a'', 1), (''b'', 2)]"
    using adds.put_all_new [of ?o "[(''a'', 1), (''b'', 2)]" ?mok 2] by (auto simp: empty_object list_all_iff)
  have "names obj = [''a'', ''b'']" using fst_items [OF obj(2)] obj(3) by simp
  then have np: "\<not> ''a'' \<notin> set (names obj)" by simp
  obtain obj' where o': "json_object_remove_internal obj ''a'' = Ret (Some obj')" "obj_ok obj'"
      "set (items obj') = {kv \<in> set (items obj). fst kv \<noteq> ''a''}"
      "\<forall>key n. n \<le> length key \<longrightarrow> json_object_getn_value obj' key n
         = (if take n key = ''a'' then Ret None else json_object_getn_value obj key n)"
    using object_remove_deletes [OF obj(2), of "''a''", unfolded if_not_P [OF np]] by blast
  have gone: "json_object_getn_value obj' ''a'' 1 = Ret None" using o'(4) [rule_format, of 1 "''a''"] by simp
  have "distinct (map fst (items obj'))" using fst_items obj_ok_fields(7) o'(2) by metis
  moreover have "set (items obj') = {(''b'', 2)}" unfolding o'(3) obj(3) by auto
  ultimately have "items obj' = [(''b'', 2)]" by (intro distinct_singleton)
  then show ?thesis using obj(1) o'(1) gone by blast
qed

end
