(* ===== verification/Parson_Path.thy ===== *)
theory Parson_Path
  imports Parson_Copy Parson_Remove
begin

text \<open>
  Dotted paths of \<^verbatim>\<open>include/parson.c\<close> (\<^verbatim>\<open>json_object_dotget_*\<close>, \<^verbatim>\<open>json_object_dotset_*\<close>,
  \<^verbatim>\<open>json_object_dotremove\<close>): the operations of \<open>Parson_Value\<close> and \<open>Parson_Copy\<close> refine lookup, store
  and removal along the path in the tree of the object. At the end, every operation that changes
  an object or an array keeps values well formed.
\<close>

section \<open>Paths and trees\<close>

text \<open>The names between the dots, and what they lead to in a tree.\<close>

function path_of :: "string \<Rightarrow> string list" where
  "path_of name = (case at_dot name of None \<Rightarrow> [name] | Some (p, rest) \<Rightarrow> p # path_of rest)"
  by pat_completeness auto
termination by (relation "measure length") (auto dest: at_dot_shorter)

declare path_of.simps [simp del]

type_synonym members = "(string \<times> jtree) list"

fun t_lookup :: "members \<Rightarrow> string list \<Rightarrow> jtree option" where
  "t_lookup kvs [] = None"
| "t_lookup kvs [k] = map_of kvs k"
| "t_lookup kvs (k # ks) = (case map_of kvs k of Some (TObject m) \<Rightarrow> t_lookup m ks | _ \<Rightarrow> None)"

definition put_in :: "(string \<times> 'v) list \<Rightarrow> string \<Rightarrow> 'v \<Rightarrow> (string \<times> 'v) list" where
  "put_in kvs k x =
     (if k \<in> fst ` set kvs then map (\<lambda>(k', w). (k', if k' = k then x else w)) kvs else kvs @ [(k, x)])"

text \<open>Missing objects on the way are made; a value that is no object stops the way.\<close>

fun t_store :: "members \<Rightarrow> string list \<Rightarrow> jtree \<Rightarrow> members option" where
  "t_store kvs [] x = None"
| "t_store kvs [k] x = Some (put_in kvs k x)"
| "t_store kvs (k # ks) x =
     (case map_of kvs k of
        None \<Rightarrow> map_option (\<lambda>m. put_in kvs k (TObject m)) (t_store [] ks x)
      | Some (TObject m) \<Rightarrow> map_option (\<lambda>m'. put_in kvs k (TObject m')) (t_store m ks x)
      | Some _ \<Rightarrow> None)"

text \<open>The last entry takes the place of the removed one.\<close>

definition del_in :: "(string \<times> 'v) list \<Rightarrow> string \<Rightarrow> (string \<times> 'v) list" where
  "del_in kvs k = move_last kvs (length (takeWhile (\<lambda>kv. fst kv \<noteq> k) kvs))"

fun t_remove :: "members \<Rightarrow> string list \<Rightarrow> members option" where
  "t_remove kvs [] = None"
| "t_remove kvs [k] = (if k \<in> fst ` set kvs then Some (del_in kvs k) else None)"
| "t_remove kvs (k # ks) =
     (case map_of kvs k of
        Some (TObject m) \<Rightarrow> map_option (\<lambda>m'. put_in kvs k (TObject m')) (t_remove m ks)
      | _ \<Rightarrow> None)"

definition entries :: "json json_object \<Rightarrow> members" where
  "entries obj = map (\<lambda>(k, v). (k, json_abs v)) (items obj)"

lemma json_abs_object: "json_abs (JObject obj) = TObject (entries obj)"
  by (simp add: entries_def items_map)

lemma path_of_Cons: "\<exists>k ks. path_of name = k # ks"
  by (subst path_of.simps) (auto split: option.split)

lemma t_steps:
  assumes "path_of name = q"
  shows "t_lookup kvs (k # q) = (case map_of kvs k of Some (TObject m) \<Rightarrow> t_lookup m q | _ \<Rightarrow> None)"
    and "t_store kvs (k # q) x =
     (case map_of kvs k of
        None \<Rightarrow> map_option (\<lambda>m. put_in kvs k (TObject m)) (t_store [] q x)
      | Some (TObject m) \<Rightarrow> map_option (\<lambda>m'. put_in kvs k (TObject m')) (t_store m q x)
      | Some _ \<Rightarrow> None)"
    and "t_remove kvs (k # q) =
     (case map_of kvs k of
        Some (TObject m) \<Rightarrow> map_option (\<lambda>m'. put_in kvs k (TObject m')) (t_remove m q)
      | _ \<Rightarrow> None)"
  using path_of_Cons [of name] unfolding assms by auto

lemma map_of_put_in: "map_of (put_in kvs k x) j = (if j = k then Some x else map_of kvs j)"
proof (cases "k \<in> fst ` set kvs")
  case False
  then have "map_of kvs k = None" by (simp add: map_of_eq_None_iff)
  then show ?thesis using False by (auto simp: put_in_def map_add_def split: option.split)
qed (simp add: put_in_def map_of_replaced)

lemma map_put_in: "map (\<lambda>(k, v). (k, f v)) (put_in kvs k x) = put_in (map (\<lambda>(k, v). (k, f v)) kvs) k (f x)"
  by (force simp: put_in_def image_iff)

lemma put_in_same: "distinct (map fst kvs) \<Longrightarrow> map_of kvs k = Some x \<Longrightarrow> put_in kvs k x = kvs"
proof -
  assume d: "distinct (map fst kvs)" and k: "map_of kvs k = Some x"
  have w: "w = x" if "(k, w) \<in> set kvs" for w using map_of_is_SomeI [OF d that] k by simp
  have "k \<in> fst ` set kvs" using map_of_SomeD [OF k] by force
  then show "put_in kvs k x = kvs" by (auto simp: put_in_def intro!: map_idI dest: w)
qed

lemma lookup_store: "t_store kvs path x = Some kvs' \<Longrightarrow> t_lookup kvs' path = Some x"
  by (induction kvs path x arbitrary: kvs' rule: t_store.induct)
    (auto simp: map_of_put_in split: option.splits jtree.splits)

section \<open>Setting and writing back\<close>

lemma tidy_put:
  assumes "tidy (JObject obj)" and "obj_ok obj'" and "items obj' = put_in (items obj) k v" and "no_nul k" and "tidy v"
  shows "tidy (JObject obj')"
  using assms unfolding tidy_items put_in_def by (auto split: if_splits)

lemma entries_put: "items obj' = put_in (items obj) k v \<Longrightarrow> entries obj' = put_in (entries obj) k (json_abs v)"
  by (simp add: entries_def map_put_in)

lemma put_in_present:
  assumes "obj_ok obj" and "names obj' = names obj" and "item_values obj' = (item_values obj)[i := v]"
    and "i < length (names obj)"
  shows "items obj' = put_in (items obj) (names obj ! i) v"
  using items_replaced [OF assms] assms(4) by (simp add: put_in_def keys_items [OF assms(1)])

lemma set_value_cases:
  assumes ok: "obj_ok obj" and lim: "mem_limited mok"
  obtains obj' where "json_object_set_value mok obj name v False = Ret (False, obj')" "obj_ok obj'"
    "items obj' = items obj" "\<And>n. 0 < budget mok n obj \<Longrightarrow> \<not> mok (length name + 1)"
  | obj' where "json_object_set_value mok obj name v False = Ret (True, obj')" "obj_ok obj'"
    "items obj' = put_in (items obj) name v"
proof (cases "name \<in> set (names obj)")
  case True
  then obtain i where i: "i < length (names obj)" "names obj ! i = name" by (auto simp: in_set_conv_nth)
  obtain obj' where "json_object_set_value mok obj (names obj ! i) v False = Ret (True, obj')" "obj_ok obj'"
    "names obj' = names obj" "item_values obj' = (item_values obj)[i := v]"
    by (rule set_value_present [OF ok i(1)])
  then show thesis using that(2) put_in_present [OF ok _ _ i(1)] i(2) by blast
next
  case new: False
  then have key: "name \<notin> fst ` set (items obj)" by (simp add: keys_items [OF ok])
  obtain ix where ix: "json_object_get_cell_ix obj name (length name) (full_hash name) = Ret (ix, False)"
    by (rule get_cell_ix_absent_any [OF ok new])
  show thesis
  proof (cases "length (names obj) < item_capacity obj \<or> can_grow mok obj")
    case False
    then have "json_object_set_value mok obj name v False = Ret (False, obj)"
      using ix
      by (simp add: grow_fails [OF lim] json_object_set_value_def Let_def full_hash_def [symmetric] json_object_get_count_def
          json_object_grow_and_rehash_def)
    then show thesis using budget_can_add(2) [OF ok] False by (intro that(1)) (use ok in auto)
  next
    case room: True
    show thesis
    proof (cases "mok (length name + 1)")
      case True
      show thesis
        by (rule set_value_absent [OF ok lim new room True]) (use key that(2) in \<open>auto simp: put_in_def\<close>)
    next
      case nokey: False
      show thesis
      proof (cases "length (names obj) < item_capacity obj")
        case True
        then have "json_object_set_value mok obj name v False = Ret (False, obj)"
          using ix nokey by (simp add: json_object_set_value_def store_copy_def Let_def full_hash_def [symmetric]
              json_object_get_count_def)
        then show thesis using nokey by (intro that(1)) (use ok in auto)
      next
        case full: False
        then have grow: "can_grow mok obj" and le: "item_capacity obj \<le> length (names obj)" using room by auto
        obtain o1 where o1: "grow_step mok (json_object_add_fuel (Suc (Suc 0)) mok) obj = Ret (Some o1)" "obj_ok o1"
          "items o1 = items obj" "names o1 = names obj"
          by (rule grow_ok [OF ok lim grow le])
        obtain ix' where ix': "json_object_get_cell_ix o1 name (length name) (full_hash name) = Ret (ix', False)"
          using get_cell_ix_absent_any [OF o1(2), of name] new o1(4) by metis
        have "json_object_set_value mok obj name v False = Ret (False, o1)"
          using le nokey ix ix' o1(1)
          by (simp del: json_object_add_fuel.simps add: json_object_set_value_def store_copy_def Let_def
              full_hash_def [symmetric] json_object_get_count_def json_object_grow_and_rehash_def
              json_object_add_def numeral_2_eq_2)
        then show thesis by (rule that(1)) (use nokey o1 in simp_all)
      qed
    qed
  qed
qed

lemma write_back_ok:
  assumes ok: "obj_ok obj" and p: "map_of (items obj) p = Some w"
  obtains obj' where "write_back obj p v = Ret obj'" "obj_ok obj'" "items obj' = put_in (items obj) p v"
proof -
  have "p \<in> set (names obj)" using map_of_SomeD [OF p] keys_items [OF ok] by force
  then obtain i where i: "i < length (names obj)" "names obj ! i = p" by (auto simp: in_set_conv_nth)
  let ?o = "JSON_Object (cells obj) (hashes obj) (names obj) ((item_values obj)[i := v]) (cell_ixs obj)
              (item_capacity obj) (cell_capacity obj)"
  have "write_back obj p v = Ret ?o"
    using get_cell_ix_found [OF ok i(1), of "length p" p] i obj_ok_fields [OF ok] obj_ok_links(1,2) [OF ok i(1)]
    by (simp add: write_back_def replace_value_def full_hash_def)
  moreover have "obj_ok ?o" using ok by (simp add: obj_ok_def table_sizes_def table_links_def)
  ultimately show thesis using put_in_present [OF ok _ _ i(1), of ?o v] i(2) by (intro that [of ?o]) simp_all
qed

section \<open>Operations along a path, on trees\<close>

text \<open>A lookup of the name before the first dot.\<close>

lemma at_dotD:
  assumes "at_dot name = Some (p, rest)"
  shows "p = take (length p) name" and "length p \<le> length name" and "path_of name = p # path_of rest"
    and "no_nul name \<Longrightarrow> no_nul p \<and> no_nul rest" and "length p + length rest < length name"
proof -
  have p: "p = takeWhile (\<lambda>c. c \<noteq> CHR ''.'') name" and rest: "rest = drop (Suc (length p)) name"
    and ne: "length p \<noteq> length name"
    using assms by (auto simp: at_dot_def Let_def split: if_splits)
  show take: "p = take (length p) name" unfolding p by (rule takeWhile_eq_take)
  show le: "length p \<le> length name" unfolding p by (rule length_takeWhile_le)
  show "path_of name = p # path_of rest" by (subst path_of.simps) (simp add: assms)
  show "length p + length rest < length name" using ne le rest by simp
  show "no_nul p \<and> no_nul rest" if "no_nul name"
  proof
    show "no_nul p" using that take by (metis in_set_takeD list_all_iff no_nul_def)
    show "no_nul rest" using that rest by (metis in_set_dropD list_all_iff no_nul_def)
  qed
qed

lemma getn_entries:
  assumes "obj_ok obj" and "at_dot name = Some (p, rest)"
  shows "json_object_getn_value obj name (length p) = Ret (map_of (items obj) p)"
  using getn_value_map [OF assms(1) at_dotD(2) [OF assms(2)]] at_dotD(1) [OF assms(2)] by simp

lemma map_of_entries: "map_of (entries obj) k = map_option json_abs (map_of (items obj) k)"
  by (simp add: entries_def map_of_map_values)

lemma distinct_entries: "obj_ok obj \<Longrightarrow> distinct (map fst (entries obj))"
  using fst_items obj_ok_fields(7) unfolding entries_def map_fst_values by metis

lemma dotget_tree:
  "tidy (JObject obj) \<Longrightarrow>
   \<exists>v. json_object_dotget_value (Some obj) name = Ret v
     \<and> map_option json_abs v = t_lookup (entries obj) (path_of name) \<and> (\<forall>w. v = Some w \<longrightarrow> tidy w)"
proof (induction name arbitrary: obj rule: path_of.induct)
  case (1 name)
  have ok: "obj_ok obj" by (rule tidy_object(1) [OF 1(2)])
  show ?case
  proof (cases "at_dot name")
    case None
    have "path_of name = [name]" by (subst path_of.simps) (simp add: None)
    then show ?thesis
      using None tidy_object(2) [OF 1(2)]
      by (auto simp: json_object_dotget_value.simps [of _ name] get_value_items [OF ok] map_of_entries)
  next
    case (Some pr)
    obtain p rest where pr: "at_dot name = Some (p, rest)" using Some by (cases pr) simp
    note g = getn_entries [OF ok pr]
    have none: "json_object_dotget_value None nm = Ret None" for nm
      by (induction nm rule: path_of.induct)
        (subst json_object_dotget_value.simps, auto simp: json_object_get_value_def split: option.split)
    show ?thesis
    proof (cases "json_value_get_object (map_of (items obj) p)")
      case n: None
      then have "map_of (entries obj) p \<noteq> Some (TObject m)" for m
        by (cases "map_of (items obj) p" rule: json_value_get_object.cases) (auto simp: map_of_entries)
      then show ?thesis
        using g pr n none
        by (auto simp: json_object_dotget_value.simps [of _ name] at_dotD(3) [OF pr] t_steps(1) [OF refl]
            split: option.split jtree.split)
    next
      case (Some m)
      have m: "map_of (items obj) p = Some (JObject m)" by (rule object_view(2) [OF Some])
      have "\<exists>v. json_object_dotget_value (Some m) rest = Ret v
          \<and> map_option json_abs v = t_lookup (entries m) (path_of rest) \<and> (\<forall>w. v = Some w \<longrightarrow> tidy w)"
        by (rule 1(1) [OF pr refl]) (rule tidy_object(2) [OF 1(2) m])
      then show ?thesis
        using g pr m json_abs_object [of m]
        by (simp add: json_object_dotget_value.simps [of _ name] at_dotD(3) [OF pr] t_steps(1) [OF refl]
            map_of_entries del: json_abs.simps)
    qed
  qed
qed

text \<open>Enough memory for a store: for the nodes and keys on the way and the new ones.\<close>

definition path_fits :: "(nat \<Rightarrow> bool) \<Rightarrow> nat \<Rightarrow> members \<Rightarrow> string \<Rightarrow> bool" where
  "path_fits mok n kvs name \<longleftrightarrow>
     serves mok (24 * Suc n + 128) \<and> copy_size (TObject kvs) + length name \<le> n"

lemma path_fits_budget:
  assumes "path_fits mok n (entries obj) name" and "obj_ok obj"
  shows "0 < budget mok (Suc n) obj" and "length (names obj) < Suc n" and "mok (length name + 1)"
    and "serves mok (24 * Suc n + 128)"
proof -
  have "length (entries obj) = length (names obj)" by (simp add: entries_def length_items [OF assms(2)])
  then show "length (names obj) < Suc n"
    using assms(1) copy_size_length(2) [of "entries obj"] by (simp add: path_fits_def del: copy_size.simps)
  then show "0 < budget mok (Suc n) obj" using assms(1) by (simp add: budget_def path_fits_def)
  show "mok (length name + 1)" "serves mok (24 * Suc n + 128)" using assms(1) by (auto simp: path_fits_def serves_def)
qed

lemma path_fits_rest:
  assumes "path_fits mok n kvs name" and "at_dot name = Some (p, rest)"
  shows "map_of kvs p = Some (TObject m) \<Longrightarrow> path_fits mok n m rest" and "path_fits mok n [] rest"
  using assms(1) at_dotD(5) [OF assms(2)] copy_size_member [of p "TObject m" kvs] copy_size_pos [of "TObject kvs"]
  by (auto simp: path_fits_def dest!: map_of_SomeD simp del: copy_size.simps(1)) simp

definition stores :: "(nat \<Rightarrow> bool) \<Rightarrow> json json_object \<Rightarrow> string \<Rightarrow> json \<Rightarrow> bool" where
  "stores mok obj name v \<longleftrightarrow>
     (\<exists>ok obj'. json_object_dotset_value mok obj name v False = Ret (ok, obj') \<and> tidy (JObject obj')
       \<and> (if ok then t_store (entries obj) (path_of name) (json_abs v) = Some (entries obj')
          else entries obj' = entries obj)
       \<and> (\<forall>n. path_fits mok n (entries obj) name
               \<and> t_store (entries obj) (path_of name) (json_abs v) \<noteq> None \<longrightarrow> ok))"

lemma stores_plain:
  assumes obj: "tidy (JObject obj)" and v: "tidy v" and name: "no_nul name" and lim: "mem_limited mok"
    and dot: "at_dot name = None"
  shows "stores mok obj name v"
proof -
  have path: "path_of name = [name]" by (subst path_of.simps) (simp add: dot)
  note ok = tidy_object(1) [OF obj] and ds = json_object_dotset_value.simps [of mok obj name v False]
  show ?thesis
  proof (cases rule: set_value_cases [OF ok lim, of name v])
    case (1 obj')
    have "tidy (JObject obj')" using obj 1(2,3) by (simp add: tidy_items)
    moreover have "entries obj' = entries obj" by (simp add: entries_def 1(3))
    moreover have "\<not> path_fits mok n (entries obj) name" for n
    proof
      assume "path_fits mok n (entries obj) name"
      from path_fits_budget(1,3) [OF this ok] show False using 1(4) by blast
    qed
    ultimately show ?thesis using 1(1) dot by (auto simp: stores_def ds)
  next
    case (2 obj')
    have "tidy (JObject obj')" by (rule tidy_put [OF obj 2(2,3) name v])
    then show ?thesis using 2(1) entries_put [OF 2(3)] dot path by (auto simp: stores_def ds)
  qed
qed

lemma stores_inside:
  assumes obj: "tidy (JObject obj)" and name: "no_nul name" and dot: "at_dot name = Some (p, rest)"
    and m: "map_of (items obj) p = Some (JObject m)" and IH: "stores mok m rest v"
  shows "stores mok obj name v"
proof -
  note ok = tidy_object(1) [OF obj] and ds = json_object_dotset_value.simps [of mok obj name v False]
  have mt: "map_of (entries obj) p = Some (TObject (entries m))" by (simp add: map_of_entries m json_abs_object del: json_abs.simps)
  note st = t_steps(2) [OF refl, of "entries obj" p rest, unfolded mt, simplified]
  obtain s m' where m': "json_object_dotset_value mok m rest v False = Ret (s, m')" "tidy (JObject m')"
      "if s then t_store (entries m) (path_of rest) (json_abs v) = Some (entries m') else entries m' = entries m"
      "\<And>n. path_fits mok n (entries m) rest \<Longrightarrow> t_store (entries m) (path_of rest) (json_abs v) \<noteq> None \<Longrightarrow> s"
    using IH unfolding stores_def by blast
  obtain obj' where o': "write_back obj p (JObject m') = Ret obj'" "obj_ok obj'"
      "items obj' = put_in (items obj) p (JObject m')"
    by (rule write_back_ok [OF ok m])
  have "tidy (JObject obj')"
    using tidy_put [OF obj o'(2,3) _ m'(2)] at_dotD(4) [OF dot name] by blast
  moreover have e: "entries obj' = put_in (entries obj) p (TObject (entries m'))"
    using entries_put [OF o'(3)] by (simp add: json_abs_object del: json_abs.simps)
  have "\<not> s \<Longrightarrow> entries obj' = entries obj" unfolding e using m'(3) mt distinct_entries [OF ok] by (simp add: put_in_same)
  moreover have "s \<Longrightarrow> t_store (entries obj) (path_of name) (json_abs v) = Some (entries obj')"
    using m'(3) by (simp add: at_dotD(3) [OF dot] st e)
  moreover have "s" if "path_fits mok n (entries obj) name"
    "t_store (entries obj) (path_of name) (json_abs v) \<noteq> None" for n
    using m'(4) [OF path_fits_rest(1) [OF that(1) dot mt]] that(2) by (auto simp: at_dotD(3) [OF dot] st)
  moreover have "json_object_dotset_value mok obj name v False = Ret (s, obj')"
    using getn_entries [OF ok dot] m m'(1) o'(1) dot by (simp add: ds)
  ultimately show ?thesis unfolding stores_def by auto
qed


text \<open>A path that makes a new object: what fails on the way leaves the object as it was.\<close>

lemma stores_new:
  assumes obj: "tidy (JObject obj)" and name: "no_nul name" and lim: "mem_limited mok"
    and dot: "at_dot name = Some (p, rest)" and m: "map_of (items obj) p = None"
    and IH: "\<And>m. tidy (JObject m) \<Longrightarrow> stores mok m rest v"
  shows "stores mok obj name v"
proof -
  note ok = tidy_object(1) [OF obj] and ds = json_object_dotset_value.simps [of mok obj name v False]
  note g = getn_entries [OF ok dot, unfolded m]
  have mt: "map_of (entries obj) p = None" by (simp add: map_of_entries m)
  note st = t_steps(2) [OF refl, of "entries obj" p rest, unfolded mt, simplified]
  have pn: "no_nul p" using at_dotD(4) [OF dot name] by blast
  have stays: ?thesis if "json_object_dotset_value mok obj name v False = Ret (False, obj)"
    "\<And>n. path_fits mok n (entries obj) name \<Longrightarrow> t_store (entries obj) (path_of name) (json_abs v) = None"
    using that obj unfolding stores_def by auto
  show ?thesis
  proof (cases "json_value_get_object (json_value_init_object mok)")
    case None
    then have "\<not> (mok 32 \<and> mok 72)"
      by (auto simp: json_value_init_object_def json_object_make_def json_object_init_def split: if_splits)
    then have "\<not> path_fits mok n kvs nm" for n kvs nm by (auto simp: path_fits_def serves_def)
    then show ?thesis using None dot g by (intro stays) (simp_all add: ds)
  next
    case (Some c)
    have c: "members_ok 0 c" "items c = []" using Some init_object_ok [of mok c 0]
      by (auto simp: json_value_init_object_def json_object_make_def json_object_init_def items_def split: if_splits)
    then have tc: "tidy (JObject c)" "entries c = []" using well_formed_parts(2)
      by (auto simp: tidy_items entries_def)
    obtain s m' where m': "json_object_dotset_value mok c rest v False = Ret (s, m')" "tidy (JObject m')"
        "if s then t_store [] (path_of rest) (json_abs v) = Some (entries m') else entries m' = []"
        "\<And>n. path_fits mok n [] rest \<Longrightarrow> t_store [] (path_of rest) (json_abs v) \<noteq> None \<Longrightarrow> s"
      using IH [OF tc(1)] tc(2) unfolding stores_def by metis
    show ?thesis
    proof (cases "s \<and> mok (length p + 1)")
      case False
      have "t_store (entries obj) (path_of name) (json_abs v) = None" if f: "path_fits mok n (entries obj) name" for n
      proof -
        have "mok (length p + 1)" using f at_dotD(2) [OF dot] by (auto simp: path_fits_def serves_def)
        then have "\<not> s" using False by simp
        then have "t_store [] (path_of rest) (json_abs v) = None"
          using m'(4) [OF path_fits_rest(2) [OF f dot]] by blast
        then show ?thesis by (simp add: at_dotD(3) [OF dot] st)
      qed
      then show ?thesis using False Some dot g m'(1) by (intro stays) (auto simp: ds)
    next
      case True
      note ds' = ds [unfolded dot option.case prod.case g obind.simps Some m'(1)]
      have new: "p \<notin> set (names obj)" using m by (metis keys_items [OF ok] map_of_eq_None_iff)
      show ?thesis
      proof (cases rule: add_cases [OF ok lim, of p "JObject m'"])
        case 1
        have "\<not> path_fits mok n (entries obj) name" for n
        proof
          assume f: "path_fits mok n (entries obj) name"
          show False using add_with_memory [OF ok new path_fits_budget(4,2) [OF f ok]] 1 by blast
        qed
        then show ?thesis using 1 True ds' by (intro stays) (simp_all add: kept_def)
      next
        case (2 obj')
        have i: "items obj' = put_in (items obj) p (JObject m')" using 2(3) new keys_items [OF ok] by (simp add: put_in_def)
        have "tidy (JObject obj')" by (rule tidy_put [OF obj 2(2) i pn m'(2)])
        then show ?thesis
          using 2(1) True ds' m'(3) entries_put [OF i]
          by (auto simp: stores_def kept_def at_dotD(3) [OF dot] st json_abs_object simp del: json_abs.simps)
      qed
    qed
  qed
qed

lemma dotset_stores: "tidy (JObject obj) \<Longrightarrow> tidy v \<Longrightarrow> no_nul name \<Longrightarrow> mem_limited mok \<Longrightarrow> stores mok obj name v"
proof (induction name arbitrary: obj rule: path_of.induct)
  case (1 name)
  show ?case
  proof (cases "at_dot name")
    case None
    then show ?thesis using stores_plain 1 by blast
  next
    case (Some pr)
    obtain p rest where dot: "at_dot name = Some (p, rest)" using Some by (cases pr) simp
    have IH: "stores mok m rest v" if "tidy (JObject m)" for m
      using 1(1) [OF dot refl that 1(3)] at_dotD(4) [OF dot] 1(4,5) by blast
    have ok: "obj_ok obj" by (rule tidy_object(1) [OF 1(2)])
    show ?thesis
    proof (cases "map_of (items obj) p")
      case None
      then show ?thesis using stores_new [OF 1(2,4,5) dot _ IH] by blast
    next
      case (Some w)
      show ?thesis
      proof (cases "json_value_get_object (Some w)")
        case None
        then have "\<And>m. json_abs w \<noteq> TObject m" "\<And>m. w \<noteq> JObject m" by (cases w; simp)+
        then show ?thesis
          using getn_entries [OF ok dot] dot 1(2) Some
          by (auto simp: stores_def json_object_dotset_value.simps [of mok obj name] at_dotD(3) [OF dot]
              t_steps(2) [OF refl] map_of_entries split: json.split jtree.split)
      next
        case m: (Some m)
        then have "map_of (items obj) p = Some (JObject m)" using Some object_view(2) [OF m] by simp
        then show ?thesis using stores_inside [OF 1(2,4) dot] IH tidy_object(2) [OF 1(2)] by blast
      qed
    qed
  qed
qed

section \<open>Removal along a path\<close>

lemma del_in_nth:
  assumes "distinct (map fst kvs)" and "i < length kvs"
  shows "del_in kvs (fst (kvs ! i)) = move_last kvs i"
proof -
  have "takeWhile (\<lambda>kv. fst kv \<noteq> fst (kvs ! i)) kvs = take i kvs"
    using assms by (intro takeWhile_eq_take_P_nth) (auto simp: distinct_conv_nth)
  then show ?thesis using assms(2) by (simp add: del_in_def)
qed

lemma set_del_in:
  assumes "distinct (map fst kvs)" and "k \<in> fst ` set kvs"
  shows "set (del_in kvs k) = {kv \<in> set kvs. fst kv \<noteq> k}" and "distinct (map fst (del_in kvs k))"
proof -
  obtain i where i: "i < length kvs" "fst (kvs ! i) = k" using assms(2) by (auto simp: in_set_conv_nth)
  have del: "del_in kvs k = move_last kvs i" using del_in_nth [OF assms(1) i(1)] i(2) by simp
  have "distinct kvs" using assms(1) by (simp add: distinct_map)
  moreover have "x = kvs ! i" if "x \<in> set kvs" "fst x = k" for x
    using key_unique [OF assms(1) i(1) that(1)] that(2) i(2) by simp
  ultimately show "set (del_in kvs k) = {kv \<in> set kvs. fst kv \<noteq> k}"
    unfolding del using set_move_last [OF i(1)] i(2) by auto
  show "distinct (map fst (del_in kvs k))"
    unfolding del move_last_map [symmetric] by (rule distinct_move_last [OF assms(1)])
qed

lemma map_of_del_in:
  assumes "distinct (map fst kvs)" and "k \<in> fst ` set kvs"
  shows "map_of (del_in kvs k) j = (if j = k then None else map_of kvs j)"
proof (cases "j = k")
  case True
  then show ?thesis using set_del_in(1) [OF assms] by (auto simp: map_of_eq_None_iff)
next
  case False
  have "map_of (del_in kvs k) j = Some x \<longleftrightarrow> map_of kvs j = Some x" for x
    using set_del_in [OF assms] False assms(1) by (auto simp: map_of_eq_Some_iff)
  then show ?thesis using False by (metis not_None_eq)
qed

lemma remove_cases:
  fixes obj :: "json json_object"
  assumes ok: "obj_ok obj"
  obtains "name \<notin> fst ` set (items obj)" "json_object_remove_internal obj name = Ret None"
  | obj' where "name \<in> fst ` set (items obj)" "json_object_remove_internal obj name = Ret (Some obj')"
      "obj_ok obj'" "items obj' = del_in (items obj) name"
proof (cases "name \<in> set (names obj)")
  case True
  then obtain i where i: "i < length (names obj)" "names obj ! i = name" by (auto simp: in_set_conv_nth)
  have d: "distinct (map fst (items obj))" using fst_items [OF ok] obj_ok_fields(7) [OF ok] by simp
  have "fst (items obj ! i) = name" using stored_member(3) [OF ok i(1)] i(2) by simp
  then have del: "del_in (items obj) name = move_last (items obj) i"
    using del_in_nth [OF d, of i] i(1) by (simp add: length_items [OF ok])
  obtain obj' where "json_object_remove_internal obj (names obj ! i) = Ret (Some obj')" "obj_ok obj'"
    "items obj' = move_last (items obj) i"
    by (rule remove_present [OF ok i(1)])
  then show thesis using that(2) del i(2) True by (simp add: keys_items [OF ok])
next
  case False
  then show thesis using that(1) remove_absent [OF ok False] by (simp add: keys_items [OF ok])
qed

lemma dotremove_tree:
  "tidy (JObject obj) \<Longrightarrow> no_nul name \<Longrightarrow>
   \<exists>ok obj'. json_object_dotremove_internal obj name = Ret (ok, obj') \<and> tidy (JObject obj')
     \<and> t_remove (entries obj) (path_of name) = (if ok then Some (entries obj') else None)
     \<and> (\<not> ok \<longrightarrow> entries obj' = entries obj)"
proof (induction name arbitrary: obj rule: path_of.induct)
  case (1 name)
  have ok: "obj_ok obj" by (rule tidy_object(1) [OF 1(2)])
  have d: "distinct (map fst (items obj))" using fst_items [OF ok] obj_ok_fields(7) [OF ok] by simp
  note dr = json_object_dotremove_internal.simps [of obj name]
  show ?case
  proof (cases "at_dot name")
    case None
    have path: "path_of name = [name]" by (subst path_of.simps) (simp add: None)
    have keys: "fst ` set (entries obj) = fst ` set (items obj)" by (force simp: entries_def)
    show ?thesis
    proof (cases rule: remove_cases [OF ok, of name])
      case 1
      then show ?thesis using dr None path \<open>tidy (JObject obj)\<close> keys by (auto simp: kept_def)
    next
      case (2 obj')
      have "entries obj' = del_in (entries obj) name"
        using 2(4) by (simp add: entries_def del_in_def move_last_map takeWhile_map comp_def split_beta)
      moreover have "tidy (JObject obj')"
        using set_del_in(1) [OF d 2(1)] \<open>tidy (JObject obj)\<close> 2(3,4) by (auto simp: tidy_items)
      ultimately show ?thesis using 2(1,2) dr None path keys by (auto simp: kept_def)
    qed
  next
    case (Some pr)
    obtain p rest where dot: "at_dot name = Some (p, rest)" using Some by (cases pr) simp
    note g = getn_entries [OF ok dot] and st = t_steps(3) [OF refl, of "entries obj" p rest]
    show ?thesis
    proof (cases "json_value_get_object (map_of (items obj) p)")
      case None
      then have "map_of (entries obj) p \<noteq> Some (TObject m)" for m
        by (cases "map_of (items obj) p" rule: json_value_get_object.cases) (auto simp: map_of_entries)
      then show ?thesis
        using dr dot g None \<open>tidy (JObject obj)\<close> st
        by (auto simp: at_dotD(3) [OF dot] split: option.split jtree.split)
    next
      case (Some m)
      have m: "map_of (items obj) p = Some (JObject m)" by (rule object_view(2) [OF Some])
      obtain s m' where m': "json_object_dotremove_internal m rest = Ret (s, m')" "tidy (JObject m')"
          "t_remove (entries m) (path_of rest) = (if s then Some (entries m') else None)"
          "\<not> s \<Longrightarrow> entries m' = entries m"
        using 1(1) [OF dot refl tidy_object(2) [OF 1(2) m]] at_dotD(4) [OF dot 1(3)] by blast
      obtain obj' where o': "write_back obj p (JObject m') = Ret obj'" "obj_ok obj'"
          "items obj' = put_in (items obj) p (JObject m')"
        by (rule write_back_ok [OF ok m])
      have "tidy (JObject obj')"
        using tidy_put [OF 1(2) o'(2,3) _ m'(2)] at_dotD(4) [OF dot 1(3)] by blast
      moreover have mt: "map_of (entries obj) p = Some (TObject (entries m))"
        by (simp add: map_of_entries m json_abs_object del: json_abs.simps)
      moreover have "entries obj' = put_in (entries obj) p (TObject (entries m'))"
        using entries_put [OF o'(3)] by (simp add: json_abs_object del: json_abs.simps)
      ultimately show ?thesis
        using dr dot g m m'(1,3,4) o'(1) st put_in_same [OF distinct_entries [OF ok] mt]
        by (cases s) (auto simp: at_dotD(3) [OF dot])
    qed
  qed
qed

text \<open>After a removal the path leads nowhere.\<close>

lemma lookup_remove:
  "proper (TObject kvs) \<Longrightarrow> t_remove kvs path = Some kvs' \<Longrightarrow> t_lookup kvs' path = None"
proof (induction kvs path arbitrary: kvs' rule: t_remove.induct)
  case (2 kvs k)
  then have "k \<in> fst ` set kvs" "kvs' = del_in kvs k" by (simp_all split: if_splits)
  then show ?case using map_of_del_in [of kvs k k] 2(1) by simp
next
  case (3 kvs k k' ks)
  obtain m m' where m: "map_of kvs k = Some (TObject m)" "t_remove m (k' # ks) = Some m'"
      "kvs' = put_in kvs k (TObject m')"
    using 3(3) by (auto split: option.splits jtree.splits)
  have t: "proper (TObject m)" using 3(2) map_of_SomeD [OF m(1)] by (force simp: list_all_iff)
  show ?case using 3(1) [OF m(1) refl t m(2)] m(3) by (simp add: map_of_put_in)
qed simp

section \<open>Properties of the operations on dotted paths\<close>

text \<open>
  C24. \<^verbatim>\<open>json_object_dotset_value\<close> stores along a path: under any allocation failures it either
  reports failure and leaves what the object says as it was, or the object says what \<open>t_store\<close>
  puts at the path, with missing objects on the way made and all other members untouched, and
  \<^verbatim>\<open>json_object_dotget_value\<close> of the same name then finds the value; the object stays consistent.
  It succeeds when memory suffices and nothing on the way is a value other than an object.
\<close>

theorem dotset_then_dotget:
  assumes "tidy (JObject obj)" and "tidy v" and "no_nul name" and "mem_limited mok"
  shows "\<exists>ok obj'. json_object_dotset_value mok obj name v False = Ret (ok, obj') \<and> tidy (JObject obj')
     \<and> (if ok then t_store (entries obj) (path_of name) (json_abs v) = Some (entries obj')
              \<and> (\<exists>w. json_object_dotget_value (Some obj') name = Ret (Some w) \<and> json_abs w = json_abs v)
        else entries obj' = entries obj)
     \<and> (\<forall>n. path_fits mok n (entries obj) name
             \<and> t_store (entries obj) (path_of name) (json_abs v) \<noteq> None \<longrightarrow> ok)"
proof -
  obtain ok obj' where o': "json_object_dotset_value mok obj name v False = Ret (ok, obj')" "tidy (JObject obj')"
      "if ok then t_store (entries obj) (path_of name) (json_abs v) = Some (entries obj') else entries obj' = entries obj"
      "\<forall>n. path_fits mok n (entries obj) name \<and> t_store (entries obj) (path_of name) (json_abs v) \<noteq> None \<longrightarrow> ok"
    using dotset_stores [OF assms] unfolding stores_def by blast
  have get: "\<exists>w. json_object_dotget_value (Some obj') name = Ret (Some w) \<and> json_abs w = json_abs v" if ok
    using dotget_tree [OF o'(2), of name] lookup_store o'(3) that by fastforce
  show ?thesis
    by (rule exI [of _ ok], rule exI [of _ obj'], intro conjI o'(1,2,4)) (use o'(3) get in simp)
qed

theorem dotset_then_dotget_witness:
  "\<exists>obj'. json_object_dotset_value (\<lambda>m. m < 2 ^ 34) (JSON_Object [] [] [] [] [] 0 0) ''a.b'' JNull False
            = Ret (True, obj')
        \<and> entries obj' = [(''a'', TObject [(''b'', TNull)])]"
proof -
  let ?o = "JSON_Object [] [] [] [] [] 0 0 :: json json_object"
  have e: "entries ?o = []" by (simp add: entries_def items_def)
  have o: "tidy (JObject ?o)" "tidy JNull" using empty_object(2)
    by (auto simp: tidy_object_iff) (auto simp: tidy_def intro!: exI [of _ "Suc 0"])
  have "path_of ''b'' = [''b'']" by (subst path_of.simps) (simp add: at_dot_def)
  then have p: "path_of ''a.b'' = [''a'', ''b'']" by (subst path_of.simps) (simp add: at_dot_def)
  then have s: "t_store (entries ?o) (path_of ''a.b'') (json_abs JNull) = Some [(''a'', TObject [(''b'', TNull)])]"
    by (simp add: e put_in_def)
  have "serves (\<lambda>m. m < 2 ^ 34) (24 * Suc 4 + 128)" by (rule serves_16G) simp
  then have fits: "path_fits (\<lambda>m. m < 2 ^ 34) 4 (entries ?o) ''a.b''" by (simp add: path_fits_def e)
  have lim: "mem_limited (\<lambda>m. m < 2 ^ 34)" and nn: "no_nul ''a.b''" by (auto simp: mem_limited_def no_nul_def)
  obtain ok obj' where w: "json_object_dotset_value (\<lambda>m. m < 2 ^ 34) ?o ''a.b'' JNull False = Ret (ok, obj')"
      "ok \<Longrightarrow> t_store (entries ?o) (path_of ''a.b'') (json_abs JNull) = Some (entries obj')"
      "\<forall>n. path_fits (\<lambda>m. m < 2 ^ 34) n (entries ?o) ''a.b''
         \<and> t_store (entries ?o) (path_of ''a.b'') (json_abs JNull) \<noteq> None \<longrightarrow> ok"
    using dotset_then_dotget [OF o nn lim] by metis
  have ok using w(3) fits unfolding s by blast
  then show ?thesis using w(1,2) unfolding s by simp
qed

text \<open>
  C29. \<^verbatim>\<open>json_object_dotremove\<close> takes out what a path leads to: it reports failure and changes
  nothing exactly when the path leads nowhere, and otherwise the object says what \<open>t_remove\<close>
  leaves (the last member takes the place of the removed one, the rest stays), in which
  \<^verbatim>\<open>json_object_dotget_value\<close> of the same name finds nothing; the object stays consistent.
\<close>

theorem dotremove_takes_out:
  assumes "tidy (JObject obj)" and "no_nul name"
  shows "\<exists>ok obj'. json_object_dotremove obj name = Ret (ok, obj') \<and> tidy (JObject obj')
     \<and> t_remove (entries obj) (path_of name) = (if ok then Some (entries obj') else None)
     \<and> (if ok then json_object_dotget_value (Some obj') name = Ret None else entries obj' = entries obj)"
proof -
  obtain ok obj' where o': "json_object_dotremove_internal obj name = Ret (ok, obj')" "tidy (JObject obj')"
      "t_remove (entries obj) (path_of name) = (if ok then Some (entries obj') else None)"
      "\<not> ok \<longrightarrow> entries obj' = entries obj"
    using dotremove_tree [OF assms] by blast
  have "proper (TObject (entries obj))"
    using assms(1) well_formed_proper [of _ "JObject obj"] unfolding tidy_def json_abs_object by blast
  then have "json_object_dotget_value (Some obj') name = Ret None" if ok
    using dotget_tree [OF o'(2), of name] lookup_remove o'(3) that by fastforce
  then show ?thesis using o' by (auto simp: json_object_dotremove_def)
qed

theorem dotremove_takes_out_witness:
  "\<exists>obj obj'. entries obj = [(''a'', TObject [(''b'', TNull)])]
      \<and> json_object_dotremove obj ''a.b'' = Ret (True, obj') \<and> entries obj' = [(''a'', TObject [])]"
proof -
  let ?o = "JSON_Object [] [] [] [] [] 0 0 :: json json_object" and ?mok = "\<lambda>m :: nat. m < 2 ^ 34"
  have e: "entries ?o = []" by (simp add: entries_def items_def)
  have "path_of ''b'' = [''b'']" by (subst path_of.simps) (simp add: at_dot_def)
  then have p: "path_of ''a.b'' = [''a'', ''b'']" by (subst path_of.simps) (simp add: at_dot_def)
  have s: "t_store (entries ?o) (path_of ''a.b'') (json_abs JNull) = Some [(''a'', TObject [(''b'', TNull)])]"
    by (simp add: e p put_in_def)
  have "serves ?mok (24 * Suc 4 + 128)" by (rule serves_16G) simp
  then have fits: "path_fits ?mok 4 (entries ?o) ''a.b''" by (simp add: path_fits_def e)
  have o: "tidy (JObject ?o)" "tidy JNull" and lim: "mem_limited ?mok" and nn: "no_nul ''a.b''"
    using empty_object(2)
    by (auto simp: tidy_object_iff mem_limited_def no_nul_def) (auto simp: tidy_def intro!: exI [of _ "Suc 0"])
  obtain ok obj where w: "tidy (JObject obj)"
      "ok \<Longrightarrow> t_store (entries ?o) (path_of ''a.b'') (json_abs JNull) = Some (entries obj)"
      "\<forall>n. path_fits ?mok n (entries ?o) ''a.b''
         \<and> t_store (entries ?o) (path_of ''a.b'') (json_abs JNull) \<noteq> None \<longrightarrow> ok"
    using dotset_stores [OF o nn lim] unfolding stores_def by metis
  have ok using w(3) fits unfolding s by blast
  then have obj: "entries obj = [(''a'', TObject [(''b'', TNull)])]" using w(2) unfolding s by simp
  have r: "t_remove (entries obj) (path_of ''a.b'') = Some [(''a'', TObject [])]"
    by (simp add: obj p put_in_def del_in_def move_last_def)
  obtain ok' obj' where "json_object_dotremove obj ''a.b'' = Ret (ok', obj')"
      "t_remove (entries obj) (path_of ''a.b'') = (if ok' then Some (entries obj') else None)"
    using dotremove_takes_out [OF w(1) nn] by blast
  then show ?thesis using obj unfolding r by (cases ok') auto
qed

section \<open>Every operation keeps values well formed\<close>

lemma tidy_append:
  assumes "tidy (JArray a)" and "tidy v"
  obtains "json_array_add mok a v = Ret None"
  | a' where "json_array_add mok a v = Ret (Some a')" "tidy (JArray a')" "elems a' = elems a @ [v]"
proof -
  have "list_all tidy (v # elems a)" using assms by (simp add: tidy_array_iff)
  then obtain d where d: "list_all (well_formed d) (v # elems a)" using tidy_all by blast
  then have "elems_ok d a" "well_formed d v" using assms(1) by (simp_all add: elems_ok_def tidy_array_iff)
  then show thesis
  proof (cases rule: array_add_cases [of d a v, where mok = mok])
    case (2 a')
    then have "well_formed (Suc d) (JArray a')" by simp
    then show thesis using that(2) 2(1,3) unfolding tidy_def by blast
  qed (use that in auto)
qed

lemma set_value_tidy:
  assumes "tidy (JObject obj)" and "tidy v" and "no_nul name" and "mem_limited mok"
  shows "\<exists>s obj'. json_object_set_value mok obj name v att = Ret (s, obj') \<and> tidy (JObject obj')"
proof (cases att)
  case False
  have ok: "obj_ok obj" by (rule tidy_object(1) [OF assms(1)])
  show ?thesis
  proof (cases rule: set_value_cases [OF ok assms(4), of name v])
    case (1 obj')
    then show ?thesis using assms(1) False by (auto simp: tidy_items)
  next
    case (2 obj')
    then show ?thesis using tidy_put [OF assms(1) 2(2,3) assms(3,2)] False by auto
  qed
qed (use assms in \<open>auto simp: json_object_set_value_def Let_def\<close>)

lemma remove_tidy:
  assumes "tidy (JObject obj)"
  shows "\<exists>s obj'. json_object_remove obj name = Ret (s, obj') \<and> tidy (JObject obj')"
proof -
  have ok: "obj_ok obj" by (rule tidy_object(1) [OF assms])
  have d: "distinct (map fst (items obj))" using fst_items [OF ok] obj_ok_fields(7) [OF ok] by simp
  show ?thesis
  proof (cases rule: remove_cases [OF ok, of name])
    case 1
    then show ?thesis using assms by (auto simp: json_object_remove_def kept_def)
  next
    case (2 obj')
    then have "tidy (JObject obj')" using set_del_in(1) [OF d 2(1)] assms by (auto simp: tidy_items)
    then show ?thesis using 2(2) by (auto simp: json_object_remove_def kept_def)
  qed
qed

lemma append_tidy:
  assumes "tidy (JArray a)" and "tidy v"
  shows "\<exists>s a'. json_array_append_value mok a (Some v) att = Ret (s, a') \<and> tidy (JArray a')"
proof (cases att)
  case False
  show ?thesis
    by (cases rule: tidy_append [OF assms, of mok]) (use False assms in \<open>auto simp: json_array_append_value_def kept_def\<close>)
qed (use assms in \<open>auto simp: json_array_append_value_def\<close>)

lemma tidy_array_parts:
  assumes "tidy (JArray a)" and "set xs \<subseteq> insert v (set (elems a))" and "tidy v" and "length xs \<le> length (elems a)"
  shows "tidy (JArray (JSON_Array xs (capacity a)))"
  using assms unfolding tidy_array_iff by (auto simp: list_all_iff)

text \<open>
  C26. The operations that change objects and arrays are typed by well-formedness: whatever
  allocations fail and whether or not the call succeeds, each of them returns (no access leaves
  an array), and takes well-formed values to well-formed values, that is consistent tables with
  distinct keys free of NUL, arrays within their capacity and finite numbers throughout.
\<close>

theorem operations_keep_tidy:
  assumes "tidy (JObject obj)" and "tidy (JArray a)" and "tidy v" and "no_nul name" and "mem_limited mok"
  shows "(\<exists>s obj'. json_object_set_value mok obj name v att = Ret (s, obj') \<and> tidy (JObject obj'))
    \<and> (\<exists>s obj'. json_object_dotset_value mok obj name v False = Ret (s, obj') \<and> tidy (JObject obj'))
    \<and> (\<exists>s obj'. json_object_remove obj name = Ret (s, obj') \<and> tidy (JObject obj'))
    \<and> (\<exists>s obj'. json_object_dotremove obj name = Ret (s, obj') \<and> tidy (JObject obj'))
    \<and> tidy (JObject (json_object_clear obj))
    \<and> (\<exists>s a'. json_array_append_value mok a (Some v) att = Ret (s, a') \<and> tidy (JArray a'))
    \<and> tidy (JArray (snd (json_array_replace_value a i (Some v) att)))
    \<and> tidy (JArray (snd (json_array_remove a i)))
    \<and> tidy (JArray (snd (json_array_clear a)))"
proof (intro conjI)
  show "\<exists>s obj'. json_object_dotset_value mok obj name v False = Ret (s, obj') \<and> tidy (JObject obj')"
    using dotset_stores [OF assms(1,3-5)] unfolding stores_def by blast
  show "\<exists>s obj'. json_object_dotremove obj name = Ret (s, obj') \<and> tidy (JObject obj')"
    using dotremove_tree [OF assms(1,4)] unfolding json_object_dotremove_def by blast
  show "tidy (JObject (json_object_clear obj))"
    using clear_ok [OF tidy_object(1) [OF assms(1)]] by (simp add: tidy_items)
  show "tidy (JArray (snd (json_array_replace_value a i (Some v) att)))"
    using tidy_array_parts [OF assms(2) set_update_subset_insert assms(3)] assms(2)
    by (simp add: json_array_replace_value_def)
  have "set (take i (elems a) @ drop (Suc i) (elems a)) \<subseteq> insert v (set (elems a))"
    by (auto dest: in_set_takeD in_set_dropD)
  from tidy_array_parts [OF assms(2) this assms(3)] show "tidy (JArray (snd (json_array_remove a i)))"
    using assms(2) by (simp add: json_array_remove_def)
  show "tidy (JArray (snd (json_array_clear a)))" by (simp add: json_array_clear_def tidy_array_iff)
qed (rule set_value_tidy remove_tidy append_tidy; use assms in blast)+

theorem operations_keep_tidy_witness:
  "tidy (JArray (snd (json_array_replace_value (JSON_Array [JNull, JBoolean True] 16) 1 (Some (JString ''x'')) False)))"
proof -
  have o: "tidy (JObject (JSON_Object [] [] [] [] [] 0 0))" using empty_object(2) by (simp add: tidy_object_iff)
  have a: "tidy (JArray (JSON_Array [JNull, JBoolean True] 16))" and v: "tidy (JString ''x'')"
    unfolding tidy_def by (auto simp: elems_ok_def intro!: exI [of _ "Suc (Suc 0)"])
  have "no_nul ''x''" "mem_limited (\<lambda>m. m < 2 ^ 34)" by (auto simp: mem_limited_def no_nul_def)
  from operations_keep_tidy [OF o a v this] show ?thesis by blast
qed

end
