(* ===== verification/Parson_File.thy ===== *)
theory Parson_File
  imports Parson_Tree
begin

text \<open>
  JSON files of \<^verbatim>\<open>include/parson.c\<close>: \<^verbatim>\<open>read_file\<close>, \<^verbatim>\<open>json_parse_file\<close> and
  \<^verbatim>\<open>json_serialize_to_file\<close> with their variants. What the C library answers for one opened file is a
  record; a directory is a map from paths to contents.
\<close>

section \<open>Reading\<close>

text \<open>
  \<^verbatim>\<open>fopen(..., "r")\<close>, the result of \<^verbatim>\<open>ftell\<close> at the end, the bytes \<^verbatim>\<open>fread\<close> can deliver, \<^verbatim>\<open>ferror\<close>. The
  results of \<^verbatim>\<open>fseek\<close> and \<^verbatim>\<open>rewind\<close> are not tested by the code.
\<close>

record read_answers =
  opens_r :: bool
  tells :: int
  delivers :: string
  errs :: bool

definition read_file :: "(nat \<Rightarrow> bool) \<Rightarrow> read_answers \<Rightarrow> string option" where
  "read_file mok io =
     (if \<not> opens_r io then None
      else if tells io < 0 then None
      else let size_to_read = nat (tells io)
           in if \<not> mok (size_to_read + 1) then None
              else let contents = take size_to_read (delivers io)
                   in if contents = [] \<or> errs io then None else Some contents)"

definition json_parse_file :: "(nat \<Rightarrow> bool) \<Rightarrow> read_answers \<Rightarrow> json option outcome" where
  "json_parse_file mok io =
     (case read_file mok io of None \<Rightarrow> Ret None | Some file_contents \<Rightarrow> json_parse_string mok file_contents)"

definition json_parse_file_with_comments :: "(nat \<Rightarrow> bool) \<Rightarrow> read_answers \<Rightarrow> json option outcome" where
  "json_parse_file_with_comments mok io =
     (case read_file mok io of
        None \<Rightarrow> Ret None
      | Some file_contents \<Rightarrow> json_parse_string_with_comments mok file_contents)"

section \<open>Writing\<close>

text \<open>
  \<^verbatim>\<open>fopen(..., "w")\<close>, whether \<^verbatim>\<open>fputs\<close> and \<^verbatim>\<open>fclose\<close> succeed, and how many bytes are in the file in
  the end. The result is the status and the directory.
\<close>

record write_answers =
  opens_w :: bool
  puts_ok :: bool
  closes_ok :: bool
  arrives :: nat

definition write_text ::
    "write_answers \<Rightarrow> string \<Rightarrow> (string \<rightharpoonup> string) \<Rightarrow> string option \<Rightarrow> bool \<times> (string \<rightharpoonup> string)" where
  "write_text io filename dir serialized_string =
     (case serialized_string of
        None \<Rightarrow> (False, dir)
      | Some txt \<Rightarrow>
          if \<not> opens_w io then (False, dir)
          else (puts_ok io \<and> closes_ok io, dir(filename \<mapsto> take (arrives io) txt)))"

definition json_serialize_to_file ::
    "(nat \<Rightarrow> bool) \<Rightarrow> bool \<Rightarrow> write_answers \<Rightarrow> json option \<Rightarrow> string \<Rightarrow> (string \<rightharpoonup> string)
     \<Rightarrow> (bool \<times> (string \<rightharpoonup> string)) outcome" where
  "json_serialize_to_file mok esc io v filename dir =
     obind (json_serialize_to_string mok esc v) (\<lambda>s. Ret (write_text io filename dir s))"

definition json_serialize_to_file_pretty ::
    "(nat \<Rightarrow> bool) \<Rightarrow> bool \<Rightarrow> write_answers \<Rightarrow> json option \<Rightarrow> string \<Rightarrow> (string \<rightharpoonup> string)
     \<Rightarrow> (bool \<times> (string \<rightharpoonup> string)) outcome" where
  "json_serialize_to_file_pretty mok esc io v filename dir =
     obind (json_serialize_to_string_pretty mok esc v) (\<lambda>s. Ret (write_text io filename dir s))"

section \<open>Files that are read and written whole\<close>

text \<open>
  The documented behaviour of the library: what \<^verbatim>\<open>fputs\<close> and \<^verbatim>\<open>fclose\<close> report as written is in the
  file, and a regular file is delivered up to the position of its end.
\<close>

definition writes_whole :: "write_answers \<Rightarrow> string \<Rightarrow> bool" where
  "writes_whole io txt \<longleftrightarrow> (puts_ok io \<and> closes_ok io \<longrightarrow> length txt \<le> arrives io)"

definition whole_file :: "(string \<rightharpoonup> string) \<Rightarrow> string \<Rightarrow> read_answers \<Rightarrow> bool" where
  "whole_file dir filename io \<longleftrightarrow>
     (case dir filename of None \<Rightarrow> \<not> opens_r io
      | Some txt \<Rightarrow> opens_r io \<and> tells io = int (length txt) \<and> delivers io = txt \<and> \<not> errs io)"

lemma read_whole_file:
  assumes "whole_file dir filename io" and "dir filename = Some txt" and "txt \<noteq> []" and "mok (length txt + 1)"
  shows "read_file mok io = Some txt"
  using assms by (simp add: whole_file_def read_file_def)

lemma serialized_to_file:
  assumes "json_serialize_to_string mok esc (Some v) = Ret s \<and> m = json_serialize_to_file mok esc io (Some v) filename dir
      \<or> json_serialize_to_string_pretty mok esc (Some v) = Ret s
        \<and> m = json_serialize_to_file_pretty mok esc io (Some v) filename dir"
    and "m = Ret (True, dir')" and "\<And>txt. s = Some txt \<Longrightarrow> writes_whole io txt"
  shows "\<exists>txt. s = Some txt \<and> dir' = dir(filename \<mapsto> txt)"
  using assms
  by (auto simp: json_serialize_to_file_def json_serialize_to_file_pretty_def write_text_def writes_whole_def
      split: option.splits if_splits)

lemma serialize_text:
  "json_serialize_to_string mok esc (Some v) = Ret (Some txt) \<Longrightarrow> txt = json_serialize_r esc False 0 v"
  "json_serialize_to_string_pretty mok esc (Some v) = Ret (Some txt) \<Longrightarrow> txt = json_serialize_r esc True 0 v"
  by (auto simp: json_serialize_to_string_def json_serialization_size_def json_serialize_to_buffer_def
      json_serialize_to_string_pretty_def json_serialization_size_pretty_def json_serialize_to_buffer_pretty_def
      serialized_def Let_def split: if_splits)

text \<open>
  What \<^verbatim>\<open>json_serialize_to_file\<close> reports as written is read back by \<^verbatim>\<open>json_parse_file\<close> as a value that
  says the same, and no other file is touched.
\<close>

theorem json_file_roundtrip:
  assumes "printable (Suc MAX_NESTING) v"
    and "json_serialize_to_file mok esc w (Some v) filename dir = Ret (True, dir')"
    and "writes_whole w (json_serialize_r esc False 0 v)" and "whole_file dir' filename r"
    and "serves mok' (24 * length (json_serialize_r esc False 0 v) + 128)"
  shows "\<exists>v'. json_parse_file mok' r = Ret (Some v') \<and> json_abs v' = json_abs v
              \<and> (\<forall>p. p \<noteq> filename \<longrightarrow> dir' p = dir p)"
proof -
  let ?txt = "json_serialize_r esc False 0 v"
  obtain s where s: "json_serialize_to_string mok esc (Some v) = Ret s"
    using assms(2) by (auto simp: json_serialize_to_file_def elim: obind_Ret_E)
  have "\<exists>txt. s = Some txt \<and> dir' = dir(filename \<mapsto> txt)"
    by (rule serialized_to_file [OF _ assms(2), where s = s]) (use s serialize_text(1) assms(3) in auto)
  then have dir': "dir' = dir(filename \<mapsto> ?txt)" using s serialize_text(1) by blast
  have start: "starts_value ?txt" by (rule ser_starts_value [OF assms(1)])
  have "read_file mok' r = Some ?txt"
    using assms(4,5) start dir'
    by (intro read_whole_file [of dir' filename]) (auto simp: starts_value_def serves_def)
  then show ?thesis
    using parse_serialized [OF assms(1,5), of "[]"] dir'
    by (auto simp: json_parse_file_def ends_number_def)
qed

end
