(* ===== verification/Spec2Isabelle.thy ===== *)
theory Spec2Isabelle
  imports Vector Main_Spec Parson_Path Parson_File
begin

text \<open>
  sec-seer: a verified model of the tracer in \<^verbatim>\<open>src/\<close>.

  \<^bold>\<open>The program.\<close> \<^verbatim>\<open>src/main.c\<close> reads a command line, splits the target command into words
  (\<^verbatim>\<open>split_command\<close>, over the dynamic array of \<^verbatim>\<open>include/vector.c\<close>), reads a JSON profile
  (\<^verbatim>\<open>json-parser.c\<close>, over the JSON library \<^verbatim>\<open>include/parson.c\<close>), builds a libseccomp filter from it
  and from what is known of the running system (\<^verbatim>\<open>ctx-build.c\<close>), and forks: the child asks to be
  traced, stops, loads the filter and executes the target; the parent runs the observer loop
  (\<^verbatim>\<open>observer.c\<close>), which continues the child, waits, and for each stop of the filter finds the source
  location and logs the violation as JSON (\<^verbatim>\<open>logger.c\<close>), until the child ends and the log is closed.

  \<^bold>\<open>Theories and the code they model.\<close> Definitions have the names of the C functions; names in other
  styles are loops, cases or macros of a function, and PROJECT.json gives the lines of each.

  \<^item> \<open>Prelude\<close>: outcomes of C functions, \<^verbatim>\<open>size_t\<close>, character classes, memory blocks.
  \<^item> \<open>Vector\<close> (\<^verbatim>\<open>vector.c\<close>, \<^verbatim>\<open>vector.h\<close>): the record \<open>vector\<close> is \<^verbatim>\<open>struct Vector\<close> with its block of
    bytes; every operation and iterator function, with assertions, allocation failures and
    accesses outside the block as results. The contract \<open>list_store\<close> is interpreted on it.
  \<^item> \<open>Split_Command\<close> (\<^verbatim>\<open>main.c\<close>, \<^verbatim>\<open>split_command\<close>): the scanning loop over \<open>Vector\<close>.
  \<^item> \<open>Float64\<close>: \<^verbatim>\<open>double\<close> values, \<^verbatim>\<open>strtod\<close>, \<^verbatim>\<open>"%1.17g"\<close> and conversions to integers, as \<^verbatim>\<open>parson.c\<close> and
    \<^verbatim>\<open>json-parser.c\<close> use them.
  \<^item> \<open>Parson_Text\<close>, \<open>Parson_Object\<close>, \<open>Parson_Remove\<close>, \<open>Parson_Value\<close>, \<open>Parson_Parser\<close>,
    \<open>Parson_Serializer\<close>, \<open>Parson_File\<close>, \<open>Parson_Copy\<close>, \<open>Parson_Path\<close> (\<^verbatim>\<open>parson.c\<close>, \<^verbatim>\<open>parson.h\<close>): strings and
    UTF-8; the hash table of objects (\<open>json_object\<close> has the arrays of \<^verbatim>\<open>json_object_t\<close>) and removal
    from it; values, getters and setters; parser; serializer; files; copy, equality, validation;
    dotted paths. \<open>Parson_Tree\<close> reads values as trees (\<open>jtree\<close>).
  \<^item> \<open>Json_Parser\<close>, \<open>Profile_Spec\<close> (\<^verbatim>\<open>json-parser.c\<close>, \<^verbatim>\<open>json-parser.h\<close>): \<^verbatim>\<open>parse_JSON\<close> into the records of
    the header; its specification over trees (\<open>spec_root\<close>).
  \<^item> \<open>Ctx_Build\<close>, \<open>Ctx_Spec\<close> (\<^verbatim>\<open>ctx-build.c\<close>): runtime context, rule conditions, the calls to
    libseccomp; the flat plan of those calls (\<open>planned\<close>) that the builder follows.
  \<^item> \<open>Logger\<close>, \<open>Log_Spec\<close> (\<^verbatim>\<open>logger.c\<close>): the object of a violation, the appended text with its
    \<^verbatim>\<open>first_in_array\<close> flag, \<^verbatim>\<open>logger_close\<close>; the contract \<open>append_log\<close> of a log.
  \<^item> \<open>Observer\<close>, \<open>Observer_Spec\<close> (\<^verbatim>\<open>observer.c\<close>): statuses, \<^verbatim>\<open>/proc/pid/maps\<close>, \<^verbatim>\<open>addr2line\<close>, one turn of the
    loop (\<open>observer_step\<close>), the loop (\<open>observer_loop\<close>) and its step relation (\<open>observes\<close>).
  \<^item> \<open>Main_Program\<close>, \<open>Main_Spec\<close> (\<^verbatim>\<open>main.c\<close>): \<^verbatim>\<open>getopt_long\<close> on the options of the program, set-up, the
    child and the parent as the lists of their actions, and the runs of the whole program.

  \<^bold>\<open>Conventions.\<close> A C function that may run into undefined behaviour or a failed assertion returns
  an \<open>outcome\<close>; one that may also exit returns a \<open>proc\<close>. \<open>mok\<close> says which sizes \<^verbatim>\<open>malloc\<close> serves, so a
  theorem for every \<open>mok\<close> covers every pattern of allocation failures by size; \<open>mem_limited\<close> is the
  only thing assumed of it (no block of 32 GiB), \<open>serves\<close> and its relatives say that memory
  suffices. Null pointers are \<open>None\<close>, statuses booleans, strings the bytes before the NUL; integers
  are words of their width wherever they can wrap or are read bitwise. What the kernel, the C
  library's files and clock, libseccomp and \<^verbatim>\<open>addr2line\<close> answer are arguments: the records
  \<open>file_io\<close>, \<open>seccomp\<close>, \<open>observer_turn\<close>, \<open>world\<close>.

  \<^bold>\<open>What is shown.\<close>

  \<^item> Whole runs: the target is never executed without a loaded filter; that filter is the one the
    plan of the profile file describes; the closed log of a run is a JSON array of the
    violations; which command lines are accepted.
  \<^item> Filter builder: its calls are those of the plan up to the first failure; the meaning of the
    kernel, capability and architecture conditions and of the actions.
  \<^item> Profile parser: it reads what the tree of the file says, for every file and every failing
    allocation, with the error codes; profiles survive printing and parsing; number conversions.
  \<^item> Log and observer: the log invariant through every turn, the contents of an entry, the end of
    the loop once the child ends, statuses, source locations.
  \<^item> JSON: the parser is total and builds well-formed values (\<open>tidy\<close>), the text of a value is read
    back, objects are maps through growth, rehash and removal, every operation that changes a
    value keeps it well formed, copies say the same, equality and validation decide what they
    should on trees, dotted paths are lookup, store and removal in a tree.
  \<^item> Vector: the operations are those of lists; the cases in which they are not.

  \<^bold>\<open>Interfaces.\<close> \<open>list_store\<close> (\<open>Vector\<close>), \<open>keyed_store\<close> with \<open>strict_store\<close>, \<open>update_store\<close> and
  \<open>deleting_store\<close> (\<open>Parson_Object\<close>, \<open>Parson_Remove\<close>) and \<open>append_log\<close> (\<open>Log_Spec\<close>) state what clients
  rely on; each is interpreted on the functions of the model.

  \<^bold>\<open>Recursion and bounds.\<close> \<open>parse_at\<close> recurses on the nesting \<^verbatim>\<open>MAX_NESTING\<close> still allows, which is the
  code's own limit. The loops over members and elements carry a number of rounds, one more than
  the length of the input; each round consumes a byte, and the bound is proved never to be
  reached. \<^verbatim>\<open>json_object_add\<close> and \<^verbatim>\<open>json_object_grow_and_rehash\<close> call each other;
  \<open>json_object_add_fuel\<close> allows two nested calls, and more give the same result. The loops of
  removal and probing count down the steps the code counts up. The observer loop runs on the
  list of what its turns meet and is shown to end when one of them reports the end of the child.
  All other functions are total by structural recursion or a decreasing size.

  \<^bold>\<open>Not modelled.\<close> Freeing (ownership is a tree, and a freed object is not used by the model), the
  pointers to the parent of a JSON value except for the test whether there is one
  (\<open>attached\<close>), the settings of \<^verbatim>\<open>parson.c\<close> for allocation functions and number formats (escaping of
  slashes is an argument), messages on the standard streams, the test targets, and the scripts
  that build and run. The meaning of a loaded filter to the kernel is not part of the program.
\<close>

end
